(* ===== verification/Sched_Prelude.thy ===== *)
theory Sched_Prelude
  imports Main "HOL-Library.Word" "HOL-Library.Multiset"
begin

text \<open>
  What every component shares: the standard-library types the crate uses (\<open>usize\<close>,
  \<open>std::io::Error\<close>, \<open>io::Result\<close>), the named collections of the development, and
  generic lemmas on iteration, reachability, updated functions and multisets.
\<close>

section \<open>Collections of facts\<close>

named_theorems sched_defs \<open>the operations of the scheduler, the processor and the coroutine\<close>
named_theorems frame \<open>what an operation leaves unchanged\<close>

section \<open>Standard-library types\<close>

text \<open>\<open>usize\<close> on a 64-bit target: addition and subtraction wrap.\<close>

type_synonym usize = "64 word"

text \<open>\<open>std::io::ErrorKind\<close> and \<open>std::io::Error\<close>: a kind and a message.\<close>

datatype error_kind =
    NotFound | PermissionDenied | ConnectionRefused | ConnectionReset | ConnectionAborted
  | NotConnected | AddrInUse | AddrNotAvailable | BrokenPipe | AlreadyExists | WouldBlock
  | InvalidInput | InvalidData | TimedOut | WriteZero | Interrupted | Other

datatype io_error = Io_Error (kind: error_kind) (message: string)

text \<open>\<open>io::Result<T>\<close>: \<open>Inl\<close> is \<open>Err\<close>, \<open>Inr\<close> is \<open>Ok\<close>.\<close>

type_synonym 'a io_result = "io_error + 'a"

lemma map_sum_eq_Inr: "map_sum f g a = Inr y \<longleftrightarrow> (\<exists>x. a = Inr x \<and> y = g x)"
  by (cases a) auto

section \<open>Iterating a step function\<close>

lemma funpow_fixpoint: "f x = x \<Longrightarrow> (f ^^ n) x = x"
  by (induction n) auto

section \<open>Reachable states\<close>

text \<open>The states a step relation reaches from the initial ones.\<close>

inductive reach :: "('s \<Rightarrow> bool) \<Rightarrow> ('s \<Rightarrow> 's \<Rightarrow> bool) \<Rightarrow> 's \<Rightarrow> bool"
  for init :: "'s \<Rightarrow> bool" and step :: "'s \<Rightarrow> 's \<Rightarrow> bool" where
  reach_init: "init s \<Longrightarrow> reach init step s"
| reach_step: "reach init step s \<Longrightarrow> step s s' \<Longrightarrow> reach init step s'"

lemma reach_invariant:
  assumes "reach init step s"
    and "\<And>s. init s \<Longrightarrow> I s"
    and "\<And>s s'. I s \<Longrightarrow> step s s' \<Longrightarrow> I s'"
  shows "I s"
  using assms(1) by (induction rule: reach.induct) (auto intro: assms(2,3))

lemma reach_mono: "reach init step s \<Longrightarrow> (\<And>s. init s \<Longrightarrow> init' s) \<Longrightarrow> reach init' step s"
  by (induction rule: reach.induct) (auto intro: reach.intros)

section \<open>Multisets collected over indexed components\<close>

text \<open>
  The pointers held by the threads are the sum of the per-thread multisets.
\<close>

lemma sum_mset_member:
  "finite A \<Longrightarrow> x \<in># (\<Sum>i\<in>A. f i) \<longleftrightarrow> (\<exists>i\<in>A. x \<in># f i)"
  by (induction A rule: finite_induct) auto

end
