(* ===== verification/Options_Model.thy ===== *)
theory Options_Model
  imports Sched_Prelude
begin

text \<open>
  The coroutine options of \<open>src/options.rs\<close> and the builder of \<open>src/lib.rs\<close> that collects
  them. \<open>rt::min_stack()\<close> reads the process environment, so its value is the parameter
  \<open>min_stack\<close>.
\<close>

section \<open>Options\<close>

record options =
  stack_size :: usize
  name :: "string option"

definition options_new :: "usize \<Rightarrow> options" where
  "options_new min_stack = \<lparr>stack_size = min_stack, name = None\<rparr>"

definition options_stack_size :: "options \<Rightarrow> usize \<Rightarrow> options" where
  "options_stack_size self size' = self\<lparr>stack_size := size'\<rparr>"

definition options_name :: "options \<Rightarrow> string option \<Rightarrow> options" where
  "options_name self n = self\<lparr>name := n\<rparr>"

definition options_default :: "usize \<Rightarrow> options" where
  "options_default min_stack = options_new min_stack"

section \<open>Builder\<close>

record builder =
  opts :: options

definition builder_new :: "usize \<Rightarrow> builder" where
  "builder_new min_stack = \<lparr>opts = options_new min_stack\<rparr>"

definition builder_stack_size :: "builder \<Rightarrow> usize \<Rightarrow> builder" where
  "builder_stack_size self size' = self\<lparr>opts := (opts self)\<lparr>stack_size := size'\<rparr>\<rparr>"

definition builder_name :: "builder \<Rightarrow> string option \<Rightarrow> builder" where
  "builder_name self n = self\<lparr>opts := (opts self)\<lparr>name := n\<rparr>\<rparr>"

lemmas option_defs = options_new_def options_stack_size_def options_name_def
  options_default_def builder_new_def builder_stack_size_def builder_name_def

end
