(* ===== verification/Runtime_State.thy ===== *)
theory Runtime_State
  imports Options_Model
begin

text \<open>
  The state of the runtime: coroutines (\<open>src/coroutine.rs\<close>), the thread-local processor
  (\<open>src/processor.rs\<close>), the global scheduler (\<open>src/scheduler.rs\<close>), and the packages the
  crate calls (\<open>mio\<close>, \<open>context\<close>) as a record of operations \<open>env\<close> that every operation of
  the model takes as an argument.
\<close>

section \<open>Identifiers\<close>

type_synonym ptr = nat      \<comment> \<open>\<open>*mut Coroutine\<close>, the field of \<open>CoroutineRefMut\<close>\<close>
type_synonym tid = nat      \<comment> \<open>an operating-system thread\<close>
type_synonym token = nat    \<comment> \<open>\<open>mio::Token\<close>\<close>
type_synonym fd = int       \<comment> \<open>a raw file descriptor\<close>

text \<open>\<open>mio::EventSet\<close>: the two interests the crate registers.\<close>

datatype interest = Readable | Writable

type_synonym event_set = "interest set"

section \<open>States and results of a coroutine\<close>

datatype co_state = Suspended | Blocked | Panicked | Finished

text \<open>The payload of a panic, a boxed \<open>Any\<close>, is its message.\<close>

type_synonym payload = string

datatype co_error = Panicking payload

type_synonym co_result = "co_error + co_state"

section \<open>Program locations\<close>

text \<open>
  Where a thread's control is, at the grain of one access to shared memory per step, together
  with the thread's own work before the next one (\<open>Atomicity\<close> takes the two functions apart for
  which this matters, \<open>finished\<close> and \<open>spawn_opts\<close>). A saved
  \<open>Context\<close> is the location at which its code goes on when it is swapped in. \<open>'p\<close> is a
  location inside user code.
  \<^item> \<open>Body p\<close>: in the closure a coroutine was spawned with;
  \<^item> \<open>Epilogue st\<close>: in the closing \<open>loop\<close> of \<open>coroutine_initialize\<close>;
  \<^item> \<open>After_Resume h\<close>: in \<open>run_task(h)\<close>, at the return of the context swap of \<open>resume\<close>;
  \<^item> \<open>Ready_Push h k\<close>: in the loop of \<open>Scheduler::ready(h)\<close>, which returns to \<open>k\<close>;
  \<^item> \<open>Loop_Top\<close>, \<open>Idle\<close>, \<open>Dispatch\<close>, \<open>Spawn_Check\<close>: in \<open>schedule\<close>, at the \<open>pop\<close>, in its
    \<open>None\<close> arm, inside \<open>run_once\<close> with these events left, at the \<open>while let\<close>;
  \<^item> \<open>Stopped r\<close>: \<open>schedule\<close> has returned \<open>r\<close>; \<open>Aborted\<close>: a panic unwound the thread;
  \<^item> \<open>Crash\<close>: undefined behaviour, a dangling coroutine pointer or an empty context.
\<close>

datatype 'p loc =
    Body 'p
  | Epilogue co_state
  | After_Resume ptr
  | Ready_Push ptr "'p loc"
  | Loop_Top
  | Idle
  | Dispatch "(token \<times> event_set) list"
  | Spawn_Check
  | Stopped "unit io_result"
  | Aborted
  | Crash

section \<open>What user code asks of the crate\<close>

text \<open>
  One uninterrupted piece of user code ends in one of these calls. \<open>Call_Tau\<close> is a step of
  user code that calls nothing: pieces can be as small as one access to shared data.
\<close>

datatype 'p call =
    Call_Tau 'p
  | Call_Return
  | Call_Panic payload
  | Call_Spawn 'p options 'p
  | Call_Sched 'p
  | Call_Block 'p
  | Call_Wait fd interest "unit io_result \<Rightarrow> 'p"

section \<open>The packages the crate calls\<close>

text \<open>
  \<open>mio::util::BoundedQueue\<close> (\<open>bq\<close>), \<open>mio::util::Slab\<close> (\<open>slab\<close>), \<open>mio::EventLoop\<close> (\<open>el\<close>;
  \<open>el_register\<close> is \<open>register_opt\<close> with \<open>edge|oneshot\<close>, \<open>el_poll\<close> the events one \<open>run_once\<close>
  delivers), \<open>context::stack::StackPool\<close> (\<open>sp\<close>), and the user code. The functions ending in
  \<open>view\<close>, \<open>bq_cap\<close> and \<open>el_armed\<close> are what the laws of the packages are stated with; the
  program never calls them.
\<close>

record ('q, 'sl, 'ev, 'pl, 'stk, 'p, 'u) env =
  bq_new :: "usize \<Rightarrow> 'q"
  bq_push :: "ptr \<Rightarrow> 'q \<Rightarrow> (ptr + unit) \<times> 'q"
  bq_pop :: "'q \<Rightarrow> ptr option \<times> 'q"
  bq_view :: "'q \<Rightarrow> ptr list"
  bq_cap :: "'q \<Rightarrow> nat"
  slab_new :: "usize \<Rightarrow> 'sl"
  slab_insert :: "ptr \<times> fd \<Rightarrow> 'sl \<Rightarrow> ((ptr \<times> fd) + token) \<times> 'sl"
  slab_remove :: "token \<Rightarrow> 'sl \<Rightarrow> (ptr \<times> fd) option \<times> 'sl"
  slab_count :: "'sl \<Rightarrow> nat"
  slab_view :: "'sl \<Rightarrow> token \<rightharpoonup> ptr \<times> fd"
  el_new :: "'ev io_result"
  el_register :: "fd \<Rightarrow> token \<Rightarrow> interest \<Rightarrow> 'ev \<Rightarrow> unit io_result \<times> 'ev"
  el_deregister :: "fd \<Rightarrow> 'ev \<Rightarrow> unit io_result \<times> 'ev"
  el_poll :: "'ev \<Rightarrow> (token \<times> event_set) list io_result \<times> 'ev"
  el_armed :: "'ev \<Rightarrow> token set"
  sp_new :: "'pl"
  sp_take :: "usize \<Rightarrow> 'pl \<Rightarrow> 'stk \<times> 'pl"
  sp_give :: "'stk \<Rightarrow> 'pl \<Rightarrow> 'pl"
  run :: "'p \<Rightarrow> 'u \<Rightarrow> 'p call \<times> 'u"

section \<open>The state\<close>

text \<open>\<open>Coroutine\<close>: a context (\<open>None\<close> is \<open>Context::empty()\<close>) and perhaps a stack.\<close>

record ('p, 'stk) coroutine =
  ctx :: "'p loc option"
  stack :: "'stk option"

text \<open>\<open>Processor\<close>; its work queue is the shared one, and its handler is the slab.\<close>

record ('sl, 'ev, 'stk, 'p) processor =
  event_loop :: 'ev
  slabs :: 'sl
  main_coro :: "('p, 'stk) coroutine"
  cur_running :: "ptr option"
  last_result :: "co_result option"
  new_spawned :: "ptr option"

text \<open>A thread: its thread-local processor and stack pool, and where its control is.\<close>

record ('sl, 'ev, 'pl, 'stk, 'p) thread = "('sl, 'ev, 'stk, 'p) processor" +
  stack_pool :: 'pl
  loc :: "'p loc"

text \<open>
  The process: the fields of the global \<open>Scheduler\<close>, the coroutines allocated with
  \<open>Box::new\<close> (an address is not handed out twice, so a stale pointer stays visible as
  one), the threads and the user's own data.
\<close>

record ('q, 'sl, 'ev, 'pl, 'stk, 'p, 'u) world =
  global_queue :: 'q
  work_counts :: usize
  heap :: "ptr \<rightharpoonup> ('p, 'stk) coroutine"
  next_ptr :: ptr
  threads :: "tid \<Rightarrow> ('sl, 'ev, 'pl, 'stk, 'p) thread"
  user :: 'u

section \<open>Updating one thread\<close>

definition upd ::
  "tid \<Rightarrow> (('sl, 'ev, 'pl, 'stk, 'p) thread \<Rightarrow> ('sl, 'ev, 'pl, 'stk, 'p) thread) \<Rightarrow>
   ('q, 'sl, 'ev, 'pl, 'stk, 'p, 'u) world \<Rightarrow> ('q, 'sl, 'ev, 'pl, 'stk, 'p, 'u) world" where
  "upd t f w = w\<lparr>threads := (threads w)(t := f (threads w t))\<rparr>"

definition goto ::
  "tid \<Rightarrow> 'p loc \<Rightarrow> ('q, 'sl, 'ev, 'pl, 'stk, 'p, 'u) world \<Rightarrow>
   ('q, 'sl, 'ev, 'pl, 'stk, 'p, 'u) world" where
  "goto t l = upd t (\<lambda>th. th\<lparr>loc := l\<rparr>)"

text \<open>Control goes where a context says; an empty context has no code.\<close>

definition enter ::
  "tid \<Rightarrow> 'p loc option \<Rightarrow> ('q, 'sl, 'ev, 'pl, 'stk, 'p, 'u) world \<Rightarrow>
   ('q, 'sl, 'ev, 'pl, 'stk, 'p, 'u) world" where
  "enter t c = goto t (case c of None \<Rightarrow> Crash | Some l \<Rightarrow> l)"

lemma upd_same [simp]: "threads (upd t f w) t = f (threads w t)"
  by (simp add: upd_def)

lemma upd_other [simp]: "t' \<noteq> t \<Longrightarrow> threads (upd t f w) t' = threads w t'"
  by (simp add: upd_def)

lemma upd_frame [simp]:
  "global_queue (upd t f w) = global_queue w" "work_counts (upd t f w) = work_counts w"
  "heap (upd t f w) = heap w" "next_ptr (upd t f w) = next_ptr w" "user (upd t f w) = user w"
  by (simp_all add: upd_def)

lemma upd_upd [simp]: "upd t g (upd t f w) = upd t (\<lambda>th. g (f th)) w"
  by (simp add: upd_def)

lemma threads_goto: "threads (goto t l w) t' =
    (if t' = t then (threads w t)\<lparr>loc := l\<rparr> else threads w t')"
  by (simp add: goto_def)

lemma goto_frame [simp]:
  "global_queue (goto t l w) = global_queue w" "work_counts (goto t l w) = work_counts w"
  "heap (goto t l w) = heap w" "next_ptr (goto t l w) = next_ptr w" "user (goto t l w) = user w"
  by (simp_all add: goto_def)

end
