(* ===== verification/Coroutine_Model.thy ===== *)
theory Coroutine_Model
  imports Runtime_State
begin

text \<open>
  \<open>src/coroutine.rs\<close>: creating a coroutine on a stack of the thread's pool, swapping
  contexts, and the drop that gives the stack back.
\<close>

section \<open>Coroutine\<close>

definition empty :: "('p, 'stk) coroutine" where
  "empty = \<lparr>ctx = None, stack = None\<rparr>"

text \<open>
  \<open>Coroutine::spawn_opts\<close>: the new context starts \<open>coroutine_initialize\<close>, which calls the
  closure. The result is the boxed coroutine, a fresh address of the heap.
\<close>

definition co_spawn_opts ::
  "('q, 'sl, 'ev, 'pl, 'stk, 'p, 'u) env \<Rightarrow> tid \<Rightarrow> 'p \<Rightarrow> options \<Rightarrow>
   ('q, 'sl, 'ev, 'pl, 'stk, 'p, 'u) world \<Rightarrow> ptr \<times> ('q, 'sl, 'ev, 'pl, 'stk, 'p, 'u) world" where
  "co_spawn_opts E t f os w =
    (let (stk, pool) = sp_take E (stack_size os) (stack_pool (threads w t));
         coro = next_ptr w
     in (coro, upd t (\<lambda>th. th\<lparr>stack_pool := pool\<rparr>)
          (w\<lparr>heap := (heap w)(coro \<mapsto> \<lparr>ctx = Some (Body f), stack = Some stk\<rparr>),
             next_ptr := Suc coro\<rparr>)))"

text \<open>
  \<open>Coroutine::yield_to\<close>: \<open>Context::swap\<close> saves the running code, which goes on at \<open>k\<close>
  when it is swapped in again, in \<open>self\<close>; control goes where the target's context says.
\<close>

definition yield_to ::
  "'p loc \<Rightarrow> ('p, 'stk) coroutine \<Rightarrow> ('p, 'stk) coroutine \<Rightarrow>
   ('p, 'stk) coroutine \<times> 'p loc option" where
  "yield_to k self target = (self\<lparr>ctx := Some k\<rparr>, ctx target)"

text \<open>\<open>Drop for Coroutine\<close>: the stack, if there is one, goes to the pool of this thread.\<close>

definition co_drop ::
  "('q, 'sl, 'ev, 'pl, 'stk, 'p, 'u) env \<Rightarrow> tid \<Rightarrow> ('p, 'stk) coroutine \<Rightarrow>
   ('q, 'sl, 'ev, 'pl, 'stk, 'p, 'u) world \<Rightarrow> ('q, 'sl, 'ev, 'pl, 'stk, 'p, 'u) world" where
  "co_drop E t self w =
    (case stack self of
       None \<Rightarrow> w
     | Some st \<Rightarrow> upd t (\<lambda>th. th\<lparr>stack_pool := sp_give E st (stack_pool th)\<rparr>) w)"

text \<open>The outcome of the closure in \<open>coroutine_initialize\<close>: what is yielded, and \<open>st\<close>.\<close>

definition initialize_outcome :: "payload + unit \<Rightarrow> co_result \<times> co_state" where
  "initialize_outcome ret =
    (case ret of
       Inr _ \<Rightarrow> (Inr Finished, Finished)
     | Inl err \<Rightarrow> (Inl (Panicking err), Panicked))"

lemmas coroutine_defs = empty_def co_spawn_opts_def yield_to_def co_drop_def
  initialize_outcome_def

declare coroutine_defs [sched_defs]

end
