(* ===== verification/Scheduler_Model.thy ===== *)
theory Scheduler_Model
  imports Coroutine_Model
begin

text \<open>
  The operations of \<open>src/scheduler.rs\<close> on the global queue and the work counter. What the
  scheduler forwards to the processor is in \<open>Processor_Model\<close>.
\<close>

section \<open>Scheduler\<close>

definition GLOBAL_QUEUE_SIZE :: usize where
  "GLOBAL_QUEUE_SIZE = 0x1000"

definition scheduler_queue :: "('q, 'sl, 'ev, 'pl, 'stk, 'p, 'u) env \<Rightarrow> 'q" where
  "scheduler_queue E = bq_new E GLOBAL_QUEUE_SIZE"

text \<open>One round of the loop of \<open>Scheduler::ready\<close>; on success it returns to \<open>k\<close>.\<close>

definition ready ::
  "('q, 'sl, 'ev, 'pl, 'stk, 'p, 'u) env \<Rightarrow> tid \<Rightarrow> ptr \<Rightarrow> 'p loc \<Rightarrow>
   ('q, 'sl, 'ev, 'pl, 'stk, 'p, 'u) world \<Rightarrow> ('q, 'sl, 'ev, 'pl, 'stk, 'p, 'u) world" where
  "ready E t coro k w =
    (case bq_push E coro (global_queue w) of
       (Inr _, q) \<Rightarrow> goto t k (w\<lparr>global_queue := q\<rparr>)
     | (Inl h, q) \<Rightarrow> goto t (Ready_Push h k) (w\<lparr>global_queue := q\<rparr>))"

text \<open>
  \<open>Scheduler::finished\<close>: count down, then take the box back and drop it. A pointer that
  is no allocated coroutine is undefined behaviour.
\<close>

definition finished_count ::
  "('q, 'sl, 'ev, 'pl, 'stk, 'p, 'u) world \<Rightarrow> ('q, 'sl, 'ev, 'pl, 'stk, 'p, 'u) world" where
  "finished_count w = w\<lparr>work_counts := work_counts w - 1\<rparr>"

definition finished_drop ::
  "('q, 'sl, 'ev, 'pl, 'stk, 'p, 'u) env \<Rightarrow> tid \<Rightarrow> ptr \<Rightarrow> 'p loc \<Rightarrow>
   ('q, 'sl, 'ev, 'pl, 'stk, 'p, 'u) world \<Rightarrow> ('q, 'sl, 'ev, 'pl, 'stk, 'p, 'u) world" where
  "finished_drop E t coro k w =
    (case heap w coro of
       None \<Rightarrow> goto t Crash w
     | Some boxed \<Rightarrow> goto t k (co_drop E t boxed (w\<lparr>heap := (heap w)(coro := None)\<rparr>)))"

definition finished ::
  "('q, 'sl, 'ev, 'pl, 'stk, 'p, 'u) env \<Rightarrow> tid \<Rightarrow> ptr \<Rightarrow> 'p loc \<Rightarrow>
   ('q, 'sl, 'ev, 'pl, 'stk, 'p, 'u) world \<Rightarrow> ('q, 'sl, 'ev, 'pl, 'stk, 'p, 'u) world" where
  "finished E t coro k w = finished_drop E t coro k (finished_count w)"

lemmas finished_defs = finished_def finished_drop_def finished_count_def

definition work_count :: "('q, 'sl, 'ev, 'pl, 'stk, 'p, 'u) world \<Rightarrow> usize" where
  "work_count w = work_counts w"

lemmas scheduler_defs = GLOBAL_QUEUE_SIZE_def scheduler_queue_def ready_def finished_defs
  work_count_def

declare ready_def [sched_defs] finished_defs [sched_defs] work_count_def [sched_defs]

end
