(* ===== verification/Processor_Model.thy ===== *)
theory Processor_Model
  imports Scheduler_Model
begin

text \<open>
  \<open>src/processor.rs\<close> and what \<open>src/scheduler.rs\<close> forwards to it: suspending and resuming
  coroutines, the schedule loop, waiting for I/O. Every operation takes the thread \<open>t\<close> it
  runs on; one that may give control away takes the location \<open>k\<close> at which its caller goes
  on.
\<close>

section \<open>Processor\<close>

definition MAX_TOKEN_NUM :: usize where
  "MAX_TOKEN_NUM = 102400"

definition io_handler_new :: "('q, 'sl, 'ev, 'pl, 'stk, 'p, 'u) env \<Rightarrow> 'sl" where
  "io_handler_new E = slab_new E MAX_TOKEN_NUM"

text \<open>
  \<open>Processor::new\<close>; \<open>None\<close> where \<open>EventLoop::new().unwrap()\<close> panics.
\<close>

definition processor_new ::
  "('q, 'sl, 'ev, 'pl, 'stk, 'p, 'u) env \<Rightarrow> ('sl, 'ev, 'stk, 'p) processor option" where
  "processor_new E =
    (case el_new E of
       Inl _ \<Rightarrow> None
     | Inr ev \<Rightarrow>
         Some \<lparr>event_loop = ev, slabs = io_handler_new E, main_coro = empty,
               cur_running = None, last_result = None, new_spawned = None\<rparr>)"

definition running :: "('sl, 'ev, 'stk, 'p, 'm) processor_scheme \<Rightarrow> ptr option" where
  "running self = cur_running self"

definition set_last_result ::
  "co_result \<Rightarrow> ('sl, 'ev, 'pl, 'stk, 'p) thread \<Rightarrow> ('sl, 'ev, 'pl, 'stk, 'p) thread" where
  "set_last_result r self = self\<lparr>last_result := Some r\<rparr>"

text \<open>
  \<open>(&mut *coro_ref.coro_ptr).yield_to(&*self.main_coro)\<close>: the coroutine saves \<open>k\<close> and
  control goes where the scheduler's own context says.
\<close>

definition yield_to_main ::
  "tid \<Rightarrow> ptr \<Rightarrow> 'p loc \<Rightarrow>
   ('q, 'sl, 'ev, 'pl, 'stk, 'p, 'u) world \<Rightarrow> ('q, 'sl, 'ev, 'pl, 'stk, 'p, 'u) world" where
  "yield_to_main t coro k w =
    (case heap w coro of
       None \<Rightarrow> goto t Crash w
     | Some co \<Rightarrow>
         (let (co', target) = yield_to k co (main_coro (threads w t))
          in enter t target (w\<lparr>heap := (heap w)(coro \<mapsto> co')\<rparr>)))"

definition sched ::
  "tid \<Rightarrow> 'p loc \<Rightarrow>
   ('q, 'sl, 'ev, 'pl, 'stk, 'p, 'u) world \<Rightarrow> ('q, 'sl, 'ev, 'pl, 'stk, 'p, 'u) world" where
  "sched t k w =
    (case cur_running (threads w t) of
       None \<Rightarrow> goto t k w
     | Some coro \<Rightarrow>
         yield_to_main t coro k
           (upd t (\<lambda>th. set_last_result (Inr Suspended) (th\<lparr>cur_running := None\<rparr>)) w))"

definition block ::
  "tid \<Rightarrow> 'p loc \<Rightarrow>
   ('q, 'sl, 'ev, 'pl, 'stk, 'p, 'u) world \<Rightarrow> ('q, 'sl, 'ev, 'pl, 'stk, 'p, 'u) world" where
  "block t k w =
    (case cur_running (threads w t) of
       None \<Rightarrow> goto t k w
     | Some coro \<Rightarrow>
         yield_to_main t coro k
           (upd t (\<lambda>th. set_last_result (Inr Blocked) (th\<lparr>cur_running := None\<rparr>)) w))"

definition yield_with ::
  "co_result \<Rightarrow> tid \<Rightarrow> 'p loc \<Rightarrow>
   ('q, 'sl, 'ev, 'pl, 'stk, 'p, 'u) world \<Rightarrow> ('q, 'sl, 'ev, 'pl, 'stk, 'p, 'u) world" where
  "yield_with r t k w =
    (case cur_running (threads w t) of
       None \<Rightarrow> goto t k w
     | Some coro \<Rightarrow>
         yield_to_main t coro k
           (upd t (\<lambda>th. set_last_result r (th\<lparr>cur_running := None\<rparr>)) w))"

text \<open>\<open>Processor::spawn_opts\<close>: \<open>new_spawned\<close> is overwritten whatever it held.\<close>

definition proc_spawn_opts ::
  "('q, 'sl, 'ev, 'pl, 'stk, 'p, 'u) env \<Rightarrow> tid \<Rightarrow> 'p \<Rightarrow> options \<Rightarrow> 'p loc \<Rightarrow>
   ('q, 'sl, 'ev, 'pl, 'stk, 'p, 'u) world \<Rightarrow> ('q, 'sl, 'ev, 'pl, 'stk, 'p, 'u) world" where
  "proc_spawn_opts E t f os k w =
    (let (coro, w') = co_spawn_opts E t f os w
     in sched t k (upd t (\<lambda>th. th\<lparr>new_spawned := Some coro\<rparr>) w'))"

section \<open>Scheduler operations that use the processor\<close>

definition scheduler_spawn_opts ::
  "('q, 'sl, 'ev, 'pl, 'stk, 'p, 'u) env \<Rightarrow> tid \<Rightarrow> 'p \<Rightarrow> options \<Rightarrow> 'p loc \<Rightarrow>
   ('q, 'sl, 'ev, 'pl, 'stk, 'p, 'u) world \<Rightarrow> ('q, 'sl, 'ev, 'pl, 'stk, 'p, 'u) world" where
  "scheduler_spawn_opts E t f os k w =
    proc_spawn_opts E t f os k (w\<lparr>work_counts := work_counts w + 1\<rparr>)"

definition scheduler_spawn ::
  "usize \<Rightarrow> ('q, 'sl, 'ev, 'pl, 'stk, 'p, 'u) env \<Rightarrow> tid \<Rightarrow> 'p \<Rightarrow> 'p loc \<Rightarrow>
   ('q, 'sl, 'ev, 'pl, 'stk, 'p, 'u) world \<Rightarrow> ('q, 'sl, 'ev, 'pl, 'stk, 'p, 'u) world" where
  "scheduler_spawn min_stack E t f k w =
    scheduler_spawn_opts E t f (options_default min_stack) k w"

definition scheduler_sched ::
  "tid \<Rightarrow> 'p loc \<Rightarrow>
   ('q, 'sl, 'ev, 'pl, 'stk, 'p, 'u) world \<Rightarrow> ('q, 'sl, 'ev, 'pl, 'stk, 'p, 'u) world" where
  "scheduler_sched t k w = sched t k w"

definition scheduler_block ::
  "tid \<Rightarrow> 'p loc \<Rightarrow>
   ('q, 'sl, 'ev, 'pl, 'stk, 'p, 'u) world \<Rightarrow> ('q, 'sl, 'ev, 'pl, 'stk, 'p, 'u) world" where
  "scheduler_block t k w = block t k w"

definition builder_spawn ::
  "('q, 'sl, 'ev, 'pl, 'stk, 'p, 'u) env \<Rightarrow> builder \<Rightarrow> tid \<Rightarrow> 'p \<Rightarrow> 'p loc \<Rightarrow>
   ('q, 'sl, 'ev, 'pl, 'stk, 'p, 'u) world \<Rightarrow> ('q, 'sl, 'ev, 'pl, 'stk, 'p, 'u) world" where
  "builder_spawn E self t f k w = scheduler_spawn_opts E t f (opts self) k w"

text \<open>The free functions of \<open>src/lib.rs\<close>: \<open>spawn\<close>, \<open>spawn_opts\<close> and \<open>sched\<close>.\<close>

definition lib_spawn ::
  "usize \<Rightarrow> ('q, 'sl, 'ev, 'pl, 'stk, 'p, 'u) env \<Rightarrow> tid \<Rightarrow> 'p \<Rightarrow> 'p loc \<Rightarrow>
   ('q, 'sl, 'ev, 'pl, 'stk, 'p, 'u) world \<Rightarrow> ('q, 'sl, 'ev, 'pl, 'stk, 'p, 'u) world" where
  "lib_spawn min_stack E t f k w = scheduler_spawn min_stack E t f k w"

definition lib_spawn_opts ::
  "('q, 'sl, 'ev, 'pl, 'stk, 'p, 'u) env \<Rightarrow> tid \<Rightarrow> 'p \<Rightarrow> options \<Rightarrow> 'p loc \<Rightarrow>
   ('q, 'sl, 'ev, 'pl, 'stk, 'p, 'u) world \<Rightarrow> ('q, 'sl, 'ev, 'pl, 'stk, 'p, 'u) world" where
  "lib_spawn_opts E t f os k w = scheduler_spawn_opts E t f os k w"

definition lib_sched ::
  "tid \<Rightarrow> 'p loc \<Rightarrow>
   ('q, 'sl, 'ev, 'pl, 'stk, 'p, 'u) world \<Rightarrow> ('q, 'sl, 'ev, 'pl, 'stk, 'p, 'u) world" where
  "lib_sched t k w = scheduler_sched t k w"

text \<open>
  \<open>coroutine_initialize\<close> once the closure has returned or panicked, and the closing loop.
\<close>

definition coroutine_initialize ::
  "payload + unit \<Rightarrow> tid \<Rightarrow>
   ('q, 'sl, 'ev, 'pl, 'stk, 'p, 'u) world \<Rightarrow> ('q, 'sl, 'ev, 'pl, 'stk, 'p, 'u) world" where
  "coroutine_initialize ret t w =
    (let (r, st) = initialize_outcome ret in yield_with r t (Epilogue st) w)"

definition coroutine_epilogue ::
  "co_state \<Rightarrow> tid \<Rightarrow>
   ('q, 'sl, 'ev, 'pl, 'stk, 'p, 'u) world \<Rightarrow> ('q, 'sl, 'ev, 'pl, 'stk, 'p, 'u) world" where
  "coroutine_epilogue st t w = yield_with (Inr st) t (Epilogue st) w"

section \<open>Running a task\<close>

text \<open>\<open>resume\<close> up to the swap into the coroutine, and from the return of that swap.\<close>

definition resume ::
  "tid \<Rightarrow> ptr \<Rightarrow>
   ('q, 'sl, 'ev, 'pl, 'stk, 'p, 'u) world \<Rightarrow> ('q, 'sl, 'ev, 'pl, 'stk, 'p, 'u) world" where
  "resume t coro_ref w =
    (case heap w coro_ref of
       None \<Rightarrow> goto t Crash w
     | Some co \<Rightarrow>
         (let (main', target) = yield_to (After_Resume coro_ref) (main_coro (threads w t)) co
          in enter t target
               (upd t (\<lambda>th. th\<lparr>cur_running := Some coro_ref, main_coro := main'\<rparr>) w)))"

definition resume_result :: "('sl, 'ev, 'stk, 'p, 'm) processor_scheme \<Rightarrow> co_result" where
  "resume_result self = (case last_result self of None \<Rightarrow> Inr Suspended | Some r \<Rightarrow> r)"

definition run_task_end ::
  "('q, 'sl, 'ev, 'pl, 'stk, 'p, 'u) env \<Rightarrow> tid \<Rightarrow> ptr \<Rightarrow>
   ('q, 'sl, 'ev, 'pl, 'stk, 'p, 'u) world \<Rightarrow> ('q, 'sl, 'ev, 'pl, 'stk, 'p, 'u) world" where
  "run_task_end E t hdl w =
    (let r = resume_result (threads w t);
         w' = upd t (\<lambda>th. th\<lparr>last_result := None\<rparr>) w
     in case r of
          Inr Suspended \<Rightarrow> ready E t hdl Spawn_Check w'
        | Inr Finished \<Rightarrow> finished E t hdl Spawn_Check w'
        | Inr Panicked \<Rightarrow> finished E t hdl Spawn_Check w'
        | Inr Blocked \<Rightarrow> goto t Spawn_Check w'
        | Inl err \<Rightarrow> finished E t hdl Spawn_Check w')"

section \<open>Waiting for I/O\<close>

text \<open>
  \<open>wait_event\<close> (Linux). A panic of either \<open>unwrap\<close> unwinds the user code that waits. When
  the registration fails, the error goes back to the caller; the slab entry stays.
\<close>

definition wait_event ::
  "('q, 'sl, 'ev, 'pl, 'stk, 'p, 'u) env \<Rightarrow> tid \<Rightarrow> fd \<Rightarrow> interest \<Rightarrow>
   (unit io_result \<Rightarrow> 'p) \<Rightarrow>
   ('q, 'sl, 'ev, 'pl, 'stk, 'p, 'u) world \<Rightarrow> ('q, 'sl, 'ev, 'pl, 'stk, 'p, 'u) world" where
  "wait_event E t fd i k w =
    (case running (threads w t) of
       None \<Rightarrow> coroutine_initialize (Inl ''unwrap on None'') t w
     | Some coro \<Rightarrow>
         (case slab_insert E (coro, fd) (slabs (threads w t)) of
            (Inl _, sl) \<Rightarrow>
              coroutine_initialize (Inl ''unwrap on Err'') t (upd t (\<lambda>th. th\<lparr>slabs := sl\<rparr>) w)
          | (Inr tok, sl) \<Rightarrow>
              (case el_register E fd tok i (event_loop (threads w t)) of
                 (Inl e, ev) \<Rightarrow>
                   goto t (Body (k (Inl e))) (upd t (\<lambda>th. th\<lparr>slabs := sl, event_loop := ev\<rparr>) w)
               | (Inr _, ev) \<Rightarrow>
                   scheduler_block t (Body (k (Inr ())))
                     (upd t (\<lambda>th. th\<lparr>slabs := sl, event_loop := ev\<rparr>) w))))"

text \<open>\<open>IoHandler::ready\<close> (Linux), called by \<open>run_once\<close>, which has the events \<open>evs\<close> left.\<close>

definition handler_ready ::
  "('q, 'sl, 'ev, 'pl, 'stk, 'p, 'u) env \<Rightarrow> tid \<Rightarrow> token \<Rightarrow> (token \<times> event_set) list \<Rightarrow>
   ('q, 'sl, 'ev, 'pl, 'stk, 'p, 'u) world \<Rightarrow> ('q, 'sl, 'ev, 'pl, 'stk, 'p, 'u) world" where
  "handler_ready E t tok evs w =
    (case slab_remove E tok (slabs (threads w t)) of
       (None, sl) \<Rightarrow> goto t (Dispatch evs) (upd t (\<lambda>th. th\<lparr>slabs := sl\<rparr>) w)
     | (Some (hdl, fd), sl) \<Rightarrow>
         (case el_deregister E fd (event_loop (threads w t)) of
            (Inl _, ev) \<Rightarrow> goto t Aborted (upd t (\<lambda>th. th\<lparr>slabs := sl, event_loop := ev\<rparr>) w)
          | (Inr _, ev) \<Rightarrow>
              ready E t hdl (Dispatch evs)
                (upd t (\<lambda>th. th\<lparr>slabs := sl, event_loop := ev\<rparr>) w)))"

section \<open>The schedule loop\<close>

definition schedule_pop ::
  "('q, 'sl, 'ev, 'pl, 'stk, 'p, 'u) env \<Rightarrow> tid \<Rightarrow>
   ('q, 'sl, 'ev, 'pl, 'stk, 'p, 'u) world \<Rightarrow> ('q, 'sl, 'ev, 'pl, 'stk, 'p, 'u) world" where
  "schedule_pop E t w =
    (case bq_pop E (global_queue w) of
       (Some hdl, q) \<Rightarrow> resume t hdl (w\<lparr>global_queue := q\<rparr>)
     | (None, q) \<Rightarrow> goto t Idle (w\<lparr>global_queue := q\<rparr>))"

definition schedule_idle ::
  "('q, 'sl, 'ev, 'pl, 'stk, 'p, 'u) env \<Rightarrow> tid \<Rightarrow>
   ('q, 'sl, 'ev, 'pl, 'stk, 'p, 'u) world \<Rightarrow> ('q, 'sl, 'ev, 'pl, 'stk, 'p, 'u) world" where
  "schedule_idle E t w =
    (if slab_count E (slabs (threads w t)) \<noteq> 0
     then (case el_poll E (event_loop (threads w t)) of
             (Inl e, ev) \<Rightarrow> goto t (Stopped (Inl e)) (upd t (\<lambda>th. th\<lparr>event_loop := ev\<rparr>) w)
           | (Inr evs, ev) \<Rightarrow> goto t (Dispatch evs) (upd t (\<lambda>th. th\<lparr>event_loop := ev\<rparr>) w))
     else if work_count w = 0 then goto t (Stopped (Inr ())) w
     else goto t Spawn_Check w)"

definition schedule_spawned ::
  "tid \<Rightarrow>
   ('q, 'sl, 'ev, 'pl, 'stk, 'p, 'u) world \<Rightarrow> ('q, 'sl, 'ev, 'pl, 'stk, 'p, 'u) world" where
  "schedule_spawned t w =
    (case new_spawned (threads w t) of
       Some hdl \<Rightarrow> resume t hdl (upd t (\<lambda>th. th\<lparr>new_spawned := None\<rparr>) w)
     | None \<Rightarrow> goto t Loop_Top w)"

section \<open>Steps of user code and of a thread\<close>

definition body_step ::
  "('q, 'sl, 'ev, 'pl, 'stk, 'p, 'u) env \<Rightarrow> tid \<Rightarrow> 'p \<Rightarrow>
   ('q, 'sl, 'ev, 'pl, 'stk, 'p, 'u) world \<Rightarrow> ('q, 'sl, 'ev, 'pl, 'stk, 'p, 'u) world" where
  "body_step E t p w =
    (let (c, u) = run E p (user w); w' = w\<lparr>user := u\<rparr>
     in case c of
          Call_Tau p' \<Rightarrow> goto t (Body p') w'
        | Call_Return \<Rightarrow> coroutine_initialize (Inr ()) t w'
        | Call_Panic e \<Rightarrow> coroutine_initialize (Inl e) t w'
        | Call_Spawn f os p' \<Rightarrow> scheduler_spawn_opts E t f os (Body p') w'
        | Call_Sched p' \<Rightarrow> scheduler_sched t (Body p') w'
        | Call_Block p' \<Rightarrow> scheduler_block t (Body p') w'
        | Call_Wait fd i k \<Rightarrow> wait_event E t fd i k w')"

fun thread_step ::
  "('q, 'sl, 'ev, 'pl, 'stk, 'p, 'u) env \<Rightarrow> tid \<Rightarrow> 'p loc \<Rightarrow>
   ('q, 'sl, 'ev, 'pl, 'stk, 'p, 'u) world \<Rightarrow> ('q, 'sl, 'ev, 'pl, 'stk, 'p, 'u) world" where
  "thread_step E t (Body p) w = body_step E t p w"
| "thread_step E t (Epilogue st) w = coroutine_epilogue st t w"
| "thread_step E t (After_Resume h) w = run_task_end E t h w"
| "thread_step E t (Ready_Push h k) w = ready E t h k w"
| "thread_step E t Loop_Top w = schedule_pop E t w"
| "thread_step E t Idle w = schedule_idle E t w"
| "thread_step E t (Dispatch []) w = goto t Spawn_Check w"
| "thread_step E t (Dispatch ((tok, _) # evs)) w = handler_ready E t tok evs w"
| "thread_step E t Spawn_Check w = schedule_spawned t w"
| "thread_step E t (Stopped r) w = w"
| "thread_step E t Aborted w = w"
| "thread_step E t Crash w = w"

definition step ::
  "('q, 'sl, 'ev, 'pl, 'stk, 'p, 'u) env \<Rightarrow> tid \<Rightarrow>
   ('q, 'sl, 'ev, 'pl, 'stk, 'p, 'u) world \<Rightarrow> ('q, 'sl, 'ev, 'pl, 'stk, 'p, 'u) world" where
  "step E t w = thread_step E t (loc (threads w t)) w"

text \<open>
  The threads of \<open>Scheduler::run(n)\<close> interleave: any of them makes the next step. The main
  thread schedules too, so there are \<open>max 1 n\<close> of them.
\<close>

inductive sys_step ::
  "('q, 'sl, 'ev, 'pl, 'stk, 'p, 'u) env \<Rightarrow> nat \<Rightarrow>
   ('q, 'sl, 'ev, 'pl, 'stk, 'p, 'u) world \<Rightarrow> ('q, 'sl, 'ev, 'pl, 'stk, 'p, 'u) world \<Rightarrow> bool"
  for E n where
  "t < n \<Longrightarrow> sys_step E n w (step E t w)"

section \<open>Scheduler::run\<close>

text \<open>The process before \<open>main\<close> has spawned anything; every thread is about to schedule.\<close>

definition world_init ::
  "('q, 'sl, 'ev, 'pl, 'stk, 'p, 'u) env \<Rightarrow> 'u \<Rightarrow>
   ('q, 'sl, 'ev, 'pl, 'stk, 'p, 'u) world option" where
  "world_init E u =
    (case processor_new E of
       None \<Rightarrow> None
     | Some p \<Rightarrow>
         Some \<lparr>global_queue = scheduler_queue E, work_counts = 0, heap = Map.empty, next_ptr = 0,
               threads = (\<lambda>_. processor.extend p \<lparr>stack_pool = sp_new E, loc = Loop_Top\<rparr>),
               user = u\<rparr>)"

text \<open>The calls of \<open>Scheduler::spawn_opts\<close> that \<open>main\<close> makes before \<open>Scheduler::run\<close>.\<close>

fun spawn_all ::
  "('q, 'sl, 'ev, 'pl, 'stk, 'p, 'u) env \<Rightarrow> ('p \<times> options) list \<Rightarrow>
   ('q, 'sl, 'ev, 'pl, 'stk, 'p, 'u) world \<Rightarrow> ('q, 'sl, 'ev, 'pl, 'stk, 'p, 'u) world" where
  "spawn_all E [] w = w"
| "spawn_all E ((f, os) # fs) w = spawn_all E fs (scheduler_spawn_opts E 0 f os Loop_Top w)"

text \<open>
  \<open>Scheduler::run(n)\<close> schedules on \<open>run_threads n\<close> threads and returns when each has
  stopped; it panics in \<open>join().unwrap()\<close> where another thread was unwound.
\<close>

definition run_threads :: "nat \<Rightarrow> nat" where
  "run_threads n = 1 + length [1..<n]"

definition started ::
  "('q, 'sl, 'ev, 'pl, 'stk, 'p, 'u) env \<Rightarrow>
   ('q, 'sl, 'ev, 'pl, 'stk, 'p, 'u) world \<Rightarrow> bool" where
  "started E w \<longleftrightarrow> (\<exists>fs u w0. world_init E u = Some w0 \<and> w = spawn_all E fs w0)"

definition run_returned ::
  "nat \<Rightarrow> ('q, 'sl, 'ev, 'pl, 'stk, 'p, 'u) world \<Rightarrow> bool" where
  "run_returned n w \<longleftrightarrow>
    list_all (\<lambda>t. case loc (threads w t) of Stopped _ \<Rightarrow> True | _ \<Rightarrow> False) [0..<run_threads n]"

abbreviation reachable ::
  "('q, 'sl, 'ev, 'pl, 'stk, 'p, 'u) env \<Rightarrow> nat \<Rightarrow>
   ('q, 'sl, 'ev, 'pl, 'stk, 'p, 'u) world \<Rightarrow> bool" where
  "reachable E n \<equiv> reach (started E) (sys_step E (run_threads n))"

text \<open>What the operations change of the thread they run on.\<close>

lemmas processor_defs = running_def set_last_result_def yield_to_main_def sched_def block_def
  yield_with_def proc_spawn_opts_def scheduler_spawn_opts_def scheduler_sched_def
  scheduler_block_def coroutine_initialize_def coroutine_epilogue_def resume_def
  resume_result_def run_task_end_def wait_event_def handler_ready_def schedule_pop_def
  schedule_idle_def schedule_spawned_def body_step_def

declare processor_defs [sched_defs]

section \<open>The contract of the yielding operations\<close>

text \<open>
  \<open>sched\<close>, \<open>block\<close> and \<open>yield_with\<close> are one operation with different results. Outside a
  coroutine it returns at once; inside, it leaves the coroutine suspended at \<open>k\<close>, nothing
  running, the result in \<open>last_result\<close>, and control where the scheduler's context says.
\<close>

definition yielded ::
  "co_result \<Rightarrow> tid \<Rightarrow> ptr \<Rightarrow> 'p loc \<Rightarrow> 'p loc \<Rightarrow>
   ('q, 'sl, 'ev, 'pl, 'stk, 'p, 'u) world \<Rightarrow> ('q, 'sl, 'ev, 'pl, 'stk, 'p, 'u) world" where
  "yielded r t c k l w =
    (upd t (\<lambda>th. th\<lparr>cur_running := None, last_result := Some r, loc := l\<rparr>) w)
      \<lparr>heap := (heap w)(c \<mapsto> (the (heap w c))\<lparr>ctx := Some k\<rparr>)\<rparr>"

locale yielding =
  fixes op :: "tid \<Rightarrow> 'p loc \<Rightarrow>
      ('q, 'sl, 'ev, 'pl, 'stk, 'p, 'u) world \<Rightarrow> ('q, 'sl, 'ev, 'pl, 'stk, 'p, 'u) world"
    and r :: co_result
  assumes outside: "cur_running (threads w t) = None \<Longrightarrow> op t k w = goto t k w"
    and inside: "cur_running (threads w t) = Some c \<Longrightarrow> heap w c = Some co \<Longrightarrow>
      ctx (main_coro (threads w t)) = Some l \<Longrightarrow> op t k w = yielded r t c k l w"
begin

text \<open>What was yielded is what \<open>resume\<close> returns next.\<close>

lemma resume_result_op:
  "cur_running (threads w t) = Some c \<Longrightarrow> heap w c = Some co \<Longrightarrow>
   ctx (main_coro (threads w t)) = Some l \<Longrightarrow> resume_result (threads (op t k w) t) = r"
  by (simp add: inside yielded_def resume_result_def upd_def)

end

lemma yielded_intro:
  assumes "cur_running (threads w t) = Some c" "heap w c = Some co"
    and "ctx (main_coro (threads w t)) = Some l"
  shows "yield_to_main t c k
      (upd t (\<lambda>th. set_last_result r (th\<lparr>cur_running := None\<rparr>)) w) = yielded r t c k l w"
  using assms
  by (simp add: yield_to_main_def yield_to_def yielded_def enter_def goto_def upd_def
      set_last_result_def)

interpretation sched: yielding sched "Inr Suspended"
  by unfold_locales (simp_all add: sched_def yielded_intro)

interpretation block: yielding block "Inr Blocked"
  by unfold_locales (simp_all add: block_def yielded_intro)

interpretation yield_with: yielding "yield_with r" r for r
  by unfold_locales (simp_all add: yield_with_def yielded_intro)

end
