(* ===== verification/Runtime_Invariant.thy ===== *)
theory Runtime_Invariant
  imports Processor_Model
begin

text \<open>
  Who owns a coroutine. The laws of the packages, the multiset of the coroutine pointers
  the runtime will still follow, and the invariant that no pointer is held twice, that all
  of them are allocated, and that the work counter counts the allocated coroutines.
\<close>

section \<open>Laws of the packages\<close>

text \<open>
  \<open>BoundedQueue\<close> is first-in first-out; it may refuse a push, giving the value back, and may
  find nothing to pop.
\<close>

definition queue_laws :: "('q, 'sl, 'ev, 'pl, 'stk, 'p, 'u) env \<Rightarrow> bool" where
  "queue_laws E \<longleftrightarrow>
    (\<forall>n. bq_view E (bq_new E n) = []) \<and>
    (\<forall>x q u q'. bq_push E x q = (Inr u, q') \<longrightarrow> bq_view E q' = bq_view E q @ [x]) \<and>
    (\<forall>x q y q'. bq_push E x q = (Inl y, q') \<longrightarrow> y = x \<and> bq_view E q' = bq_view E q) \<and>
    (\<forall>q x q'. bq_pop E q = (Some x, q') \<longrightarrow> bq_view E q = x # bq_view E q') \<and>
    (\<forall>q q'. bq_pop E q = (None, q') \<longrightarrow> bq_view E q' = bq_view E q)"

text \<open>\<open>Slab\<close> is a finite map that picks a free token for what is inserted, if it has one.\<close>

definition slab_laws :: "('q, 'sl, 'ev, 'pl, 'stk, 'p, 'u) env \<Rightarrow> bool" where
  "slab_laws E \<longleftrightarrow>
    (\<forall>n. slab_view E (slab_new E n) = Map.empty) \<and>
    (\<forall>sl. finite (dom (slab_view E sl)) \<and> slab_count E sl = card (dom (slab_view E sl))) \<and>
    (\<forall>x sl tok sl'. slab_insert E x sl = (Inr tok, sl') \<longrightarrow>
       slab_view E sl tok = None \<and> slab_view E sl' = (slab_view E sl)(tok \<mapsto> x)) \<and>
    (\<forall>x sl y sl'. slab_insert E x sl = (Inl y, sl') \<longrightarrow>
       y = x \<and> slab_view E sl' = slab_view E sl) \<and>
    (\<forall>tok sl r sl'. slab_remove E tok sl = (r, sl') \<longrightarrow>
       r = slab_view E sl tok \<and> slab_view E sl' = (slab_view E sl)(tok := None))"

text \<open>
  An event loop delivers a one-shot registration at most once, and never a token that is not
  registered. \<open>el_armed\<close> are the tokens registered and not yet delivered.
\<close>

definition loop_laws :: "('q, 'sl, 'ev, 'pl, 'stk, 'p, 'u) env \<Rightarrow> bool" where
  "loop_laws E \<longleftrightarrow>
    (\<forall>ev. el_new E = Inr ev \<longrightarrow> el_armed E ev = {}) \<and>
    (\<forall>fd tok i ev u ev'. el_register E fd tok i ev = (Inr u, ev') \<longrightarrow>
       el_armed E ev' = insert tok (el_armed E ev)) \<and>
    (\<forall>fd tok i ev e ev'. el_register E fd tok i ev = (Inl e, ev') \<longrightarrow>
       el_armed E ev' = el_armed E ev) \<and>
    (\<forall>fd ev r ev'. el_deregister E fd ev = (r, ev') \<longrightarrow> el_armed E ev' \<subseteq> el_armed E ev) \<and>
    (\<forall>ev evs ev'. el_poll E ev = (Inr evs, ev') \<longrightarrow>
       distinct (map fst evs) \<and> set (map fst evs) \<subseteq> el_armed E ev \<and>
       el_armed E ev' = el_armed E ev - set (map fst evs)) \<and>
    (\<forall>ev e ev'. el_poll E ev = (Inl e, ev') \<longrightarrow> el_armed E ev' \<subseteq> el_armed E ev)"

definition env_laws :: "('q, 'sl, 'ev, 'pl, 'stk, 'p, 'u) env \<Rightarrow> bool" where
  "env_laws E \<longleftrightarrow> queue_laws E \<and> slab_laws E \<and> loop_laws E"

named_theorems laws \<open>the laws of the packages, as rewrite rules and destruction rules\<close>

lemma bq_new_view [laws]: "env_laws E \<Longrightarrow> bq_view E (bq_new E n) = []"
  by (simp add: env_laws_def queue_laws_def)

lemma bq_push_Inr: "env_laws E \<Longrightarrow> bq_push E x q = (Inr u, q') \<Longrightarrow> bq_view E q' = bq_view E q @ [x]"
  unfolding env_laws_def queue_laws_def by blast

lemma bq_push_Inl:
  "env_laws E \<Longrightarrow> bq_push E x q = (Inl y, q') \<Longrightarrow> y = x \<and> bq_view E q' = bq_view E q"
  unfolding env_laws_def queue_laws_def by blast

lemma bq_pop_Some:
  "env_laws E \<Longrightarrow> bq_pop E q = (Some x, q') \<Longrightarrow> bq_view E q = x # bq_view E q'"
  unfolding env_laws_def queue_laws_def by blast

lemma bq_pop_None: "env_laws E \<Longrightarrow> bq_pop E q = (None, q') \<Longrightarrow> bq_view E q' = bq_view E q"
  unfolding env_laws_def queue_laws_def by blast

lemma slab_new_view [laws]: "env_laws E \<Longrightarrow> slab_view E (slab_new E n) = Map.empty"
  by (simp add: env_laws_def slab_laws_def)

lemma slab_finite [laws]: "env_laws E \<Longrightarrow> finite (dom (slab_view E sl))"
  by (simp add: env_laws_def slab_laws_def)

lemma slab_count_card [laws]: "env_laws E \<Longrightarrow> slab_count E sl = card (dom (slab_view E sl))"
  by (simp add: env_laws_def slab_laws_def)

lemma slab_insert_Inr:
  "env_laws E \<Longrightarrow> slab_insert E x sl = (Inr tok, sl') \<Longrightarrow>
   slab_view E sl tok = None \<and> slab_view E sl' = (slab_view E sl)(tok \<mapsto> x)"
  unfolding env_laws_def slab_laws_def by blast

lemma slab_insert_Inl:
  "env_laws E \<Longrightarrow> slab_insert E x sl = (Inl y, sl') \<Longrightarrow> slab_view E sl' = slab_view E sl"
  unfolding env_laws_def slab_laws_def by blast

lemma slab_remove_view:
  "env_laws E \<Longrightarrow> slab_remove E tok sl = (r, sl') \<Longrightarrow>
   r = slab_view E sl tok \<and> slab_view E sl' = (slab_view E sl)(tok := None)"
  unfolding env_laws_def slab_laws_def by blast

lemma el_new_armed: "env_laws E \<Longrightarrow> el_new E = Inr ev \<Longrightarrow> el_armed E ev = {}"
  unfolding env_laws_def loop_laws_def by meson

lemma el_register_Inr:
  "env_laws E \<Longrightarrow> el_register E fd tok i ev = (Inr u, ev') \<Longrightarrow>
   el_armed E ev' = insert tok (el_armed E ev)"
  unfolding env_laws_def loop_laws_def by meson

lemma el_register_Inl:
  "env_laws E \<Longrightarrow> el_register E fd tok i ev = (Inl e, ev') \<Longrightarrow> el_armed E ev' = el_armed E ev"
  unfolding env_laws_def loop_laws_def by meson

lemma el_deregister_armed:
  "env_laws E \<Longrightarrow> el_deregister E fd ev = (r, ev') \<Longrightarrow> el_armed E ev' \<subseteq> el_armed E ev"
  unfolding env_laws_def loop_laws_def by meson

lemma el_poll_Inr:
  "env_laws E \<Longrightarrow> el_poll E ev = (Inr evs, ev') \<Longrightarrow>
   distinct (map fst evs) \<and> set (map fst evs) \<subseteq> el_armed E ev \<and>
   el_armed E ev' = el_armed E ev - set (map fst evs)"
  unfolding env_laws_def loop_laws_def by meson

lemma el_poll_Inl:
  "env_laws E \<Longrightarrow> el_poll E ev = (Inl e, ev') \<Longrightarrow> el_armed E ev' \<subseteq> el_armed E ev"
  unfolding env_laws_def loop_laws_def by meson

section \<open>The pointers the runtime will still follow\<close>

definition opt_mset :: "'a option \<Rightarrow> 'a multiset" where
  "opt_mset x = (case x of None \<Rightarrow> {#} | Some y \<Rightarrow> {#y#})"

lemma opt_mset_simps [simp]: "opt_mset None = {#}" "opt_mset (Some y) = {#y#}"
  by (simp_all add: opt_mset_def)

text \<open>The events a thread has still to dispatch.\<close>

fun loc_tokens :: "'p loc \<Rightarrow> token list" where
  "loc_tokens (Dispatch evs) = map fst evs"
| "loc_tokens (Ready_Push h k) = loc_tokens k"
| "loc_tokens _ = []"

text \<open>A pointer in a local variable of the scheduler's code; a blocked one is given up.\<close>

fun loc_refs :: "co_result option \<Rightarrow> 'p loc \<Rightarrow> ptr multiset" where
  "loc_refs r (After_Resume h) = (if r = Some (Inr Blocked) then {#} else {#h#})"
| "loc_refs r (Ready_Push h k) = {#h#}"
| "loc_refs r _ = {#}"

text \<open>Slab entries count while an event for their token can still arrive.\<close>

definition live_tokens ::
  "('q, 'sl, 'ev, 'pl, 'stk, 'p, 'u) env \<Rightarrow> 'ev \<Rightarrow> 'p loc \<Rightarrow> token set" where
  "live_tokens E ev l = el_armed E ev \<union> set (loc_tokens l)"

definition slab_refs :: "(token \<rightharpoonup> ptr \<times> fd) \<Rightarrow> token set \<Rightarrow> ptr multiset" where
  "slab_refs v live = image_mset (\<lambda>tok. fst (the (v tok))) (mset_set (dom v \<inter> live))"

definition thread_refs ::
  "('q, 'sl, 'ev, 'pl, 'stk, 'p, 'u) env \<Rightarrow> ('sl, 'ev, 'pl, 'stk, 'p) thread \<Rightarrow> ptr multiset" where
  "thread_refs E th =
    opt_mset (cur_running th) + opt_mset (new_spawned th) + loc_refs (last_result th) (loc th) +
    slab_refs (slab_view E (slabs th)) (live_tokens E (event_loop th) (loc th))"

definition refs ::
  "('q, 'sl, 'ev, 'pl, 'stk, 'p, 'u) env \<Rightarrow> nat \<Rightarrow>
   ('q, 'sl, 'ev, 'pl, 'stk, 'p, 'u) world \<Rightarrow> ptr multiset" where
  "refs E n w = mset (bq_view E (global_queue w)) + (\<Sum>t<n. thread_refs E (threads w t))"

section \<open>The invariant\<close>

text \<open>What a thread's fields are at each location.\<close>

definition in_scheduler :: "'p loc \<Rightarrow> bool" where
  "in_scheduler l \<longleftrightarrow>
    (case l of
       Loop_Top \<Rightarrow> True | Idle \<Rightarrow> True | Dispatch _ \<Rightarrow> True | Spawn_Check \<Rightarrow> True
     | Stopped _ \<Rightarrow> True | Aborted \<Rightarrow> True | _ \<Rightarrow> False)"

text \<open>Where \<open>Scheduler::ready\<close> returns to: \<open>run_task\<close> or the handler \<open>ready\<close> called it.\<close>

definition ready_return :: "'p loc \<Rightarrow> bool" where
  "ready_return k \<longleftrightarrow> (case k of Spawn_Check \<Rightarrow> True | Dispatch _ \<Rightarrow> True | _ \<Rightarrow> False)"

definition thread_ok ::
  "('q, 'sl, 'ev, 'pl, 'stk, 'p, 'u) env \<Rightarrow> ('sl, 'ev, 'pl, 'stk, 'p) thread \<Rightarrow> bool" where
  "thread_ok E th \<longleftrightarrow>
    (case loc th of
       Body _ \<Rightarrow> (\<exists>c. cur_running th = Some c \<and> ctx (main_coro th) = Some (After_Resume c)) \<and>
         last_result th = None
     | Epilogue _ \<Rightarrow> False
     | After_Resume _ \<Rightarrow> cur_running th = None \<and> last_result th \<noteq> None
     | Ready_Push _ k \<Rightarrow> ready_return k \<and> cur_running th = None \<and> last_result th = None
     | Crash \<Rightarrow> False
     | _ \<Rightarrow> cur_running th = None \<and> last_result th = None) \<and>
    distinct (loc_tokens (loc th)) \<and>
    live_tokens E (event_loop th) (loc th) \<subseteq> dom (slab_view E (slabs th)) \<and>
    el_armed E (event_loop th) \<inter> set (loc_tokens (loc th)) = {}"

text \<open>A coroutine can be resumed in user code, unless its thread is about to free it.\<close>

definition dying :: "nat \<Rightarrow> ('q, 'sl, 'ev, 'pl, 'stk, 'p, 'u) world \<Rightarrow> ptr \<Rightarrow> bool" where
  "dying n w c \<longleftrightarrow> (\<exists>t<n. loc (threads w t) = After_Resume c \<and>
     last_result (threads w t) \<noteq> Some (Inr Suspended) \<and>
     last_result (threads w t) \<noteq> Some (Inr Blocked))"

definition resumable :: "('p, 'stk) coroutine \<Rightarrow> bool" where
  "resumable co \<longleftrightarrow> (case ctx co of Some (Body _) \<Rightarrow> True | _ \<Rightarrow> False)"

definition heap_ok :: "('q, 'sl, 'ev, 'pl, 'stk, 'p, 'u) world \<Rightarrow> bool" where
  "heap_ok w \<longleftrightarrow> dom (heap w) \<subseteq> {..<next_ptr w} \<and> work_counts w = of_nat (card (dom (heap w)))"

text \<open>
  The invariant, with the pointers \<open>X\<close> that the running operation has in hand: they are
  in no field of the state.
\<close>

definition inv ::
  "('q, 'sl, 'ev, 'pl, 'stk, 'p, 'u) env \<Rightarrow> nat \<Rightarrow> ptr multiset \<Rightarrow>
   ('q, 'sl, 'ev, 'pl, 'stk, 'p, 'u) world \<Rightarrow> bool" where
  "inv E n X w \<longleftrightarrow>
    (\<forall>c. count (X + refs E n w) c \<le> 1) \<and>
    (\<forall>c \<in># X + refs E n w. c \<in> dom (heap w)) \<and>
    (\<forall>c co. heap w c = Some co \<longrightarrow> resumable co \<or> dying n w c \<or> c \<in># X) \<and>
    (\<forall>t<n. thread_ok E (threads w t)) \<and> heap_ok w"

end
