(* ===== verification/Ownership.thy ===== *)
theory Ownership
  imports Runtime_Invariant
begin

text \<open>
  Every operation of the runtime keeps the invariant of \<open>Runtime_Invariant\<close>: first the four
  that move a coroutine (push, free, resume, yield), then the steps built from them.
\<close>

section \<open>Focusing on one thread\<close>

definition others ::
  "('q, 'sl, 'ev, 'pl, 'stk, 'p, 'u) env \<Rightarrow> nat \<Rightarrow> tid \<Rightarrow>
   ('q, 'sl, 'ev, 'pl, 'stk, 'p, 'u) world \<Rightarrow> ptr multiset" where
  "others E n t w = (\<Sum>i\<in>{..<n} - {t}. thread_refs E (threads w i))"

lemma refs_split:
  "t < n \<Longrightarrow> refs E n w =
     mset (bq_view E (global_queue w)) + thread_refs E (threads w t) + others E n t w"
  by (simp add: refs_def others_def sum.remove [of _ t])

lemma others_cong:
  "(\<And>i. i \<noteq> t \<Longrightarrow> threads w' i = threads w i) \<Longrightarrow> others E n t w' = others E n t w"
  by (simp add: others_def)

lemma count_le_1_mono: "(\<forall>c. count A c \<le> (1::nat)) \<Longrightarrow> B \<subseteq># A \<Longrightarrow> count B c \<le> 1"
  by (meson mset_subset_eq_count le_trans)

definition dying_th :: "('sl, 'ev, 'pl, 'stk, 'p) thread \<Rightarrow> ptr \<Rightarrow> bool" where
  "dying_th th c \<longleftrightarrow> loc th = After_Resume c \<and>
     last_result th \<noteq> Some (Inr Suspended) \<and> last_result th \<noteq> Some (Inr Blocked)"

lemma dying_alt: "dying n w c \<longleftrightarrow> (\<exists>t<n. dying_th (threads w t) c)"
  by (simp add: dying_def dying_th_def)

text \<open>A step of thread \<open>t\<close> that allocates and frees nothing keeps the invariant.\<close>

lemma inv_update:
  assumes inv: "inv E n X w" and t: "t < n"
    and frame: "\<And>i. i \<noteq> t \<Longrightarrow> threads w' i = threads w i"
      "dom (heap w') = dom (heap w)" "next_ptr w' = next_ptr w" "work_counts w' = work_counts w"
    and moved: "X' + mset (bq_view E (global_queue w')) + thread_refs E (threads w' t) \<subseteq>#
      X + mset (bq_view E (global_queue w)) + thread_refs E (threads w t)"
    and res: "\<And>c co. heap w' c = Some co \<Longrightarrow>
      resumable co \<or> dying_th (threads w' t) c \<or> c \<in># X' \<or>
      (heap w c = Some co \<and> \<not> dying_th (threads w t) c \<and> c \<notin># X)"
    and ok: "thread_ok E (threads w' t)"
  shows "inv E n X' w'"
proof -
  have sub: "X' + refs E n w' \<subseteq># X + refs E n w"
    using moved by (simp add: refs_split [OF t] others_cong [OF frame(1)] add.assoc [symmetric])
  have "resumable co \<or> dying n w' c \<or> c \<in># X'" if "heap w' c = Some co" for c co
  proof -
    have "dying n w' c" if "dying n w c" "\<not> dying_th (threads w t) c"
      using that frame(1) unfolding dying_alt by metis
    then show ?thesis
      using res [OF that] inv t unfolding inv_def dying_alt by metis
  qed
  moreover have "thread_ok E (threads w' i)" if "i < n" for i
    using that ok frame(1) [of i] inv by (cases "i = t") (auto simp: inv_def)
  moreover have "count (X' + refs E n w') c \<le> 1" for c
    using inv sub by (intro count_le_1_mono [of "X + refs E n w"]) (simp_all add: inv_def)
  moreover have "c \<in> dom (heap w')" if "c \<in># X' + refs E n w'" for c
    using inv frame(2) mset_subset_eqD [OF sub that] by (simp add: inv_def)
  ultimately show ?thesis
    using inv frame(2-4) by (simp add: inv_def heap_ok_def)
qed

lemma in_scheduler_simps [simp]:
  "in_scheduler Loop_Top" "in_scheduler Idle" "in_scheduler (Dispatch evs)"
  "in_scheduler Spawn_Check" "in_scheduler (Stopped r)" "in_scheduler Aborted"
  "\<not> in_scheduler (Body p)" "\<not> in_scheduler (Epilogue st)" "\<not> in_scheduler Crash"
  "\<not> in_scheduler (After_Resume h)" "\<not> in_scheduler (Ready_Push h k)"
  by (simp_all add: in_scheduler_def)

lemma ready_return_simps [simp]:
  "ready_return Spawn_Check" "ready_return (Dispatch evs)"
  by (simp_all add: ready_return_def)

lemma ready_return_in_scheduler [intro]: "ready_return k \<Longrightarrow> in_scheduler k"
  by (cases k) (auto simp: ready_return_def)

lemma loc_refs_in_scheduler [simp]: "in_scheduler k \<Longrightarrow> loc_refs r k = {#}"
  by (cases k) (auto simp: in_scheduler_def)

lemma thread_ok_in_scheduler:
  "in_scheduler (loc th) \<Longrightarrow> thread_ok E th \<longleftrightarrow>
    cur_running th = None \<and> last_result th = None \<and> distinct (loc_tokens (loc th)) \<and>
    live_tokens E (event_loop th) (loc th) \<subseteq> dom (slab_view E (slabs th)) \<and>
    el_armed E (event_loop th) \<inter> set (loc_tokens (loc th)) = {}"
  by (cases "loc th") (auto simp: thread_ok_def in_scheduler_def)

lemma dying_in_scheduler: "in_scheduler (loc th) \<Longrightarrow> \<not> dying_th th c"
  by (cases "loc th") (auto simp: dying_th_def in_scheduler_def)

text \<open>\<open>Scheduler::ready\<close> hands a resumable coroutine to the queue, or goes on trying.\<close>

lemma inv_ready:
  assumes laws: "env_laws E" and t: "t < n" and k': "ready_return k"
    and inv: "inv E n (add_mset h X) (goto t k w)" and co: "heap w h = Some co" "resumable co"
  shows "inv E n X (ready E t h k w)"
proof (cases "bq_push E h (global_queue w)")
  case (Pair r q)
  have k: "in_scheduler k" using k' by (rule ready_return_in_scheduler)
  have ok: "thread_ok E (threads (goto t k w) t)"
    using inv t by (simp add: inv_def)
  have res: "heap w h = Some co' \<Longrightarrow> resumable co'" for co'
    using co by simp
  show ?thesis
  proof (cases r)
    case (Inr u)
    then show ?thesis
      unfolding ready_def using Pair bq_push_Inr [OF laws] k ok
      by (intro inv_update [OF inv t]) (auto simp: threads_goto goto_def upd_def dying_in_scheduler dest: res)
  next
    case (Inl y)
    have "thread_refs E ((threads w t)\<lparr>loc := Ready_Push h k\<rparr>) =
        thread_refs E ((threads w t)\<lparr>loc := k\<rparr>) + {#h#}"
      using k by (simp add: thread_refs_def live_tokens_def)
    moreover have "thread_ok E ((threads w t)\<lparr>loc := Ready_Push h k\<rparr>)"
      using ok k k'
      by (simp add: thread_ok_in_scheduler threads_goto) (simp add: thread_ok_def live_tokens_def)
    ultimately show ?thesis
      unfolding ready_def using Pair Inl bq_push_Inl [OF laws, of h "global_queue w" y q] k
      by (intro inv_update [OF inv t]) (auto simp: threads_goto goto_def upd_def dying_in_scheduler dest: res)
  qed
qed


lemmas thread_simps = threads_goto goto_def upd_def dying_in_scheduler

text \<open>\<open>Scheduler::finished\<close> frees the coroutine and counts down.\<close>

lemma inv_finished:
  assumes t: "t < n" and k: "in_scheduler k"
    and inv: "inv E n (add_mset h X) (goto t k w)" and co: "heap w h = Some co"
  shows "inv E n X (finished E t h k w)"
proof -
  define w' where "w' = finished E t h k w"
  obtain sp where w': "\<And>i. threads w' i =
      (if i = t then (threads w t)\<lparr>loc := k, stack_pool := sp\<rparr> else threads w i)"
  proof
    show "threads w' i = (if i = t
        then (threads w t)\<lparr>loc := k, stack_pool := (case stack co of None \<Rightarrow> stack_pool (threads w t)
          | Some st \<Rightarrow> sp_give E st (stack_pool (threads w t)))\<rparr> else threads w i)" for i
      using co
      by (cases "stack co") (auto simp: w'_def finished_defs co_drop_def goto_def upd_def Let_def)
  qed
  have rest: "heap w' = (heap w)(h := None)" "global_queue w' = global_queue w"
    "next_ptr w' = next_ptr w" "work_counts w' = work_counts w - 1"
    using co by (simp_all add: w'_def finished_defs co_drop_def Let_def split: option.split)
  have "thread_refs E (threads w' i) = thread_refs E (threads (goto t k w) i)" for i
    by (simp add: w' threads_goto thread_refs_def)
  then have refs: "refs E n w' = refs E n (goto t k w)"
    by (simp add: refs_def rest)
  have "thread_ok E (threads w' i)" if "i < n" for i
  proof -
    have "thread_ok E (threads (goto t k w) i)" using inv that by (simp add: inv_def)
    then show ?thesis
      by (cases "i = t") (simp_all add: w' threads_goto thread_ok_in_scheduler k)
  qed
  moreover have "dying n w' c \<longleftrightarrow> dying n (goto t k w) c" for c
    unfolding dying_alt by (auto simp: w' threads_goto dying_th_def)
  moreover have "h \<notin># refs E n w'"
  proof -
    have "count (add_mset h X + refs E n w') h \<le> 1"
      using inv by (simp only: inv_def refs)
    then show ?thesis by (simp add: not_in_iff)
  qed
  moreover have "heap_ok w'"
  proof -
    have fin: "finite (dom (heap w))"
      using inv by (auto simp: inv_def heap_ok_def intro: finite_subset)
    have "card (dom (heap w)) = Suc (card (dom (heap w) - {h}))"
      using co by (intro card.remove fin) auto
    then show ?thesis
      using inv fin by (auto simp: inv_def heap_ok_def rest)
  qed
  moreover have "count (X + refs E n w') c \<le> 1" for c
    using inv by (intro count_le_1_mono [of "add_mset h X + refs E n w'"]) (simp_all add: inv_def refs)
  moreover have "h \<notin># X"
  proof -
    have "count (add_mset h X + refs E n w') h \<le> 1"
      using inv by (simp only: inv_def refs)
    then show ?thesis by (simp add: not_in_iff)
  qed
  moreover have "resumable co' \<or> dying n (goto t k w) c \<or> c \<in># X"
    if "heap w c = Some co'" "c \<noteq> h" for c co'
    using inv that unfolding inv_def by auto
  moreover have "c \<in> dom (heap w)" if "c \<in># X + refs E n w'" for c
    using inv that unfolding inv_def by (auto simp: refs)
  ultimately show ?thesis
    unfolding w'_def [symmetric] inv_def by (auto simp: rest)
qed

text \<open>\<open>resume\<close> hands a resumable coroutine to the thread, which runs it.\<close>

lemma inv_resume:
  assumes t: "t < n" and inv: "inv E n (add_mset h X) (goto t Loop_Top w)"
    and co: "heap w h = Some co" "resumable co"
  shows "inv E n X (resume t h w)"
proof -
  obtain p where p: "ctx co = Some (Body p)"
    using co(2) by (auto simp: resumable_def split: option.splits loc.splits)
  have ok: "thread_ok E (threads (goto t Loop_Top w) t)"
    using inv t by (simp add: inv_def)
  have res: "heap w h = Some co' \<Longrightarrow> resumable co'" for co'
    using co by simp
  show ?thesis
    unfolding resume_def using co(1) p ok
    by (intro inv_update [OF inv t])
      (auto simp: yield_to_def enter_def thread_simps thread_ok_in_scheduler thread_refs_def
        live_tokens_def thread_ok_def dest: res)
qed

text \<open>
  A thread in user code, seen without its coroutine: what it hands over when it yields.
\<close>

definition detach ::
  "tid \<Rightarrow> ('q, 'sl, 'ev, 'pl, 'stk, 'p, 'u) world \<Rightarrow> ('q, 'sl, 'ev, 'pl, 'stk, 'p, 'u) world" where
  "detach t = upd t (\<lambda>th. th\<lparr>cur_running := None, last_result := None, loc := Spawn_Check\<rparr>)"

lemma inv_detach:
  assumes t: "t < n" and inv: "inv E n X w" and l: "loc (threads w t) = Body p"
    and c: "cur_running (threads w t) = Some c"
  shows "inv E n (add_mset c X) (detach t w)"
proof -
  have ok: "thread_ok E (threads w t)"
    using inv t by (simp add: inv_def)
  show ?thesis
    unfolding detach_def using l c ok
    by (intro inv_update [OF inv t])
      (auto simp: thread_refs_def live_tokens_def thread_ok_def thread_simps dying_th_def)
qed

lemma inv_yielded:
  assumes t: "t < n" and r: "r \<noteq> Inr Blocked \<longrightarrow> Y = add_mset c X" "r = Inr Blocked \<longrightarrow> Y = X"
    and inv: "inv E n Y (detach t w)" and co: "heap w c = Some co"
    and k: "(\<exists>p. k = Body p) \<or> (r \<noteq> Inr Blocked \<and> r \<noteq> Inr Suspended)"
  shows "inv E n X (yielded r t c k (After_Resume c) w)"
proof -
  have ok: "thread_ok E (threads (detach t w) t)"
    using inv t by (simp add: inv_def)
  have Y: "Y = (if r = Inr Blocked then X else add_mset c X)" using r by auto
  show ?thesis
    unfolding yielded_def using co ok k
    by (intro inv_update [OF inv t])
      (auto simp: detach_def thread_simps thread_ok_in_scheduler thread_refs_def live_tokens_def
        thread_ok_def Y dying_th_def resumable_def split: if_splits)
qed

section \<open>Yielding\<close>

lemma thread_okD_Body:
  "thread_ok E th \<Longrightarrow> loc th = Body p \<Longrightarrow>
   \<exists>c. cur_running th = Some c \<and> ctx (main_coro th) = Some (After_Resume c)"
  by (auto simp: thread_ok_def)

lemma inv_cur_alloc:
  assumes "inv E n X w" and "t < n" and "cur_running (threads w t) = Some c"
  shows "\<exists>co. heap w c = Some co"
  using assms unfolding inv_def by (auto simp: refs_split thread_refs_def)

context yielding
begin

lemma inv_op:
  assumes t: "t < n" and c: "cur_running (threads w t) = Some c"
    and main: "ctx (main_coro (threads w t)) = Some (After_Resume c)"
    and co: "heap w c = Some co"
    and inv: "inv E n (if r = Inr Blocked then X else add_mset c X) (detach t w)"
    and k: "(\<exists>p. k = Body p) \<or> (r \<noteq> Inr Blocked \<and> r \<noteq> Inr Suspended)"
  shows "inv E n X (op t k w)"
  unfolding inside [OF c co main] by (rule inv_yielded [OF t _ _ inv co k]) simp_all

end

section \<open>Spawning\<close>

text \<open>Allocating a coroutine and handing it to the thread as its new one.\<close>

definition alloc_spawned ::
  "('q, 'sl, 'ev, 'pl, 'stk, 'p, 'u) env \<Rightarrow> tid \<Rightarrow> 'p \<Rightarrow> options \<Rightarrow>
   ('q, 'sl, 'ev, 'pl, 'stk, 'p, 'u) world \<Rightarrow> ('q, 'sl, 'ev, 'pl, 'stk, 'p, 'u) world" where
  "alloc_spawned E t f os w =
    (let (coro, w') = co_spawn_opts E t f os (w\<lparr>work_counts := work_counts w + 1\<rparr>)
     in upd t (\<lambda>th. th\<lparr>new_spawned := Some coro\<rparr>) w')"

lemma scheduler_spawn_opts_alt:
  "scheduler_spawn_opts E t f os k w = sched t k (alloc_spawned E t f os w)"
  by (simp add: scheduler_spawn_opts_def proc_spawn_opts_def alloc_spawned_def split_beta)

lemma alloc_spawned_other [simp]: "i \<noteq> t \<Longrightarrow> threads (alloc_spawned E t f os w) i = threads w i"
  by (simp add: alloc_spawned_def co_spawn_opts_def split_beta upd_def Let_def)

lemma alloc_spawned_thread:
  "\<exists>sp. threads (alloc_spawned E t f os w) t =
     (threads w t)\<lparr>stack_pool := sp, new_spawned := Some (next_ptr w)\<rparr>"
  by (auto simp: alloc_spawned_def co_spawn_opts_def split_beta upd_def Let_def)

lemma alloc_spawned_heap:
  "\<exists>co. heap (alloc_spawned E t f os w) = (heap w)(next_ptr w \<mapsto> co) \<and> ctx co = Some (Body f)"
  by (auto simp: alloc_spawned_def co_spawn_opts_def split_beta Let_def)

lemma alloc_spawned_simps [simp]:
  "global_queue (alloc_spawned E t f os w) = global_queue w"
  "next_ptr (alloc_spawned E t f os w) = Suc (next_ptr w)"
  "work_counts (alloc_spawned E t f os w) = work_counts w + 1"
  "user (alloc_spawned E t f os w) = user w"
  by (simp_all add: alloc_spawned_def co_spawn_opts_def split_beta Let_def)

lemma thread_ok_spawned [simp]:
  "thread_ok E (th\<lparr>stack_pool := sp, new_spawned := x\<rparr>) \<longleftrightarrow> thread_ok E th"
  by (cases "loc th") (simp_all add: thread_ok_def)

lemma inv_alloc_spawned:
  assumes t: "t < n" and inv: "inv E n X w"
  shows "inv E n X (alloc_spawned E t f os w)"
proof -
  define w' where "w' = alloc_spawned E t f os w"
  obtain sp where th: "threads w' t = (threads w t)\<lparr>stack_pool := sp, new_spawned := Some (next_ptr w)\<rparr>"
    using alloc_spawned_thread [of E t f os w] by (auto simp: w'_def)
  obtain co where heap: "heap w' = (heap w)(next_ptr w \<mapsto> co)" and co: "resumable co"
    using alloc_spawned_heap [of E t f os w] by (auto simp: w'_def resumable_def)
  have other: "threads w' i = threads w i" if "i \<noteq> t" for i using that by (simp add: w'_def)
  have fresh: "next_ptr w \<notin> dom (heap w)" using inv by (auto simp: inv_def heap_ok_def)
  have "thread_refs E (threads w' t) + opt_mset (new_spawned (threads w t)) =
      thread_refs E (threads w t) + {#next_ptr w#}"
    by (simp add: th thread_refs_def)
  then have "thread_refs E (threads w' t) \<subseteq># thread_refs E (threads w t) + {#next_ptr w#}"
    by (metis mset_subset_eq_add_left)
  moreover have "refs E n w' = mset (bq_view E (global_queue w)) + thread_refs E (threads w' t) +
      others E n t w"
    by (simp add: refs_split [OF t] others_cong [OF other]) (simp add: w'_def)
  ultimately have refs: "X + refs E n w' \<subseteq># add_mset (next_ptr w) (X + refs E n w)"
    by (simp add: refs_split [OF t, of E w] subset_mset.add_mono
        flip: union_mset_add_mset_right union_mset_add_mset_left)
  have new: "next_ptr w \<notin># X + refs E n w" using inv fresh unfolding inv_def by blast
  have "count (X + refs E n w') c \<le> 1" for c
  proof (rule count_le_1_mono [OF _ refs], rule allI)
    show "count (add_mset (next_ptr w) (X + refs E n w)) c \<le> 1" for c
      using inv new unfolding inv_def by (auto simp: not_in_iff)
  qed
  moreover have "c \<in> dom (heap w')" if "c \<in># X + refs E n w'" for c
    using inv mset_subset_eqD [OF refs that] unfolding inv_def heap by auto
  moreover have "dying n w' c \<longleftrightarrow> dying n w c" for c
  proof -
    have "dying_th (threads w' i) c \<longleftrightarrow> dying_th (threads w i) c" for i
      by (cases "i = t") (simp_all add: th other dying_th_def)
    then show ?thesis by (simp add: dying_alt)
  qed
  moreover have "thread_ok E (threads w' i)" if "i < n" for i
    using inv that th other [of i] by (cases "i = t") (auto simp: inv_def)
  moreover have "heap_ok w'"
  proof -
    have "finite (dom (heap w))" using inv by (auto simp: inv_def heap_ok_def intro: finite_subset)
    then have "card (insert (next_ptr w) (dom (heap w))) = Suc (card (dom (heap w)))"
      using fresh by simp
    moreover have "next_ptr w' = Suc (next_ptr w)" "work_counts w' = work_counts w + 1"
      by (simp_all add: w'_def)
    ultimately show ?thesis
      using inv by (auto simp: inv_def heap_ok_def heap)
  qed
  ultimately show ?thesis
    using inv co unfolding w'_def [symmetric] inv_def by (auto simp: heap)
qed


lemma inv_spawn_in_coroutine:
  assumes t: "t < n" and inv: "inv E n X w" and l: "loc (threads w t) = Body p"
  shows "inv E n X (scheduler_spawn_opts E t f os (Body p') w)"
proof -
  have "thread_ok E (threads w t)" using inv t by (simp add: inv_def)
  then obtain c where c: "cur_running (threads w t) = Some c"
    and main: "ctx (main_coro (threads w t)) = Some (After_Resume c)"
    using thread_okD_Body [OF _ l] by blast
  let ?w = "alloc_spawned E t f os w"
  obtain sp where th: "threads ?w t = (threads w t)\<lparr>stack_pool := sp, new_spawned := Some (next_ptr w)\<rparr>"
    using alloc_spawned_thread [of E t f os w] by blast
  have inv': "inv E n X ?w" by (rule inv_alloc_spawned [OF t inv])
  obtain co where "heap ?w c = Some co" using inv_cur_alloc [OF inv' t, of c] by (auto simp: th c)
  then show ?thesis
    unfolding scheduler_spawn_opts_alt
    using inv_detach [OF t inv', of p c] c main l
    by (intro sched.inv_op [OF t]) (auto simp: th)
qed

text \<open>Outside a coroutine, \<open>spawn\<close> returns to its caller at once.\<close>

lemma spawn_outside:
  assumes l: "loc (threads w t) = Loop_Top" and c: "cur_running (threads w t) = None"
  shows "scheduler_spawn_opts E t f os Loop_Top w = alloc_spawned E t f os w"
proof -
  let ?w = "alloc_spawned E t f os w"
  obtain sp where th: "threads ?w t = (threads w t)\<lparr>stack_pool := sp, new_spawned := Some (next_ptr w)\<rparr>"
    using alloc_spawned_thread [of E t f os w] by blast
  then have "goto t Loop_Top ?w = ?w"
    using l by (cases ?w) (auto simp: goto_def upd_def fun_eq_iff)
  then show ?thesis
    by (simp add: scheduler_spawn_opts_alt sched.outside th c)
qed

lemma inv_spawn_outside:
  assumes "t < n" and "inv E n X w" and "loc (threads w t) = Loop_Top"
    and "cur_running (threads w t) = None"
  shows "inv E n X (scheduler_spawn_opts E t f os Loop_Top w)"
  using assms by (simp add: spawn_outside inv_alloc_spawned)

section \<open>Suspending, blocking and finishing\<close>

text \<open>Each yielding operation from user code, whatever the result it hands over.\<close>

lemma inv_yield_with:
  assumes t: "t < n" and inv: "inv E n X w" and l: "loc (threads w t) = Body p"
    and r: "r \<noteq> Inr Blocked" and k: "(\<exists>p. k = Body p) \<or> r \<noteq> Inr Suspended"
  shows "inv E n X (yield_with r t k w)"
proof -
  have "thread_ok E (threads w t)" using inv t by (simp add: inv_def)
  then obtain c where c: "cur_running (threads w t) = Some c"
    and main: "ctx (main_coro (threads w t)) = Some (After_Resume c)"
    using thread_okD_Body [OF _ l] by blast
  obtain co where co: "heap w c = Some co" using inv_cur_alloc [OF inv t c] by blast
  show ?thesis
    using inv_detach [OF t inv l c] r k
    by (intro yield_with.inv_op [OF t c main co]) auto
qed

lemma sched_is_yield_with: "sched = yield_with (Inr Suspended)"
  and block_is_yield_with: "block = yield_with (Inr Blocked)"
  by (simp_all add: fun_eq_iff sched_def block_def yield_with_def)

lemma inv_sched:
  "t < n \<Longrightarrow> inv E n X w \<Longrightarrow> loc (threads w t) = Body p \<Longrightarrow>
   inv E n X (scheduler_sched t (Body p') w)"
  by (simp add: scheduler_sched_def sched_is_yield_with inv_yield_with)

lemma inv_coroutine_initialize:
  "t < n \<Longrightarrow> inv E n X w \<Longrightarrow> loc (threads w t) = Body p \<Longrightarrow>
   inv E n X (coroutine_initialize ret t w)"
  by (cases ret) (simp_all add: coroutine_initialize_def initialize_outcome_def inv_yield_with)

lemma inv_block:
  assumes t: "t < n" and inv: "inv E n X (detach t w)" and l: "loc (threads w t) = Body p"
    and c: "cur_running (threads w t) = Some c" and co: "heap w c = Some co"
    and main: "ctx (main_coro (threads w t)) = Some (After_Resume c)"
  shows "inv E n X (scheduler_block t (Body p') w)"
  unfolding scheduler_block_def using inv by (intro block.inv_op [OF t c main co]) auto

text \<open>A pointer that a thread or the queue holds can be resumed, unless it is dying there.\<close>

lemma held_resumable:
  assumes inv: "inv E n X w" and t: "t < n"
    and c: "c \<in># mset (bq_view E (global_queue w)) + thread_refs E (threads w t)"
    and d: "\<not> dying_th (threads w t) c"
  shows "\<exists>co. heap w c = Some co \<and> resumable co"
proof -
  have le: "count (X + refs E n w) c \<le> 1" using inv by (simp only: inv_def)
  have "c \<in># refs E n w" using c by (auto simp: refs_split [OF t])
  then obtain co where co: "heap w c = Some co" using inv unfolding inv_def by (meson domD union_iff)
  have "\<not> dying_th (threads w i) c" if "i < n" for i
  proof
    assume d': "dying_th (threads w i) c"
    then have "c \<in># others E n t w"
      using that d by (cases "i = t") (force simp: others_def sum_mset_member thread_refs_def dying_th_def)+
    then have "0 < count (others E n t w) c" by (simp only: count_greater_zero_iff)
    moreover have "1 \<le> count (mset (bq_view E (global_queue w)) + thread_refs E (threads w t)) c"
      using c by (simp only: count_greater_eq_one_iff)
    ultimately show False using le unfolding refs_split [OF t] count_union by linarith
  qed
  moreover have "c \<notin># X"
  proof
    assume "c \<in># X"
    then have "0 < count X c" by (simp only: count_greater_zero_iff)
    moreover have "0 < count (refs E n w) c" using \<open>c \<in># refs E n w\<close> by (simp only: count_greater_zero_iff)
    ultimately show False using le unfolding count_union by linarith
  qed
  ultimately show ?thesis using inv co unfolding inv_def dying_alt by blast
qed

lemma inv_run_task_end:
  assumes laws: "env_laws E" and t: "t < n" and inv: "inv E n X w"
    and l: "loc (threads w t) = After_Resume h"
  shows "inv E n X (run_task_end E t h w)"
proof -
  have ok: "thread_ok E (threads w t)" using inv t by (simp add: inv_def)
  then obtain r where r: "last_result (threads w t) = Some r" and c: "cur_running (threads w t) = None"
    using l by (auto simp: thread_ok_def)
  let ?w = "upd t (\<lambda>th. th\<lparr>last_result := None\<rparr>) w"
  let ?X = "if r = Inr Blocked then X else add_mset h X"
  have home: "inv E n ?X (goto t Spawn_Check ?w)"
    using ok l r c
    by (intro inv_update [OF inv t])
      (auto simp: thread_simps thread_refs_def live_tokens_def thread_ok_in_scheduler thread_ok_def dying_th_def)
  have alloc: "\<exists>co. heap w h = Some co" if "r \<noteq> Inr Blocked"
    using home that by (auto simp: inv_def)
  have res: "\<exists>co. heap w h = Some co \<and> resumable co" if "r = Inr Suspended"
    using that l r by (intro held_resumable [OF inv t]) (simp_all add: thread_refs_def dying_th_def)
  show ?thesis
  proof (cases r)
    case (Inl e)
    then show ?thesis
      using inv_finished [OF t _ home [unfolded Inl, simplified]] alloc r
      by (auto simp: run_task_end_def resume_result_def)
  next
    case (Inr st)
    then show ?thesis
      using inv_finished [OF t, where k = Spawn_Check and h = h and w = ?w] inv_ready [OF laws t, where k = Spawn_Check and h = h and w = ?w]
        home alloc res r
      by (cases st) (auto simp: run_task_end_def resume_result_def)
  qed
qed


section \<open>Waiting for I/O\<close>

lemma slab_refs_empty [simp]: "slab_refs v {} = {#}"
  by (simp add: slab_refs_def)

lemma slab_refs_insert:
  assumes "finite (dom v)" and "v tok = None"
  shows "slab_refs (v(tok \<mapsto> x)) (insert tok live) = add_mset (fst x) (slab_refs v live)"
proof -
  have "dom (v(tok \<mapsto> x)) \<inter> insert tok live = insert tok (dom v \<inter> live)" by auto
  moreover have "tok \<notin> dom v \<inter> live" using assms(2) by auto
  moreover have "image_mset (\<lambda>t. fst (the ((v(tok \<mapsto> x)) t))) (mset_set (dom v \<inter> live)) =
      image_mset (\<lambda>t. fst (the (v t))) (mset_set (dom v \<inter> live))"
    using assms by (intro image_mset_cong) auto
  ultimately show ?thesis using assms(1) by (simp add: slab_refs_def)
qed

lemma slab_refs_upd_dead:
  assumes "tok \<notin> live"
  shows "slab_refs (v(tok := x)) live = slab_refs v live"
proof -
  have "dom (v(tok := x)) \<inter> live = dom v \<inter> live" using assms by (auto split: if_splits)
  then show ?thesis
    using assms
    by (cases "finite (dom v \<inter> live)") (auto simp: slab_refs_def intro!: image_mset_cong)
qed

lemma slab_refs_mono:
  "finite (dom v) \<Longrightarrow> A \<subseteq> B \<Longrightarrow> slab_refs v A \<subseteq># slab_refs v B"
  unfolding slab_refs_def by (intro image_mset_subseteq_mono subset_imp_msubset_mset_set) auto

lemma slab_refs_remove:
  assumes "finite (dom v)" and "v tok = Some x" and "tok \<notin> live"
  shows "slab_refs v (insert tok live) = add_mset (fst x) (slab_refs (v(tok := None)) live)"
proof -
  have "dom v \<inter> insert tok live = insert tok (dom v \<inter> live)" using assms(2) by auto
  moreover have "tok \<notin> dom v \<inter> live" using assms(3) by auto
  ultimately show ?thesis
    using assms by (simp add: slab_refs_upd_dead) (simp add: slab_refs_def)
qed

lemma inv_wait_event:
  assumes laws: "env_laws E" and t: "t < n" and inv: "inv E n X w"
    and l: "loc (threads w t) = Body p"
  shows "inv E n X (wait_event E t fd i k w)"
proof -
  have ok: "thread_ok E (threads w t)" using inv t by (simp add: inv_def)
  then obtain c where c: "cur_running (threads w t) = Some c"
    and main: "ctx (main_coro (threads w t)) = Some (After_Resume c)"
    using thread_okD_Body [OF _ l] by blast
  obtain co where co: "heap w c = Some co" using inv_cur_alloc [OF inv t c] by blast
  obtain r sl where ins: "slab_insert E (c, fd) (slabs (threads w t)) = (r, sl)" by fastforce
  have fin: "finite (dom (slab_view E (slabs (threads w t))))" by (rule slab_finite [OF laws])
  have res: "\<not> dying_th (threads w t) c'" for c' using l by (simp add: dying_th_def)
  show ?thesis
  proof (cases r)
    case (Inl y)
    have same: "slab_view E sl = slab_view E (slabs (threads w t))"
      using slab_insert_Inl [OF laws] ins Inl by blast
    have "inv E n X (upd t (\<lambda>th. th\<lparr>slabs := sl\<rparr>) w)"
      using ok l res
      by (intro inv_update [OF inv t])
        (auto simp: upd_def thread_refs_def same thread_ok_def)
    then show ?thesis
      unfolding wait_event_def using c ins Inl l t
      by (auto simp: running_def intro!: inv_coroutine_initialize)
  next
    case (Inr tok)
    have view: "slab_view E (slabs (threads w t)) tok = None"
      "slab_view E sl = (slab_view E (slabs (threads w t)))(tok \<mapsto> (c, fd))"
      using slab_insert_Inr [OF laws] ins Inr by blast+
    obtain q ev where reg: "el_register E fd tok i (event_loop (threads w t)) = (q, ev)"
      by fastforce
    have dead: "tok \<notin> el_armed E (event_loop (threads w t))"
      using ok l view(1) by (auto simp: thread_ok_def live_tokens_def)
    show ?thesis
    proof (cases q)
      case q: (Inl e)
      have "el_armed E ev = el_armed E (event_loop (threads w t))"
        using el_register_Inl [OF laws] reg q by blast
      then have "inv E n X (goto t (Body (k (Inl e)))
          (upd t (\<lambda>th. th\<lparr>slabs := sl, event_loop := ev\<rparr>) w))"
        using ok l dead res c main
        by (intro inv_update [OF inv t])
          (auto simp: thread_simps thread_refs_def live_tokens_def view slab_refs_upd_dead
            thread_ok_def)
      then show ?thesis
        unfolding wait_event_def using c ins Inr reg q by (simp add: running_def)
    next
      case q: (Inr u)
      have armed: "el_armed E ev = insert tok (el_armed E (event_loop (threads w t)))"
        using el_register_Inr [OF laws] reg q by blast
      let ?w = "upd t (\<lambda>th. th\<lparr>slabs := sl, event_loop := ev\<rparr>) w"
      have "inv E n X (detach t ?w)"
        using ok l dead c res
        by (intro inv_update [OF inv t])
          (auto simp: detach_def thread_simps thread_refs_def live_tokens_def view armed
            slab_refs_insert [OF fin view(1)] thread_ok_def)
      then have "inv E n X (scheduler_block t (Body (k (Inr ()))) ?w)"
        using c co main l by (intro inv_block [OF t]) simp_all
      then show ?thesis
        unfolding wait_event_def using c ins Inr reg q by (simp add: running_def)
    qed
  qed
qed

text \<open>Where a thread is unwound, the coroutine it had in hand is lost.\<close>

lemma inv_drop:
  assumes inv: "inv E n (add_mset h X) w" and co: "heap w h = Some co" "resumable co"
  shows "inv E n X w"
proof -
  have "count (X + refs E n w) c \<le> 1" for c
    using inv by (intro count_le_1_mono [of "add_mset h X + refs E n w"]) (simp_all add: inv_def)
  moreover have "resumable co' \<or> dying n w c \<or> c \<in># X" if "heap w c = Some co'" for c co'
    using inv co that unfolding inv_def by (cases "c = h") auto
  ultimately show ?thesis using inv unfolding inv_def by simp
qed

lemma inv_handler_ready:
  assumes laws: "env_laws E" and t: "t < n" and inv: "inv E n X w"
    and l: "loc (threads w t) = Dispatch ((tok, es) # evs)"
  shows "inv E n X (handler_ready E t tok evs w)"
proof -
  have ok: "thread_ok E (threads w t)" using inv t by (simp add: inv_def)
  have fin: "finite (dom (slab_view E (slabs (threads w t))))" by (rule slab_finite [OF laws])
  have "tok \<in> dom (slab_view E (slabs (threads w t)))"
    using ok l by (auto simp: thread_ok_in_scheduler live_tokens_def)
  then obtain hdl fd where e: "slab_view E (slabs (threads w t)) tok = Some (hdl, fd)" by auto
  obtain r sl where rem: "slab_remove E tok (slabs (threads w t)) = (r, sl)" by fastforce
  then have r: "r = Some (hdl, fd)" and
    view: "slab_view E sl = (slab_view E (slabs (threads w t)))(tok := None)"
    using slab_remove_view [OF laws] e by auto
  obtain q ev where dereg: "el_deregister E fd (event_loop (threads w t)) = (q, ev)" by fastforce
  have armed: "el_armed E ev \<subseteq> el_armed E (event_loop (threads w t))"
    using el_deregister_armed [OF laws dereg] .
  let ?w = "upd t (\<lambda>th. th\<lparr>slabs := sl, event_loop := ev\<rparr>) w"
  let ?old = "el_armed E (event_loop (threads w t)) \<union> fst ` set evs"
  have dead: "tok \<notin> ?old"
    using ok l by (auto simp: thread_ok_in_scheduler)
  have sub: "slab_refs ((slab_view E (slabs (threads w t)))(tok := None)) A \<subseteq>#
      slab_refs ((slab_view E (slabs (threads w t)))(tok := None)) ?old"
    if "A \<subseteq> ?old" for A using that fin by (intro slab_refs_mono) auto
  have less: "add_mset hdl (slab_refs ((slab_view E (slabs (threads w t)))(tok := None)) A) \<subseteq>#
      slab_refs (slab_view E (slabs (threads w t))) (insert tok ?old)" if "A \<subseteq> ?old" for A
    using sub [OF that] by (simp add: slab_refs_remove [OF fin e dead])
  have home: "inv E n (add_mset hdl X) (goto t k ?w)"
    if k: "in_scheduler k" "distinct (loc_tokens k)" "set (loc_tokens k) \<subseteq> fst ` set evs" for k
  proof -
    let ?A = "el_armed E ev \<union> set (loc_tokens k)"
    have sub: "?A \<subseteq> ?old" using armed k(3) by auto
    have "fst ` set evs \<subseteq> dom (slab_view E (slabs (threads w t)))"
      using ok l by (auto simp: thread_ok_in_scheduler live_tokens_def)
    then have "set (loc_tokens k) \<subseteq> dom (slab_view E (slabs (threads w t)))"
      using k(3) by (rule subset_trans [rotated])
    then have "thread_ok E ((threads w t)\<lparr>slabs := sl, event_loop := ev, loc := k\<rparr>)"
      using ok l armed k dead by (auto simp: thread_ok_in_scheduler live_tokens_def view)
    moreover have "add_mset hdl (thread_refs E (threads (goto t k ?w) t)) \<subseteq>#
        thread_refs E (threads w t)"
      using ok l k less [OF sub]
      by (simp add: thread_simps thread_refs_def live_tokens_def view thread_ok_in_scheduler)
    then have "X + mset (bq_view E (global_queue w)) +
          add_mset hdl (thread_refs E (threads (goto t k ?w) t)) \<subseteq>#
        X + mset (bq_view E (global_queue w)) + thread_refs E (threads w t)"
      by (rule subset_mset.add_left_mono)
    ultimately show ?thesis
      using k l by (intro inv_update [OF inv t]) (auto simp: thread_simps)
  qed
  have "\<exists>co. heap w hdl = Some co \<and> resumable co"
  proof (rule held_resumable [OF inv t])
    show "hdl \<in># mset (bq_view E (global_queue w)) + thread_refs E (threads w t)"
      using l less [of "{}"] by (auto simp: thread_refs_def live_tokens_def dest: mset_subset_eqD)
  qed (simp add: dying_in_scheduler l)
  then obtain co where co: "heap w hdl = Some co" "resumable co" by blast
  show ?thesis
  proof (cases q)
    case q: (Inl e)
    have "inv E n X (goto t Aborted ?w)"
      by (rule inv_drop [OF home [of Aborted], of co]) (simp_all add: co)
    then show ?thesis using rem r dereg q by (simp add: handler_ready_def)
  next
    case q: (Inr u)
    have "inv E n X (ready E t hdl (Dispatch evs) ?w)"
    proof (rule inv_ready [OF laws t _ home, where co = co])
      show "distinct (loc_tokens (Dispatch evs))"
        using ok l by (simp add: thread_ok_in_scheduler)
    qed (simp_all add: co)
    then show ?thesis using rem r dereg q by (simp add: handler_ready_def)
  qed
qed


section \<open>The schedule loop\<close>

lemma inv_schedule_pop:
  assumes laws: "env_laws E" and t: "t < n" and inv: "inv E n X w"
    and l: "loc (threads w t) = Loop_Top"
  shows "inv E n X (schedule_pop E t w)"
proof -
  have ok: "thread_ok E (threads w t)" using inv t by (simp add: inv_def)
  obtain r q where pop: "bq_pop E (global_queue w) = (r, q)" by fastforce
  show ?thesis
  proof (cases r)
    case None
    have "bq_view E q = bq_view E (global_queue w)" using bq_pop_None [OF laws] pop None by blast
    then have "inv E n X (goto t Idle (w\<lparr>global_queue := q\<rparr>))"
      using ok l
      by (intro inv_update [OF inv t])
        (auto simp: thread_simps thread_refs_def live_tokens_def thread_ok_in_scheduler)
    then show ?thesis using pop None by (simp add: schedule_pop_def)
  next
    case (Some h)
    have view: "bq_view E (global_queue w) = h # bq_view E q"
      using bq_pop_Some [OF laws] pop Some by blast
    let ?w = "w\<lparr>global_queue := q\<rparr>"
    have home: "inv E n (add_mset h X) (goto t Loop_Top ?w)"
      using ok l view
      by (intro inv_update [OF inv t])
        (auto simp: thread_simps thread_refs_def live_tokens_def thread_ok_in_scheduler)
    obtain co where "heap w h = Some co" "resumable co"
      using held_resumable [OF inv t, of h] view l by (auto simp: dying_in_scheduler)
    then have "inv E n X (resume t h ?w)"
      by (intro inv_resume [OF t home]) simp_all
    then show ?thesis using pop Some by (simp add: schedule_pop_def)
  qed
qed

lemma inv_schedule_spawned:
  assumes t: "t < n" and inv: "inv E n X w" and l: "loc (threads w t) = Spawn_Check"
  shows "inv E n X (schedule_spawned t w)"
proof -
  have ok: "thread_ok E (threads w t)" using inv t by (simp add: inv_def)
  show ?thesis
  proof (cases "new_spawned (threads w t)")
    case None
    have "inv E n X (goto t Loop_Top w)"
      using ok l
      by (intro inv_update [OF inv t])
        (auto simp: thread_simps thread_refs_def live_tokens_def thread_ok_in_scheduler)
    then show ?thesis using None by (simp add: schedule_spawned_def)
  next
    case (Some h)
    let ?w = "upd t (\<lambda>th. th\<lparr>new_spawned := None\<rparr>) w"
    have home: "inv E n (add_mset h X) (goto t Loop_Top ?w)"
      using ok l Some
      by (intro inv_update [OF inv t])
        (auto simp: thread_simps thread_refs_def live_tokens_def thread_ok_in_scheduler)
    obtain co where "heap w h = Some co" "resumable co"
      using held_resumable [OF inv t, of h] Some l
      by (auto simp: dying_in_scheduler thread_refs_def)
    then have "inv E n X (resume t h ?w)"
      by (intro inv_resume [OF t home]) simp_all
    then show ?thesis using Some by (simp add: schedule_spawned_def)
  qed
qed

lemma inv_schedule_idle:
  assumes laws: "env_laws E" and t: "t < n" and inv: "inv E n X w"
    and l: "loc (threads w t) = Idle"
  shows "inv E n X (schedule_idle E t w)"
proof -
  have ok: "thread_ok E (threads w t)" using inv t by (simp add: inv_def)
  have fin: "finite (dom (slab_view E (slabs (threads w t))))" by (rule slab_finite [OF laws])
  obtain r ev where poll: "el_poll E (event_loop (threads w t)) = (r, ev)" by fastforce
  have stay: "inv E n X (goto t l' w)" if "in_scheduler l'" "loc_tokens l' = []" for l'
    using ok l that
    by (intro inv_update [OF inv t])
      (auto simp: thread_simps thread_refs_def live_tokens_def thread_ok_in_scheduler)
  have polled: "inv E n X (goto t l' (upd t (\<lambda>th. th\<lparr>event_loop := ev\<rparr>) w))"
    if "in_scheduler l'" "distinct (loc_tokens l')"
      "el_armed E ev \<union> set (loc_tokens l') \<subseteq> el_armed E (event_loop (threads w t))"
      "el_armed E ev \<inter> set (loc_tokens l') = {}" for l'
    using ok l that slab_refs_mono [OF fin that(3)]
    by (intro inv_update [OF inv t])
      (auto simp: thread_simps thread_refs_def live_tokens_def thread_ok_in_scheduler)
  show ?thesis
  proof (cases r)
    case (Inl e)
    then show ?thesis
      using stay [of Spawn_Check] stay [of "Stopped (Inr ())"] polled [of "Stopped (Inl e)"]
        el_poll_Inl [OF laws] poll
      by (auto simp: schedule_idle_def)
  next
    case (Inr evs)
    then show ?thesis
      using stay [of Spawn_Check] stay [of "Stopped (Inr ())"] polled [of "Dispatch evs"]
        el_poll_Inr [OF laws] poll
      by (auto simp: schedule_idle_def)
  qed
qed

lemma inv_body_step:
  assumes laws: "env_laws E" and t: "t < n" and inv: "inv E n X w"
    and l: "loc (threads w t) = Body p"
  shows "inv E n X (body_step E t p w)"
proof -
  obtain c u where run: "run E p (user w) = (c, u)" by fastforce
  let ?w = "w\<lparr>user := u\<rparr>"
  have ok: "thread_ok E (threads w t)" using inv t by (simp add: inv_def)
  have inv': "inv E n X ?w"
    using ok l by (intro inv_update [OF inv t]) (auto simp: dying_th_def)
  obtain c' where c: "cur_running (threads w t) = Some c'"
    and main: "ctx (main_coro (threads w t)) = Some (After_Resume c')"
    using thread_okD_Body [OF ok l] by blast
  obtain co where co: "heap w c' = Some co" using inv_cur_alloc [OF inv t c] by blast
  show ?thesis
  proof (cases c)
    case (Call_Tau p')
    have "inv E n X (goto t (Body p') ?w)"
      using ok l
      by (intro inv_update [OF inv t])
        (auto simp: thread_simps thread_refs_def live_tokens_def thread_ok_def dying_th_def)
    then show ?thesis using run Call_Tau by (simp add: body_step_def)
  next
    case (Call_Block p')
    have "inv E n X (detach t ?w)"
      using inv_drop [OF inv_detach [OF t inv'] _ ] ok l c co
        held_resumable [OF inv t, of c']
      by (auto simp: dying_th_def thread_refs_def detach_def)
    then have "inv E n X (scheduler_block t (Body p') ?w)"
      using l c co main by (intro inv_block [OF t]) simp_all
    then show ?thesis using run Call_Block by (simp add: body_step_def)
  qed (use t l inv' run laws in \<open>simp_all add: body_step_def inv_coroutine_initialize
      inv_sched inv_spawn_in_coroutine inv_wait_event\<close>)
qed

lemma inv_step:
  assumes laws: "env_laws E" and t: "t < n" and inv: "inv E n X w"
  shows "inv E n X (step E t w)"
proof -
  have ok: "thread_ok E (threads w t)" using inv t by (simp add: inv_def)
  show ?thesis
  proof (cases "loc (threads w t)")
    case (Ready_Push h k)
    have k: "in_scheduler k" using ok Ready_Push by (auto simp: thread_ok_def)
    then have "thread_ok E ((threads w t)\<lparr>loc := k\<rparr>)"
      using ok Ready_Push
      by (subst thread_ok_in_scheduler) (auto simp: thread_ok_def live_tokens_def)
    then have "inv E n (add_mset h X) (goto t k w)"
      using ok k Ready_Push
      by (intro inv_update [OF inv t])
        (auto simp: thread_simps thread_refs_def live_tokens_def thread_ok_def [of E "threads w t"]
          dying_th_def)
    moreover obtain co where "heap w h = Some co" "resumable co"
      using held_resumable [OF inv t, of h] Ready_Push by (auto simp: dying_th_def thread_refs_def)
    ultimately have "inv E n X (ready E t h k w)"
      using ok Ready_Push by (intro inv_ready [OF laws t]) (auto simp: thread_ok_def)
    then show ?thesis by (simp add: step_def Ready_Push)
  next
    case (Dispatch evs)
    show ?thesis
    proof (cases evs)
      case Nil
      have "inv E n X (goto t Spawn_Check w)"
        using ok Dispatch Nil
        by (intro inv_update [OF inv t])
          (auto simp: thread_simps thread_refs_def live_tokens_def thread_ok_in_scheduler)
      then show ?thesis by (simp add: step_def Dispatch Nil)
    next
      case (Cons e es)
      then show ?thesis
        using inv_handler_ready [OF laws t inv] Dispatch by (cases e) (simp add: step_def)
    qed
  qed (use laws t inv ok in \<open>simp_all add: step_def thread_ok_def inv_body_step inv_run_task_end
      inv_schedule_pop inv_schedule_idle inv_schedule_spawned\<close>)
qed

section \<open>The initial states\<close>

lemma inv_world_init:
  assumes laws: "env_laws E" and init: "world_init E u = Some w"
  shows "inv E n {#} w"
proof -
  obtain ev where ev: "el_new E = Inr ev"
    using init by (auto simp: world_init_def processor_new_def split: sum.splits option.splits)
  have "el_armed E ev = {}" using el_new_armed [OF laws ev] .
  then have th: "thread_refs E (threads w t) = {#}" "thread_ok E (threads w t)" for t
    using init ev laws
    by (auto simp: world_init_def processor_new_def processor.extend_def thread_refs_def
        live_tokens_def thread_ok_in_scheduler)
  have "bq_view E (global_queue w) = []" "heap w = Map.empty" "work_counts w = 0"
    using init ev laws by (auto simp: world_init_def processor_new_def scheduler_queue_def bq_new_view)
  then show ?thesis using th by (simp add: inv_def refs_def heap_ok_def)
qed


end
