(* ===== verification/Demo_Env.thy ===== *)
theory Demo_Env
  imports Ownership
begin

text \<open>
  One concrete instance of the packages, for any user code (\<open>demo_with\<close>), and of user code. It
  models no code of the repository: the witnesses of the properties evaluate the model on it, which shows that
  the laws assumed of the packages can be met. The queue is a list of at most 4096
  pointers, the slab an association list, the event loop reports every registered interest
  at its next poll and refuses negative descriptors, stacks are numbers, and user code is a
  list of calls whose shared data counts the calls made.
\<close>

datatype demo_call =
    D_Spawn "demo_call list" | D_Sched | D_Block | D_Panic payload | D_Wait fd

fun demo_run :: "demo_call list \<Rightarrow> nat \<Rightarrow> demo_call list call \<times> nat" where
  "demo_run [] u = (Call_Return, Suc u)"
| "demo_run (D_Spawn f # p) u = (Call_Spawn f (options_new 64) p, Suc u)"
| "demo_run (D_Sched # p) u = (Call_Sched p, Suc u)"
| "demo_run (D_Block # p) u = (Call_Block p, Suc u)"
| "demo_run (D_Panic e # p) u = (Call_Panic e, Suc u)"
| "demo_run (D_Wait fd # p) u =
     (Call_Wait fd Readable (\<lambda>r. case r of Inl _ \<Rightarrow> [] | Inr _ \<Rightarrow> p), Suc u)"

type_synonym demo_env =
  "(ptr list, (token \<times> ptr \<times> fd) list, token list, nat list, nat, demo_call list, nat) env"

type_synonym demo_world =
  "(ptr list, (token \<times> ptr \<times> fd) list, token list, nat list, nat, demo_call list, nat) world"

definition demo_with :: "('p \<Rightarrow> 'u \<Rightarrow> 'p call \<times> 'u) \<Rightarrow>
    (ptr list, (token \<times> ptr \<times> fd) list, token list, nat list, nat, 'p, 'u) env" where
  "demo_with r = \<lparr>
     bq_new = (\<lambda>n. []),
     bq_push = (\<lambda>x q. if length q < 4096 then (Inr (), q @ [x]) else (Inl x, q)),
     bq_pop = (\<lambda>q. case q of [] \<Rightarrow> (None, []) | x # q' \<Rightarrow> (Some x, q')),
     bq_view = (\<lambda>q. q),
     bq_cap = (\<lambda>q. 4096),
     slab_new = (\<lambda>n. []),
     slab_insert = (\<lambda>x sl. let tok = Suc (sum_list (map fst sl)) in (Inr tok, (tok, x) # sl)),
     slab_remove = (\<lambda>tok sl. (map_of sl tok, filter (\<lambda>e. fst e \<noteq> tok) sl)),
     slab_count = (\<lambda>sl. length (remdups (map fst sl))),
     slab_view = map_of,
     el_new = Inr [],
     el_register = (\<lambda>fd tok i ev.
       if fd < 0 then (Inl (Io_Error InvalidInput ''bad descriptor''), ev) else (Inr (), tok # ev)),
     el_deregister = (\<lambda>fd ev. (Inr (), ev)),
     el_poll = (\<lambda>ev. (Inr (map (\<lambda>tok. (tok, {Readable})) (remdups ev)), [])),
     el_armed = set,
     sp_new = [],
     sp_take = (\<lambda>n pool. case pool of [] \<Rightarrow> (unat n, []) | s # pool' \<Rightarrow> (s, pool')),
     sp_give = (\<lambda>s pool. s # pool),
     run = r\<rparr>"

definition demo :: demo_env where
  "demo = demo_with demo_run"

lemmas demo_defs = demo_def demo_with_def

lemma demo_with_run [simp]: "run (demo_with r) = r"
  by (simp add: demo_with_def)

lemma sum_list_ge: "x \<in> set xs \<Longrightarrow> x \<le> sum_list (xs :: nat list)"
  by (rule member_le_sum_list) simp_all

lemma map_of_fresh: "map_of sl (Suc (sum_list (map fst sl))) = None"
proof -
  have "Suc (sum_list (map fst sl)) \<notin> set (map fst sl)"
    using sum_list_ge by fastforce
  then show ?thesis by (simp add: map_of_eq_None_iff)
qed

lemma map_of_remove: "map_of (filter (\<lambda>e. fst e \<noteq> tok) sl) = (map_of sl)(tok := None)"
  by (induction sl) (auto simp: fun_eq_iff)

lemma demo_with_laws: "env_laws (demo_with r)"
proof -
  have "queue_laws (demo_with r)"
    by (auto simp: queue_laws_def demo_with_def split: if_splits list.splits)
  moreover have "slab_laws (demo_with r)"
    by (auto simp: slab_laws_def demo_with_def Let_def map_of_fresh map_of_remove finite_dom_map_of
        dom_map_of_conv_image_fst length_remdups_card_conv)
  moreover have "loop_laws (demo_with r)"
    by (auto simp: loop_laws_def demo_with_def comp_def image_image split: if_splits)
  ultimately show ?thesis by (simp add: env_laws_def)
qed

lemma demo_laws: "env_laws demo"
  unfolding demo_def by (rule demo_with_laws)

text \<open>The process before \<open>main\<close> spawned anything.\<close>

definition demo_init :: demo_world where
  "demo_init = the (world_init demo 0)"

lemma demo_world_init: "world_init demo 0 = Some demo_init"
  by (simp add: demo_init_def world_init_def processor_new_def demo_defs)

text \<open>The process once \<open>main\<close> spawned one coroutine for each script, with its options.\<close>

definition demo_main :: "demo_call list list \<Rightarrow> demo_world" where
  "demo_main ps = spawn_all demo (map (\<lambda>p. (p, options_new 64)) ps) demo_init"

lemma demo_started: "started demo (demo_main ps)"
  using demo_world_init by (auto simp: started_def demo_main_def)

lemma reach_steps:
  assumes "reach init (sys_step E n) w" and "t < n"
  shows "reach init (sys_step E n) ((step E t ^^ k) w)"
  using assms by (induction k) (auto intro: reach.reach_step sys_step.intros)

lemma demo_reachable: "reachable demo n ((step demo 0 ^^ k) (demo_main ps))"
  by (rule reach_steps) (auto intro: reach.reach_init demo_started simp: run_threads_def)

lemma funpow_numeral_step: "(f ^^ numeral k) x = (f ^^ pred_numeral k) (f x)"
  by (simp add: numeral_eq_Suc funpow_swap1)

lemmas demo_eval = demo_defs demo_init_def demo_main_def world_init_def processor_new_def
  scheduler_queue_def io_handler_new_def processor.extend_def option_defs step_def
  funpow_numeral_step upd_def goto_def enter_def sched_defs

end
