(* ===== verification/Safety.thy ===== *)
theory Safety
  imports Demo_Env
begin

text \<open>
  What the ownership invariant gives for every reachable state of the runtime, on any number
  of threads and under every interleaving: memory safety, exclusive execution, a work counter
  that is exact between whole steps (\<open>Atomicity\<close> refines this), and what it means that \<open>schedule\<close> returned; and the coroutines that are lost.
\<close>

section \<open>Reachable states satisfy the invariant\<close>

lemma run_threads_pos [simp]: "0 < run_threads n"
  by (simp add: run_threads_def)

lemma inv_started_spawn:
  assumes n: "0 < n" and inv: "inv E n X w" and l: "loc (threads w 0) = Loop_Top"
  shows "inv E n X (scheduler_spawn_opts E 0 f os Loop_Top w)"
    and "loc (threads (scheduler_spawn_opts E 0 f os Loop_Top w) 0) = Loop_Top"
    and "scheduler_spawn_opts E 0 f os Loop_Top w = alloc_spawned E 0 f os w"
proof -
  have "thread_ok E (threads w 0)" using inv n by (simp add: inv_def)
  then have c: "cur_running (threads w 0) = None" using l by (simp add: thread_ok_in_scheduler)
  show 1: "scheduler_spawn_opts E 0 f os Loop_Top w = alloc_spawned E 0 f os w"
    by (rule spawn_outside [OF l c])
  show "inv E n X (scheduler_spawn_opts E 0 f os Loop_Top w)"
    by (rule inv_spawn_outside [OF n inv l c])
  obtain sp where "threads (alloc_spawned E 0 f os w) 0 =
      (threads w 0)\<lparr>stack_pool := sp, new_spawned := Some (next_ptr w)\<rparr>"
    using alloc_spawned_thread [of E 0 f os w] by blast
  then show "loc (threads (scheduler_spawn_opts E 0 f os Loop_Top w) 0) = Loop_Top"
    by (simp add: 1 l)
qed

lemma inv_spawn_all:
  assumes n: "0 < n" and "inv E n X w" and "loc (threads w 0) = Loop_Top"
  shows "inv E n X (spawn_all E fs w) \<and> loc (threads (spawn_all E fs w) 0) = Loop_Top"
  using assms(2,3)
proof (induction fs arbitrary: w)
  case Nil
  then show ?case by simp
next
  case (Cons x fs)
  obtain f os where x: "x = (f, os)" by fastforce
  show ?case
    unfolding x spawn_all.simps
    by (rule Cons.IH) (rule inv_started_spawn [OF n Cons.prems])+
qed

lemma world_init_loc: "world_init E u = Some w \<Longrightarrow> loc (threads w t) = Loop_Top"
  by (auto simp: world_init_def processor.extend_def split: option.splits)

lemma inv_sys_step:
  "env_laws E \<Longrightarrow> sys_step E n w w' \<Longrightarrow> inv E n X w \<Longrightarrow> inv E n X w'"
  by (auto elim!: sys_step.cases intro: inv_step)

lemma reachable_inv:
  assumes laws: "env_laws E" and "reachable E n w"
  shows "inv E (run_threads n) {#} w"
  using assms(2)
proof (rule reach_invariant)
  fix s assume "started E s"
  then show "inv E (run_threads n) {#} s"
    using inv_spawn_all [OF run_threads_pos inv_world_init [OF laws] world_init_loc]
    by (auto simp: started_def)
qed (rule inv_sys_step [OF laws])

lemma reachable_thread_ok:
  "env_laws E \<Longrightarrow> reachable E n w \<Longrightarrow> t < run_threads n \<Longrightarrow> thread_ok E (threads w t)"
  using reachable_inv [of E n w] by (simp add: inv_def)

section \<open>Memory safety and exclusive execution\<close>

text \<open>C1. In every reachable state, on every thread: the runtime never follows a coroutine
  pointer that is not allocated and never swaps to an empty context, so no thread is ever in
  undefined behaviour.\<close>

theorem memory_safety:
  assumes "env_laws E" and "reachable E n w" and "t < run_threads n"
  shows "loc (threads w t) \<noteq> Crash"
  using reachable_thread_ok [OF assms] by (auto simp: thread_ok_def)

theorem memory_safety_witness:
  "loc (threads ((step demo 0 ^^ 6) (demo_main [[D_Spawn [D_Wait 3], D_Sched]])) 0) \<noteq> Crash"
  by (rule memory_safety [OF demo_laws demo_reachable [of 1]]) simp

text \<open>C2. A coroutine that runs on one thread runs on no other, is not in the global queue,
  and is no thread's newly spawned one: no two threads ever execute one coroutine.\<close>

theorem running_exclusive:
  assumes laws: "env_laws E" and w: "reachable E n w" and i: "i < run_threads n"
    and c: "cur_running (threads w i) = Some c"
  shows "c \<notin> set (bq_view E (global_queue w)) \<and>
    (\<forall>j<run_threads n. new_spawned (threads w j) \<noteq> Some c \<and>
       (cur_running (threads w j) = Some c \<longrightarrow> j = i))"
proof -
  let ?n = "run_threads n"
  have inv: "inv E ?n {#} w" by (rule reachable_inv [OF laws w])
  have one: "count (refs E ?n w) c \<le> 1" using inv by (simp add: inv_def)
  have here: "1 \<le> count (thread_refs E (threads w i)) c"
    using c by (simp add: thread_refs_def)
  have "c \<notin># mset (bq_view E (global_queue w)) + others E ?n i w"
    using one here unfolding refs_split [OF i] count_union not_in_iff by linarith
  moreover have "c \<in># others E ?n i w" if "j < ?n" "j \<noteq> i"
      "new_spawned (threads w j) = Some c \<or> cur_running (threads w j) = Some c" for j
    using that by (force simp: others_def sum_mset_member thread_refs_def)
  moreover have "new_spawned (threads w i) \<noteq> Some c"
  proof
    assume "new_spawned (threads w i) = Some c"
    then have "2 \<le> count (thread_refs E (threads w i)) c" using c by (simp add: thread_refs_def)
    then show False using one unfolding refs_split [OF i] count_union by linarith
  qed
  ultimately show ?thesis by auto
qed

theorem running_exclusive_witness:
  "cur_running (threads ((step demo 0 ^^ 3) (demo_main [[D_Sched]])) 0) = Some 0 \<and>
   0 \<notin> set (bq_view demo (global_queue ((step demo 0 ^^ 3) (demo_main [[D_Sched]]))))"
proof -
  have c: "cur_running (threads ((step demo 0 ^^ 3) (demo_main [[D_Sched]])) 0) = Some 0"
    by (simp add: demo_eval)
  show ?thesis using running_exclusive [OF demo_laws demo_reachable [of 2] _ c] c by simp
qed

lemma queue_distinct:
  assumes inv: "inv E n {#} w" and n: "0 < n"
  shows "distinct (bq_view E (global_queue w))"
proof -
  have "count (mset (bq_view E (global_queue w))) h \<le> 1" for h
  proof -
    have "count (refs E n w) h \<le> 1" using inv by (simp add: inv_def)
    then show ?thesis unfolding refs_split [OF n] count_union by linarith
  qed
  then show ?thesis
    by (simp add: distinct_count_atmost_1 count_mset le_Suc_eq)
       (metis count_mset count_mset_0_iff count_list_0_iff le_Suc_eq One_nat_def)
qed

text \<open>The global queue never holds a coroutine twice, and every coroutine in it is
  allocated and suspended inside its own code, ready to be swapped in.\<close>

lemma queue_sound:
  assumes laws: "env_laws E" and w: "reachable E n w"
  shows "distinct (bq_view E (global_queue w)) \<and>
    (\<forall>h \<in> set (bq_view E (global_queue w)).
       \<exists>co p. heap w h = Some co \<and> ctx co = Some (Body p))"
proof -
  let ?n = "run_threads n" and ?q = "bq_view E (global_queue w)"
  have inv: "inv E ?n {#} w" by (rule reachable_inv [OF laws w])
  have n: "0 < ?n" by simp
  have one: "count (refs E ?n w) h \<le> 1" for h using inv by (simp add: inv_def)
  have "distinct ?q" by (rule queue_distinct [OF inv n])
  moreover have "\<exists>co p. heap w h = Some co \<and> ctx co = Some (Body p)" if h: "h \<in> set ?q" for h
  proof -
    have "\<not> dying_th (threads w 0) h"
    proof
      assume "dying_th (threads w 0) h"
      then have "1 \<le> count (thread_refs E (threads w 0)) h"
        by (simp add: dying_th_def thread_refs_def)
      moreover have "1 \<le> count (mset ?q) h"
        using h by (simp only: count_greater_eq_one_iff set_mset_mset)
      ultimately show False
        using one [of h] unfolding refs_split [OF n] count_union by linarith
    qed
    then obtain co where "heap w h = Some co" "resumable co"
      using held_resumable [OF inv n, of h] h by auto
    then show ?thesis by (auto simp: resumable_def split: option.splits loc.splits)
  qed
  ultimately show ?thesis by blast
qed

lemma queue_sound_example:
  "bq_view demo (global_queue ((step demo 0 ^^ 6) (demo_main [[D_Spawn [D_Wait 3], D_Sched]])))
     = [0] \<and>
   (\<exists>co p. heap ((step demo 0 ^^ 6) (demo_main [[D_Spawn [D_Wait 3], D_Sched]])) 0 = Some co \<and>
     ctx co = Some (Body p))"
proof -
  have q: "bq_view demo (global_queue
      ((step demo 0 ^^ 6) (demo_main [[D_Spawn [D_Wait 3], D_Sched]]))) = [0]"
    by (simp add: demo_eval)
  show ?thesis
    using queue_sound [OF demo_laws demo_reachable [of 1 6 "[[D_Spawn [D_Wait 3], D_Sched]]"]] q
    by simp
qed

text \<open>Between whole steps \<open>work_counts\<close> is, as a machine word, the number of coroutines that are
  allocated. \<open>Atomicity\<close> has the count in the middle of \<open>finished\<close> and \<open>spawn_opts\<close>.\<close>

lemma work_counts_exact:
  assumes "env_laws E" and "reachable E n w"
  shows "work_count w = of_nat (card (dom (heap w)))"
  using reachable_inv [OF assms] by (simp add: inv_def heap_ok_def work_count_def)

lemma work_counts_exact_example:
  "work_count (demo_main [[D_Sched], [D_Sched]]) = 2 \<and>
   card (dom (heap (demo_main [[D_Sched], [D_Sched]]))) = 2"
proof -
  have "work_count (demo_main [[D_Sched], [D_Sched]]) =
      of_nat (card (dom (heap (demo_main [[D_Sched], [D_Sched]]))))"
    using work_counts_exact [OF demo_laws demo_reachable [of 1 0]] by simp
  moreover have "card (dom (heap (demo_main [[D_Sched], [D_Sched]]))) = 2"
    by (simp add: demo_eval)
  ultimately show ?thesis by simp
qed

text \<open>The closing loop of \<open>coroutine_initialize\<close> is never executed: once a coroutine has
  handed over its final result, no thread resumes it.\<close>

lemma epilogue_never_runs:
  assumes "env_laws E" and "reachable E n w" and "t < run_threads n"
  shows "loc (threads w t) \<noteq> Epilogue st"
  using reachable_thread_ok [OF assms] by (auto simp: thread_ok_def)

end
