(* ===== verification/Step_Frame.thy ===== *)
theory Step_Frame
  imports Safety
begin

text \<open>
  What the operations leave alone: other threads, and the coroutine heap except where user
  code spawns or a coroutine is freed; and where a step can leave its thread's control.
\<close>

section \<open>Frame facts\<close>

lemma enter_frame [simp]:
  "global_queue (enter t c w) = global_queue w" "work_counts (enter t c w) = work_counts w"
  "heap (enter t c w) = heap w" "next_ptr (enter t c w) = next_ptr w" "user (enter t c w) = user w"
  by (simp_all add: enter_def)

lemma threads_enter_other [simp]: "i \<noteq> t \<Longrightarrow> threads (enter t c w) i = threads w i"
  by (simp add: enter_def goto_def)

lemma threads_goto_other [simp]: "i \<noteq> t \<Longrightarrow> threads (goto t l w) i = threads w i"
  by (simp add: goto_def)

lemma resume_frame [frame]:
  "heap (resume t h w) = heap w" "next_ptr (resume t h w) = next_ptr w"
  "work_counts (resume t h w) = work_counts w"
  by (simp_all add: resume_def split_beta split: option.split)

lemma ready_frame [frame]:
  "heap (ready E t h k w) = heap w" "next_ptr (ready E t h k w) = next_ptr w"
  "work_counts (ready E t h k w) = work_counts w"
  by (simp_all add: ready_def split: prod.split sum.split)

lemma co_drop_frame [frame]:
  "heap (co_drop E t c w) = heap w" "next_ptr (co_drop E t c w) = next_ptr w"
  by (simp_all add: co_drop_def split: option.split)

lemma finished_frame [frame]:
  "dom (heap (finished E t h k w)) = dom (heap w) - {h}"
  "next_ptr (finished E t h k w) = next_ptr w"
  by (auto simp: finished_defs Let_def frame split: option.split)

lemma yield_to_main_frame [frame]:
  "dom (heap (yield_to_main t c k w)) = dom (heap w)"
  "next_ptr (yield_to_main t c k w) = next_ptr w"
  by (auto simp: yield_to_main_def split_beta split: option.split)

lemma yield_with_frame [frame]:
  "dom (heap (yield_with r t k w)) = dom (heap w)"
  "next_ptr (yield_with r t k w) = next_ptr w"
  by (auto simp: yield_with_def frame split: option.split)

lemma coroutine_initialize_frame [frame]:
  "dom (heap (coroutine_initialize ret t w)) = dom (heap w)"
  "next_ptr (coroutine_initialize ret t w) = next_ptr w"
  by (simp_all add: coroutine_initialize_def split_beta frame)

lemma spawn_next_ptr [frame]:
  "next_ptr (scheduler_spawn_opts E t f os k w) = Suc (next_ptr w)"
  by (simp add: scheduler_spawn_opts_alt sched_is_yield_with frame)

lemma wait_event_next_ptr [frame]: "next_ptr (wait_event E t fd i k w) = next_ptr w"
  by (simp add: wait_event_def frame scheduler_block_def block_is_yield_with
      split: option.split prod.split sum.split)

lemma body_step_next_ptr: "next_ptr w \<le> next_ptr (body_step E t p w)"
  by (simp add: body_step_def split_beta Let_def frame scheduler_block_def block_is_yield_with
      scheduler_sched_def sched_is_yield_with split: call.split)

lemma run_task_end_heap [frame]:
  "dom (heap (run_task_end E t h w)) \<subseteq> dom (heap w)"
  "next_ptr (run_task_end E t h w) = next_ptr w"
  by (auto simp: run_task_end_def Let_def frame simp del: dom_eq_empty_conv
      split: sum.split co_state.split)

lemma handler_ready_heap [frame]:
  "heap (handler_ready E t tok evs w) = heap w"
  "next_ptr (handler_ready E t tok evs w) = next_ptr w"
  by (simp_all add: handler_ready_def frame split: prod.split option.split sum.split)

lemma schedule_heap [frame]:
  "heap (schedule_pop E t w) = heap w" "next_ptr (schedule_pop E t w) = next_ptr w"
  "heap (schedule_idle E t w) = heap w" "next_ptr (schedule_idle E t w) = next_ptr w"
  "heap (schedule_spawned t w) = heap w" "next_ptr (schedule_spawned t w) = next_ptr w"
  by (simp_all add: schedule_pop_def schedule_idle_def schedule_spawned_def frame
      split: prod.split option.split sum.split)

lemma thread_step_next_ptr: "next_ptr w \<le> next_ptr (thread_step E t l w)"
  by (induction E t l w rule: thread_step.induct)
    (simp_all add: frame body_step_next_ptr coroutine_epilogue_def)

lemma step_next_ptr: "next_ptr w \<le> next_ptr (step E t w)"
  by (simp add: step_def thread_step_next_ptr)

text \<open>Only user code allocates.\<close>

lemma thread_step_heap_subset:
  "(\<And>p. l \<noteq> Body p) \<Longrightarrow> dom (heap (thread_step E t l w)) \<subseteq> dom (heap w)"
  by (induction E t l w rule: thread_step.induct)
    (auto simp: frame coroutine_epilogue_def simp del: not_None_eq)

lemma step_heap_subset:
  "(\<And>p. loc (threads w t) \<noteq> Body p) \<Longrightarrow> dom (heap (step E t w)) \<subseteq> dom (heap w)"
  by (simp add: step_def thread_step_heap_subset)

section \<open>Where a step leaves its thread\<close>

lemma yield_to_main_other [frame]: "i \<noteq> t \<Longrightarrow> threads (yield_to_main t c k w) i = threads w i"
  by (simp add: yield_to_main_def split_beta split: option.split)

lemma yield_with_other [frame]: "i \<noteq> t \<Longrightarrow> threads (yield_with r t k w) i = threads w i"
  by (simp add: yield_with_def frame split: option.split)

lemma resume_other [frame]: "i \<noteq> t \<Longrightarrow> threads (resume t h w) i = threads w i"
  by (simp add: resume_def split_beta split: option.split)

lemma ready_other [frame]: "i \<noteq> t \<Longrightarrow> threads (ready E t h k w) i = threads w i"
  by (simp add: ready_def split: prod.split sum.split)

lemma finished_other [frame]: "i \<noteq> t \<Longrightarrow> threads (finished E t h k w) i = threads w i"
  by (simp add: finished_defs Let_def co_drop_def split: option.split)

lemma spawn_other [frame]: "i \<noteq> t \<Longrightarrow> threads (scheduler_spawn_opts E t f os k w) i = threads w i"
  by (simp add: scheduler_spawn_opts_alt sched_is_yield_with frame)

lemma coroutine_initialize_other [frame]:
  "i \<noteq> t \<Longrightarrow> threads (coroutine_initialize ret t w) i = threads w i"
  by (simp add: coroutine_initialize_def split_beta frame)

lemma wait_event_other [frame]: "i \<noteq> t \<Longrightarrow> threads (wait_event E t fd j k w) i = threads w i"
  by (simp add: wait_event_def frame scheduler_block_def block_is_yield_with
      split: option.split prod.split sum.split)

lemma body_step_other [frame]: "i \<noteq> t \<Longrightarrow> threads (body_step E t p w) i = threads w i"
  by (simp add: body_step_def split_beta Let_def frame scheduler_block_def block_is_yield_with
      scheduler_sched_def sched_is_yield_with split: call.split)

lemma run_task_end_other [frame]: "i \<noteq> t \<Longrightarrow> threads (run_task_end E t h w) i = threads w i"
  by (simp add: run_task_end_def Let_def frame split: sum.split co_state.split)

lemma schedule_other [frame]:
  "i \<noteq> t \<Longrightarrow> threads (schedule_pop E t w) i = threads w i"
  "i \<noteq> t \<Longrightarrow> threads (schedule_idle E t w) i = threads w i"
  "i \<noteq> t \<Longrightarrow> threads (schedule_spawned t w) i = threads w i"
  "i \<noteq> t \<Longrightarrow> threads (handler_ready E t tok evs w) i = threads w i"
  by (simp_all add: schedule_pop_def schedule_idle_def schedule_spawned_def handler_ready_def frame
      split: prod.split option.split sum.split)

text \<open>A thread touches no other thread's processor, stack pool or control.\<close>

lemma step_other: "i \<noteq> t \<Longrightarrow> threads (step E t w) i = threads w i"
proof -
  have "i \<noteq> t \<Longrightarrow> threads (thread_step E t l w) i = threads w i" for l
    by (induction E t l w rule: thread_step.induct) (simp_all add: frame coroutine_epilogue_def)
  then show "i \<noteq> t \<Longrightarrow> threads (step E t w) i = threads w i" by (simp add: step_def)
qed

lemma loc_goto [simp]: "loc (threads (goto t l w) t) = l"
  by (simp add: goto_def)

lemma loc_enter [simp]:
  "loc (threads (enter t c w) t) = (case c of None \<Rightarrow> Crash | Some l \<Rightarrow> l)"
  by (simp add: enter_def)

lemma ready_loc: "k \<noteq> Stopped r \<Longrightarrow> loc (threads (ready E t h k w) t) \<noteq> Stopped r"
  by (auto simp: ready_def split: prod.split sum.split)

lemma finished_loc: "k \<noteq> Stopped r \<Longrightarrow> loc (threads (finished E t h k w) t) \<noteq> Stopped r"
  by (auto simp: finished_defs Let_def split: option.split)

lemma resumable_iff: "resumable co \<longleftrightarrow> (\<exists>p. ctx co = Some (Body p))"
  by (auto simp: resumable_def split: option.splits loc.splits)

end
