(* ===== verification/Step_Effects.thy ===== *)
theory Step_Effects
  imports Step_Frame
begin

text \<open>
  The steps of a thread as an operational semantics: one rule for each thing that can happen
  in a reachable state, with what the laws of the packages say of the new state as premises.
  The invariants below are proved by cases on these rules.
\<close>

section \<open>The runtime as an operational semantics\<close>

text \<open>The thread \<open>t\<close> is handed the coroutine \<open>h\<close>, whose code goes on at \<open>p\<close>.\<close>

definition entered ::
  "tid \<Rightarrow> ptr \<Rightarrow> 'p \<Rightarrow>
   ('q, 'sl, 'ev, 'pl, 'stk, 'p, 'u) world \<Rightarrow> ('q, 'sl, 'ev, 'pl, 'stk, 'p, 'u) world" where
  "entered t h p = upd t (\<lambda>th. th\<lparr>cur_running := Some h,
     main_coro := (main_coro th)\<lparr>ctx := Some (After_Resume h)\<rparr>, loc := Body p\<rparr>)"

text \<open>Setting fields of a thread's I/O state.\<close>

definition with_io ::
  "tid \<Rightarrow> 'sl \<Rightarrow> 'ev \<Rightarrow>
   ('q, 'sl, 'ev, 'pl, 'stk, 'p, 'u) world \<Rightarrow> ('q, 'sl, 'ev, 'pl, 'stk, 'p, 'u) world" where
  "with_io t sl ev = upd t (\<lambda>th. th\<lparr>slabs := sl, event_loop := ev\<rparr>)"

lemma with_io_simps [simp]:
  "threads (with_io t sl ev w) t = (threads w t)\<lparr>slabs := sl, event_loop := ev\<rparr>"
  "i \<noteq> t \<Longrightarrow> threads (with_io t sl ev w) i = threads w i"
  "global_queue (with_io t sl ev w) = global_queue w" "heap (with_io t sl ev w) = heap w"
  "next_ptr (with_io t sl ev w) = next_ptr w" "user (with_io t sl ev w) = user w"
  "work_counts (with_io t sl ev w) = work_counts w"
  by (simp_all add: with_io_def)

inductive effect ::
  "('q, 'sl, 'ev, 'pl, 'stk, 'p, 'u) env \<Rightarrow> tid \<Rightarrow>
   ('q, 'sl, 'ev, 'pl, 'stk, 'p, 'u) world \<Rightarrow> ('q, 'sl, 'ev, 'pl, 'stk, 'p, 'u) world \<Rightarrow> bool"
  for E t where
  tau: "loc (threads w t) = Body p \<Longrightarrow> cur_running (threads w t) = Some c \<Longrightarrow>
    run E p (user w) = (Call_Tau p', u) \<Longrightarrow>
    effect E t w (goto t (Body p') (w\<lparr>user := u\<rparr>))"
| return: "loc (threads w t) = Body p \<Longrightarrow> cur_running (threads w t) = Some c \<Longrightarrow> heap w c = Some co \<Longrightarrow>
    run E p (user w) = (Call_Return, u) \<Longrightarrow>
    effect E t w (yielded (Inr Finished) t c (Epilogue Finished) (After_Resume c) (w\<lparr>user := u\<rparr>))"
| panic: "loc (threads w t) = Body p \<Longrightarrow> cur_running (threads w t) = Some c \<Longrightarrow> heap w c = Some co \<Longrightarrow>
    run E p (user w) = (Call_Panic e, u) \<Longrightarrow>
    effect E t w (yielded (Inl (Panicking e)) t c (Epilogue Panicked) (After_Resume c)
      (w\<lparr>user := u\<rparr>))"
| spawn: "loc (threads w t) = Body p \<Longrightarrow> cur_running (threads w t) = Some c \<Longrightarrow> heap w c = Some co \<Longrightarrow>
    run E p (user w) = (Call_Spawn f os p', u) \<Longrightarrow>
    effect E t w (yielded (Inr Suspended) t c (Body p') (After_Resume c)
      (alloc_spawned E t f os (w\<lparr>user := u\<rparr>)))"
| sched: "loc (threads w t) = Body p \<Longrightarrow> cur_running (threads w t) = Some c \<Longrightarrow> heap w c = Some co \<Longrightarrow>
    run E p (user w) = (Call_Sched p', u) \<Longrightarrow>
    effect E t w (yielded (Inr Suspended) t c (Body p') (After_Resume c) (w\<lparr>user := u\<rparr>))"
| block: "loc (threads w t) = Body p \<Longrightarrow> cur_running (threads w t) = Some c \<Longrightarrow> heap w c = Some co \<Longrightarrow>
    run E p (user w) = (Call_Block p', u) \<Longrightarrow>
    effect E t w (yielded (Inr Blocked) t c (Body p') (After_Resume c) (w\<lparr>user := u\<rparr>))"
| wait_full: "loc (threads w t) = Body p \<Longrightarrow> cur_running (threads w t) = Some c \<Longrightarrow> heap w c = Some co \<Longrightarrow>
    run E p (user w) = (Call_Wait fd i k, u) \<Longrightarrow>
    slab_insert E (c, fd) (slabs (threads w t)) = (Inl y, sl) \<Longrightarrow>
    slab_view E sl = slab_view E (slabs (threads w t)) \<Longrightarrow>
    effect E t w (yielded (Inl (Panicking e)) t c (Epilogue Panicked) (After_Resume c)
      (with_io t sl (event_loop (threads w t)) (w\<lparr>user := u\<rparr>)))"
| wait_refused: "loc (threads w t) = Body p \<Longrightarrow> cur_running (threads w t) = Some c \<Longrightarrow> heap w c = Some co \<Longrightarrow>
    run E p (user w) = (Call_Wait fd i k, u) \<Longrightarrow>
    slab_view E (slabs (threads w t)) tok = None \<Longrightarrow>
    slab_view E sl = (slab_view E (slabs (threads w t)))(tok \<mapsto> (c, fd)) \<Longrightarrow>
    el_register E fd tok i (event_loop (threads w t)) = (Inl e, ev) \<Longrightarrow>
    el_armed E ev = el_armed E (event_loop (threads w t)) \<Longrightarrow>
    effect E t w (goto t (Body (k (Inl e))) (with_io t sl ev (w\<lparr>user := u\<rparr>)))"
| wait: "loc (threads w t) = Body p \<Longrightarrow> cur_running (threads w t) = Some c \<Longrightarrow> heap w c = Some co \<Longrightarrow>
    run E p (user w) = (Call_Wait fd i k, u) \<Longrightarrow>
    slab_view E (slabs (threads w t)) tok = None \<Longrightarrow>
    slab_view E sl = (slab_view E (slabs (threads w t)))(tok \<mapsto> (c, fd)) \<Longrightarrow>
    el_register E fd tok i (event_loop (threads w t)) = (Inr (), ev) \<Longrightarrow>
    el_armed E ev = insert tok (el_armed E (event_loop (threads w t))) \<Longrightarrow>
    effect E t w (yielded (Inr Blocked) t c (Body (k (Inr ()))) (After_Resume c)
      (with_io t sl ev (w\<lparr>user := u\<rparr>)))"
| suspended: "loc (threads w t) = After_Resume h \<Longrightarrow>
    last_result (threads w t) = Some (Inr Suspended) \<Longrightarrow>
    effect E t w (ready E t h Spawn_Check (upd t (\<lambda>th. th\<lparr>last_result := None\<rparr>) w))"
| blocked: "loc (threads w t) = After_Resume h \<Longrightarrow>
    last_result (threads w t) = Some (Inr Blocked) \<Longrightarrow>
    effect E t w (goto t Spawn_Check (upd t (\<lambda>th. th\<lparr>last_result := None\<rparr>) w))"
| ended: "loc (threads w t) = After_Resume h \<Longrightarrow> dying_th (threads w t) h \<Longrightarrow>
    heap w h = Some co \<Longrightarrow>
    effect E t w (finished E t h Spawn_Check (upd t (\<lambda>th. th\<lparr>last_result := None\<rparr>) w))"
| push: "loc (threads w t) = Ready_Push h k \<Longrightarrow> k = Spawn_Check \<or> (\<exists>evs. k = Dispatch evs) \<Longrightarrow>
    effect E t w (ready E t h k w)"
| pop: "loc (threads w t) = Loop_Top \<Longrightarrow>
    bq_view E (global_queue w) = h # bq_view E q \<Longrightarrow>
    heap w h = Some co \<Longrightarrow> ctx co = Some (Body p) \<Longrightarrow>
    effect E t w (entered t h p (w\<lparr>global_queue := q\<rparr>))"
| pop_none: "loc (threads w t) = Loop_Top \<Longrightarrow>
    bq_view E q = bq_view E (global_queue w) \<Longrightarrow>
    effect E t w (goto t Idle (w\<lparr>global_queue := q\<rparr>))"
| poll_error: "loc (threads w t) = Idle \<Longrightarrow> dom (slab_view E (slabs (threads w t))) \<noteq> {} \<Longrightarrow>
    el_armed E ev \<subseteq> el_armed E (event_loop (threads w t)) \<Longrightarrow>
    effect E t w (goto t (Stopped (Inl e)) (with_io t (slabs (threads w t)) ev w))"
| poll: "loc (threads w t) = Idle \<Longrightarrow> dom (slab_view E (slabs (threads w t))) \<noteq> {} \<Longrightarrow>
    set (map fst evs) \<subseteq> el_armed E (event_loop (threads w t)) \<Longrightarrow>
    el_armed E ev = el_armed E (event_loop (threads w t)) - set (map fst evs) \<Longrightarrow>
    effect E t w (goto t (Dispatch evs) (with_io t (slabs (threads w t)) ev w))"
| stop: "loc (threads w t) = Idle \<Longrightarrow> dom (slab_view E (slabs (threads w t))) = {} \<Longrightarrow>
    work_counts w = 0 \<Longrightarrow> effect E t w (goto t (Stopped (Inr ())) w)"
| sleep: "loc (threads w t) = Idle \<Longrightarrow> dom (slab_view E (slabs (threads w t))) = {} \<Longrightarrow>
    work_counts w \<noteq> 0 \<Longrightarrow> effect E t w (goto t Spawn_Check w)"
| dispatched: "loc (threads w t) = Dispatch [] \<Longrightarrow> effect E t w (goto t Spawn_Check w)"
| stray: "loc (threads w t) = Dispatch ((tok, es) # evs) \<Longrightarrow>
    slab_view E (slabs (threads w t)) tok = None \<Longrightarrow>
    slab_view E sl = slab_view E (slabs (threads w t)) \<Longrightarrow>
    effect E t w (goto t (Dispatch evs) (with_io t sl (event_loop (threads w t)) w))"
| abort: "loc (threads w t) = Dispatch ((tok, es) # evs) \<Longrightarrow>
    slab_view E (slabs (threads w t)) tok = Some (h, fd) \<Longrightarrow>
    slab_view E sl = (slab_view E (slabs (threads w t)))(tok := None) \<Longrightarrow>
    el_armed E ev \<subseteq> el_armed E (event_loop (threads w t)) \<Longrightarrow>
    effect E t w (goto t Aborted (with_io t sl ev w))"
| event: "loc (threads w t) = Dispatch ((tok, es) # evs) \<Longrightarrow>
    slab_view E (slabs (threads w t)) tok = Some (h, fd) \<Longrightarrow>
    slab_view E sl = (slab_view E (slabs (threads w t)))(tok := None) \<Longrightarrow>
    el_armed E ev \<subseteq> el_armed E (event_loop (threads w t)) \<Longrightarrow>
    effect E t w (ready E t h (Dispatch evs) (with_io t sl ev w))"
| no_spawned: "loc (threads w t) = Spawn_Check \<Longrightarrow> new_spawned (threads w t) = None \<Longrightarrow>
    effect E t w (goto t Loop_Top w)"
| spawned: "loc (threads w t) = Spawn_Check \<Longrightarrow> new_spawned (threads w t) = Some h \<Longrightarrow>
    heap w h = Some co \<Longrightarrow> ctx co = Some (Body p) \<Longrightarrow>
    effect E t w (entered t h p (upd t (\<lambda>th. th\<lparr>new_spawned := None\<rparr>) w))"
| halted: "(\<exists>r. loc (threads w t) = Stopped r) \<or> loc (threads w t) = Aborted \<Longrightarrow> effect E t w w"

text \<open>What user code does, from a state where it runs.\<close>

definition runs_in ::
  "ptr \<Rightarrow> tid \<Rightarrow> ('q, 'sl, 'ev, 'pl, 'stk, 'p, 'u) world \<Rightarrow> bool" where
  "runs_in c t w \<longleftrightarrow> cur_running (threads w t) = Some c \<and> heap w c \<noteq> None \<and>
     ctx (main_coro (threads w t)) = Some (After_Resume c)"

lemma yield_running:
  "runs_in c t w \<Longrightarrow> yield_with r t k w = yielded r t c k (After_Resume c) w"
  using yield_with.inside by (auto simp: runs_in_def)

lemma initialize_running:
  "runs_in c t w \<Longrightarrow> coroutine_initialize ret t w =
     yielded (fst (initialize_outcome ret)) t c (Epilogue (snd (initialize_outcome ret))) (After_Resume c) w"
  by (simp add: coroutine_initialize_def split_beta yield_running)

lemma runs_in_io [simp]: "runs_in c t (with_io t sl ev w) = runs_in c t w"
  by (simp add: runs_in_def)

lemma runs_in_user [simp]: "runs_in c t (w\<lparr>user := u\<rparr>) = runs_in c t w"
  by (simp add: runs_in_def)

lemma body_runs:
  assumes inv: "inv E n X w" and t: "t < n" and l: "loc (threads w t) = Body p"
  obtains c co where "cur_running (threads w t) = Some c" "heap w c = Some co" "runs_in c t w"
proof -
  have ok: "thread_ok E (threads w t)" using inv t by (simp add: inv_def)
  obtain c where c: "cur_running (threads w t) = Some c"
    and main: "ctx (main_coro (threads w t)) = Some (After_Resume c)"
    using thread_okD_Body [OF ok l] by blast
  obtain co where "heap w c = Some co" using inv_cur_alloc [OF inv t c] by blast
  then show ?thesis using that c main by (simp add: runs_in_def)
qed

lemmas call_defs = body_step_def wait_event_def running_def scheduler_block_def scheduler_sched_def
  block_is_yield_with sched_is_yield_with initialize_outcome_def

lemma wait_effect:
  assumes laws: "env_laws E" and l: "loc (threads w t) = Body p"
    and c: "cur_running (threads w t) = Some c" and co: "heap w c = Some co"
    and r: "runs_in c t w" and run: "run E p (user w) = (Call_Wait fd i k, u)"
  shows "effect E t w (body_step E t p w)"
proof -
  obtain r' sl where ins: "slab_insert E (c, fd) (slabs (threads w t)) = (r', sl)" by fastforce
  show ?thesis
  proof (cases r')
    case (Inl x)
    have "upd t (\<lambda>th. th\<lparr>slabs := sl\<rparr>) (w\<lparr>user := u\<rparr>) =
        with_io t sl (event_loop (threads w t)) (w\<lparr>user := u\<rparr>)"
      by (simp add: with_io_def upd_def)
    then show ?thesis
      using effect.wait_full [OF l c co run ins [unfolded Inl], of "''unwrap on Err''"]
        slab_insert_Inl [OF laws ins [unfolded Inl]] run ins Inl c r
      by (simp add: call_defs initialize_running)
  next
    case (Inr tok)
    obtain q ev where reg: "el_register E fd tok i (event_loop (threads w t)) = (q, ev)" by fastforce
    have view: "slab_view E (slabs (threads w t)) tok = None"
      "slab_view E sl = (slab_view E (slabs (threads w t)))(tok \<mapsto> (c, fd))"
      using slab_insert_Inr [OF laws ins [unfolded Inr]] by blast+
    note s = call_defs with_io_def [symmetric] yield_running
    show ?thesis
    proof (cases q)
      case Err: (Inl e)
      then show ?thesis
        using effect.wait_refused [OF l c co run view reg [unfolded Err]]
          el_register_Inl [OF laws reg [unfolded Err]] run ins Inr c reg by (simp add: s)
    next
      case Ok: (Inr x)
      then show ?thesis
        using effect.wait [OF l c co run view reg [unfolded Ok, simplified]]
          el_register_Inr [OF laws reg [unfolded Ok]] run ins Inr c reg r by (simp add: s)
    qed
  qed
qed

lemma body_effect:
  assumes laws: "env_laws E" and inv: "inv E n X w" and t: "t < n"
    and l: "loc (threads w t) = Body p"
  shows "effect E t w (body_step E t p w)"
proof -
  obtain c co where c: "cur_running (threads w t) = Some c" and co: "heap w c = Some co"
    and r: "runs_in c t w"
    using body_runs [OF inv t l] .
  obtain q u where run: "run E p (user w) = (q, u)" by fastforce
  note s = call_defs initialize_running [of c] yield_running [of c]
  show ?thesis
  proof (cases q)
    case (Call_Spawn f os p')
    have "runs_in c t (alloc_spawned E t f os (w\<lparr>user := u\<rparr>))"
      using r alloc_spawned_thread [of E t f os "w\<lparr>user := u\<rparr>"]
        alloc_spawned_heap [of E t f os "w\<lparr>user := u\<rparr>"] by (auto simp: runs_in_def)
    then show ?thesis
      using effect.spawn [OF l c co run [unfolded Call_Spawn]] run Call_Spawn
      by (simp add: s scheduler_spawn_opts_alt)
  next
    case (Call_Wait fd i k)
    show ?thesis by (rule wait_effect [OF laws l c co r run [unfolded Call_Wait]])
  next
    case (Call_Tau p')
    then show ?thesis using effect.tau [OF l c] run by (simp add: s)
  next
    case Call_Return
    then show ?thesis using effect.return [OF l c co] run r by (simp add: s)
  next
    case (Call_Panic e)
    then show ?thesis using effect.panic [OF l c co] run r by (simp add: s)
  next
    case (Call_Sched p')
    then show ?thesis using effect.sched [OF l c co] run r by (simp add: s)
  next
    case (Call_Block p')
    then show ?thesis using effect.block [OF l c co] run r by (simp add: s)
  qed
qed

lemma resume_entered:
  assumes "heap w h = Some co" and "ctx co = Some (Body p)"
  shows "resume t h w = entered t h p w"
  using assms by (simp add: resume_def yield_to_def entered_def enter_def goto_def upd_def)

text \<open>What the scheduler does at each of its locations.\<close>

lemma held_effect:
  assumes inv: "inv E n X w" and t: "t < n"
    and h: "h \<in># mset (bq_view E (global_queue w)) + thread_refs E (threads w t)"
    and d: "\<not> dying_th (threads w t) h"
  obtains co p where "heap w h = Some co" "ctx co = Some (Body p)"
  using held_resumable [OF inv t h d] by (auto simp: resumable_iff)

lemma task_effect:
  assumes inv: "inv E n X w" and t: "t < n" and l: "loc (threads w t) = After_Resume h"
  shows "effect E t w (step E t w)"
proof -
  obtain r where r: "last_result (threads w t) = Some r"
    using inv t l by (force simp: inv_def thread_ok_def)
  show ?thesis
  proof (cases "dying_th (threads w t) h")
    case True
    then have "h \<in># refs E n w" using l by (simp add: refs_split [OF t] thread_refs_def dying_th_def)
    then obtain co where "heap w h = Some co" using inv unfolding inv_def by (meson domD union_iff)
    then show ?thesis
      using effect.ended [OF l True] True l r
      by (auto simp: step_def run_task_end_def resume_result_def dying_th_def Let_def
          split: sum.split co_state.split)
  next
    case False
    then show ?thesis
      using effect.suspended [OF l] effect.blocked [OF l] l r
      by (auto simp: step_def run_task_end_def resume_result_def dying_th_def)
  qed
qed

lemma pop_effect:
  assumes laws: "env_laws E" and inv: "inv E n X w" and t: "t < n"
    and l: "loc (threads w t) = Loop_Top"
  shows "effect E t w (step E t w)"
proof -
  obtain x q where pop: "bq_pop E (global_queue w) = (x, q)" by fastforce
  show ?thesis
  proof (cases x)
    case None
    then show ?thesis
      using l pop effect.pop_none [OF l] bq_pop_None [OF laws pop [unfolded None]]
      by (simp add: step_def schedule_pop_def)
  next
    case (Some h)
    have q: "bq_view E (global_queue w) = h # bq_view E q"
      by (rule bq_pop_Some [OF laws pop [unfolded Some]])
    then obtain co p where "heap w h = Some co" "ctx co = Some (Body p)"
      using held_effect [OF inv t, of h] l by (auto simp: dying_th_def)
    then show ?thesis
      using effect.pop [OF l q] l pop Some by (simp add: step_def schedule_pop_def resume_entered)
  qed
qed

lemma spawned_effect:
  assumes inv: "inv E n X w" and t: "t < n" and l: "loc (threads w t) = Spawn_Check"
  shows "effect E t w (step E t w)"
proof (cases "new_spawned (threads w t)")
  case None
  then show ?thesis using l effect.no_spawned by (simp add: step_def schedule_spawned_def)
next
  case (Some h)
  then obtain co p where "heap w h = Some co" "ctx co = Some (Body p)"
    using held_effect [OF inv t, of h] l by (auto simp: dying_th_def thread_refs_def)
  then show ?thesis
    using effect.spawned [OF l Some] l Some by (simp add: step_def schedule_spawned_def resume_entered)
qed

lemma idle_effect:
  assumes laws: "env_laws E" and l: "loc (threads w t) = Idle"
  shows "effect E t w (step E t w)"
proof -
  have count: "slab_count E (slabs (threads w t)) = 0 \<longleftrightarrow> dom (slab_view E (slabs (threads w t))) = {}"
    using slab_count_card [OF laws] slab_finite [OF laws] by simp
  obtain r ev where poll: "el_poll E (event_loop (threads w t)) = (r, ev)" by fastforce
  have same: "upd t (\<lambda>th. th\<lparr>event_loop := ev\<rparr>) w = with_io t (slabs (threads w t)) ev w"
    by (simp add: with_io_def upd_def)
  note s = step_def schedule_idle_def count work_count_def same
  show ?thesis
  proof (cases r)
    case (Inl e)
    then show ?thesis
      using l poll effect.poll_error [OF l] effect.stop [OF l] effect.sleep [OF l]
        el_poll_Inl [OF laws poll [unfolded Inl]] by (simp add: s)
  next
    case (Inr evs)
    then show ?thesis
      using l poll effect.poll [OF l] effect.stop [OF l] effect.sleep [OF l]
        el_poll_Inr [OF laws poll [unfolded Inr]] by (simp add: s)
  qed
qed

lemma event_effect:
  assumes laws: "env_laws E" and l: "loc (threads w t) = Dispatch ((tok, b) # es)"
  shows "effect E t w (step E t w)"
proof -
  obtain r sl where rem: "slab_remove E tok (slabs (threads w t)) = (r, sl)" by fastforce
  have view: "r = slab_view E (slabs (threads w t)) tok"
    "slab_view E sl = (slab_view E (slabs (threads w t)))(tok := None)"
    using slab_remove_view [OF laws rem] by simp_all
  show ?thesis
  proof (cases r)
    case None
    then have "(slab_view E (slabs (threads w t)))(tok := None) = slab_view E (slabs (threads w t))"
      using view(1) by auto
    then show ?thesis
      using None effect.stray [OF l] l view rem
      by (simp add: step_def handler_ready_def with_io_def upd_def)
  next
    case (Some a)
    obtain h fd where a: "a = (h, fd)" by fastforce
    obtain q ev where dereg: "el_deregister E fd (event_loop (threads w t)) = (q, ev)" by fastforce
    then have armed: "el_armed E ev \<subseteq> el_armed E (event_loop (threads w t))"
      by (rule el_deregister_armed [OF laws])
    have v: "slab_view E (slabs (threads w t)) tok = Some (h, fd)"
      using view(1) Some a by simp
    show ?thesis
      using effect.abort [OF l v view(2) armed] effect.event [OF l v view(2) armed] l rem Some a dereg
      by (cases q) (simp_all add: step_def handler_ready_def with_io_def)
  qed
qed

text \<open>Every step of a thread is one of these effects.\<close>

lemma step_effect:
  assumes laws: "env_laws E" and inv: "inv E n X w" and t: "t < n"
  shows "effect E t w (step E t w)"
proof -
  have ok: "thread_ok E (threads w t)" using inv t by (simp add: inv_def)
  show ?thesis
  proof (cases "loc (threads w t)")
    case (Body p)
    then show ?thesis using body_effect [OF laws inv t Body] by (simp add: step_def)
  next
    case (Ready_Push h k)
    then show ?thesis
      using effect.push [OF Ready_Push] ok
      by (auto simp: step_def thread_ok_def ready_return_def split: loc.splits)
  next
    case (Dispatch evs)
    then show ?thesis
      using event_effect [OF laws] effect.dispatched by (cases evs) (auto simp: step_def)
  qed (use task_effect [OF inv t] pop_effect [OF laws inv t] spawned_effect [OF inv t]
      idle_effect [OF laws] effect.halted [of w t E] ok in \<open>auto simp: step_def thread_ok_def\<close>)
qed

section \<open>The threads after a step\<close>

lemma ready_cases:
  assumes "env_laws E"
  obtains (pushed) q where "ready E t h k w = goto t k (w\<lparr>global_queue := q\<rparr>)"
      "bq_view E q = bq_view E (global_queue w) @ [h]"
  | (full) q where "ready E t h k w = goto t (Ready_Push h k) (w\<lparr>global_queue := q\<rparr>)"
      "bq_view E q = bq_view E (global_queue w)"
proof -
  obtain r q where p: "bq_push E h (global_queue w) = (r, q)" by fastforce
  show ?thesis
  proof (cases r)
    case (Inl y)
    then show ?thesis
      using full [of q] p bq_push_Inl [OF assms p [unfolded Inl]] by (simp add: ready_def)
  next
    case (Inr u)
    then show ?thesis
      using pushed [of q] p bq_push_Inr [OF assms p [unfolded Inr]] by (simp add: ready_def)
  qed
qed

lemma yielded_thread [simp]:
  "threads (yielded r t c k l w) t =
    (threads w t)\<lparr>cur_running := None, last_result := Some r, loc := l\<rparr>"
  "i \<noteq> t \<Longrightarrow> threads (yielded r t c k l w) i = threads w i"
  "global_queue (yielded r t c k l w) = global_queue w"
  "heap (yielded r t c k l w) = (heap w)(c \<mapsto> (the (heap w c))\<lparr>ctx := Some k\<rparr>)"
  "next_ptr (yielded r t c k l w) = next_ptr w" "work_counts (yielded r t c k l w) = work_counts w"
  "user (yielded r t c k l w) = user w"
  by (simp_all add: yielded_def)

lemma entered_thread [simp]:
  "threads (entered t h p w) t = (threads w t)\<lparr>cur_running := Some h,
     main_coro := (main_coro (threads w t))\<lparr>ctx := Some (After_Resume h)\<rparr>, loc := Body p\<rparr>"
  "i \<noteq> t \<Longrightarrow> threads (entered t h p w) i = threads w i"
  "global_queue (entered t h p w) = global_queue w" "heap (entered t h p w) = heap w"
  "next_ptr (entered t h p w) = next_ptr w" "work_counts (entered t h p w) = work_counts w"
  "user (entered t h p w) = user w"
  by (simp_all add: entered_def)

lemma finished_thread:
  "heap w h = Some co \<Longrightarrow>
   \<exists>sp. threads (finished E t h k w) t = (threads w t)\<lparr>stack_pool := sp, loc := k\<rparr>"
  by (rule exI [of _ "case stack co of None \<Rightarrow> stack_pool (threads w t)
        | Some st \<Rightarrow> sp_give E st (stack_pool (threads w t))"])
    (simp add: finished_defs co_drop_def threads_goto Let_def split: option.split)

section \<open>Where a thread stops\<close>

lemma ready_slab [frame]:
  "slabs (threads (ready E t h k w) i) = slabs (threads w i)"
  "event_loop (threads (ready E t h k w) i) = event_loop (threads w i)"
  by (simp_all add: ready_def threads_goto split: prod.split sum.split)

text \<open>A thread stops in the \<open>None\<close> arm of its loop only.\<close>

lemma effect_stops:
  assumes laws: "env_laws E" and e: "effect E t w w'" and s: "loc (threads w' t) = Stopped r"
  shows "loc (threads w t) = Stopped r \<or> loc (threads w t) = Idle"
  using e
proof cases
  case (push h k)
  then show ?thesis using s ready_loc [of k r E t h w] by auto
qed (use s in \<open>auto dest: ready_loc finished_loc simp: ready_loc finished_loc\<close>)

lemma step_stops:
  assumes "env_laws E" and "inv E n X w" and "t < n" and "loc (threads (step E t w) t) = Stopped r"
  shows "loc (threads w t) = Stopped r \<or> loc (threads w t) = Idle"
  by (rule effect_stops [OF assms(1) step_effect [OF assms(1-3)] assms(4)])

end
