(* ===== verification/Schedule_End.thy ===== *)
theory Schedule_End
  imports Step_Effects
begin

text \<open>
  When \<open>schedule\<close> returns: between whole steps, a thread that stopped normally left no coroutine
  behind (\<open>Atomicity\<close> says what this means in the middle of one), and coroutines lost before \<open>run\<close> keep every thread from stopping normally.
\<close>

section \<open>A normal stop leaves nothing behind\<close>

lemma idle_stop_empty:
  assumes inv: "inv E n X w" and b: "next_ptr w < 2 ^ 64"
    and l: "loc (threads w t) = Idle" and s: "loc (threads (step E t w) t) = Stopped (Inr ())"
  shows "heap w = Map.empty"
proof -
  have "work_counts w = 0"
    using l s by (auto simp: step_def schedule_idle_def work_count_def split: if_splits prod.splits sum.splits)
  moreover have "card (dom (heap w)) < 2 ^ 64"
  proof -
    have "card (dom (heap w)) \<le> card {..<next_ptr w}"
      using inv by (intro card_mono) (auto simp: inv_def heap_ok_def)
    then show ?thesis using b by simp
  qed
  ultimately have "card (dom (heap w)) = 0"
    using inv by (simp add: inv_def heap_ok_def word_of_nat_eq_0_iff)
      (metis dvd_imp_le gr0I leD)
  moreover have "finite (dom (heap w))"
    using inv by (auto simp: inv_def heap_ok_def intro: finite_subset)
  ultimately show ?thesis by simp
qed

definition stopped_ok :: "nat \<Rightarrow> ('q, 'sl, 'ev, 'pl, 'stk, 'p, 'u) world \<Rightarrow> bool" where
  "stopped_ok n w \<longleftrightarrow> (\<exists>t<n. loc (threads w t) = Stopped (Inr ()))"

lemma stopped_heap_empty_step:
  assumes laws: "env_laws E" and inv: "inv E n X w" and i: "i < n"
    and b: "next_ptr w < 2 ^ 64"
    and IH: "stopped_ok n w \<Longrightarrow> heap w = Map.empty" and s: "stopped_ok n (step E i w)"
  shows "heap (step E i w) = Map.empty"
proof -
  obtain t where t: "t < n" "loc (threads (step E i w) t) = Stopped (Inr ())"
    using s by (auto simp: stopped_ok_def)
  have old: "heap w = Map.empty"
  proof (cases "t = i \<and> loc (threads w i) = Idle")
    case True
    then show ?thesis using idle_stop_empty [OF inv b] t by blast
  next
    case False
    then have "loc (threads w t) = Stopped (Inr ())"
      using t step_stops [OF laws inv i] step_other [of t i E w] by (cases "t = i") auto
    then show ?thesis using IH t(1) by (auto simp: stopped_ok_def)
  qed
  have ok: "thread_ok E (threads w i)" using inv i by (simp add: inv_def)
  have "loc (threads w i) \<noteq> Body p" for p
  proof
    assume l: "loc (threads w i) = Body p"
    obtain c where "cur_running (threads w i) = Some c"
      using thread_okD_Body [OF ok l] by blast
    then obtain co where "heap w c = Some co" using inv_cur_alloc [OF inv i] by blast
    then show False using old by simp
  qed
  then have "dom (heap (step E i w)) \<subseteq> dom (heap w)" by (rule step_heap_subset)
  then show ?thesis using old by simp
qed

lemma spawn_all_other: "i \<noteq> 0 \<Longrightarrow> threads (spawn_all E fs w) i = threads w i"
  by (induction E fs w rule: spawn_all.induct) (simp_all add: frame)

lemma started_loc:
  assumes laws: "env_laws E" and s: "started E w"
  shows "loc (threads w t) = Loop_Top"
proof -
  obtain fs u w0 where w0: "world_init E u = Some w0" and w: "w = spawn_all E fs w0"
    using s by (auto simp: started_def)
  have "loc (threads w 0) = Loop_Top"
    using inv_spawn_all [OF run_threads_pos inv_world_init [OF laws w0] world_init_loc [OF w0]] w
    by blast
  then show ?thesis
    using world_init_loc [OF w0] spawn_all_other [of t E fs w0] w by (cases "t = 0") simp_all
qed

lemma stopped_heap_empty:
  assumes laws: "env_laws E" and "reachable E n w"
    and "next_ptr w < 2 ^ 64" and "stopped_ok (run_threads n) w"
  shows "heap w = Map.empty"
  using assms(2-4)
proof (induction rule: reach.induct)
  case (reach_init s)
  then show ?case using started_loc [OF laws] by (fastforce simp: stopped_ok_def)
next
  case (reach_step s s')
  from reach_step.hyps(2) obtain i where i: "i < run_threads n" "s' = step E i s"
    by (auto elim: sys_step.cases)
  have "next_ptr s < 2 ^ 64"
    using reach_step.prems(1) step_next_ptr [of s E i] i(2) by simp
  then show ?case
    using stopped_heap_empty_step [OF laws reachable_inv [OF laws reach_step.hyps(1)] i(1)]
      reach_step i(2) by blast
qed


text \<open>In a state reached by whole steps, when \<open>schedule\<close> has returned \<open>Ok(())\<close> on some thread, no
  coroutine is allocated. \<open>Atomicity\<close> has what holds when another thread is in the middle of
  \<open>finished\<close> or \<open>spawn_opts\<close>.\<close>

lemma stop_leaves_nothing:
  assumes "env_laws E" and "reachable E n w" and "next_ptr w < 2 ^ 64"
    and "t < run_threads n" and "loc (threads w t) = Stopped (Inr ())"
  shows "heap w = Map.empty \<and> work_count w = 0"
proof -
  have "heap w = Map.empty"
    using stopped_heap_empty [OF assms(1-3)] assms(4,5) by (auto simp: stopped_ok_def)
  then show ?thesis
    using reachable_inv [OF assms(1,2)] by (simp add: inv_def heap_ok_def work_count_def)
qed

lemma stop_leaves_nothing_example:
  "loc (threads ((step demo 0 ^^ 8) (demo_main [[]])) 0) = Stopped (Inr ()) \<and>
   heap ((step demo 0 ^^ 8) (demo_main [[]])) = Map.empty"
proof -
  have s: "loc (threads ((step demo 0 ^^ 8) (demo_main [[]])) 0) = Stopped (Inr ())"
    and b: "next_ptr ((step demo 0 ^^ 8) (demo_main [[]])) < 2 ^ 64"
    by (simp_all add: demo_eval)
  show ?thesis using stop_leaves_nothing [OF demo_laws demo_reachable [of 1] b _ s] s by simp
qed

section \<open>Coroutines lost before run\<close>

lemma lose_new_spawned:
  assumes t: "t < n" and inv: "inv E n X w" and c: "new_spawned (threads w t) = Some c"
  shows "inv E n (add_mset c X) (upd t (\<lambda>th. th\<lparr>new_spawned := None\<rparr>) w)"
proof -
  have ok: "thread_ok E (threads w t)" using inv t by (simp add: inv_def)
  moreover have "thread_ok E ((threads w t)\<lparr>new_spawned := None\<rparr>)"
    using ok thread_ok_spawned [where E = E and th = "threads w t" and x = None and
        sp = "stack_pool (threads w t)"] by simp
  ultimately show ?thesis
    using c by (intro inv_update [OF inv t]) (auto simp: upd_def thread_refs_def dying_th_def)
qed

lemma alloc_spawned_forget:
  "alloc_spawned E t f os (upd t (\<lambda>th. th\<lparr>new_spawned := None\<rparr>) w) = alloc_spawned E t f os w"
  by (simp add: alloc_spawned_def co_spawn_opts_def Let_def split_beta upd_def)

text \<open>Every spawn outside a coroutine forgets the one before it.\<close>

lemma inv_spawn_all_lost:
  assumes n: "0 < n" and "inv E n X w" and "loc (threads w 0) = Loop_Top"
    and "new_spawned (threads w 0) = Some c" and "next_ptr w = Suc c"
  shows "inv E n (mset [c..<c + length fs] + X) (spawn_all E fs w)"
  using assms(2-5)
proof (induction fs arbitrary: w X c)
  case Nil
  then show ?case by simp
next
  case (Cons x fs)
  obtain f os where x: "x = (f, os)" by fastforce
  let ?w = "scheduler_spawn_opts E 0 f os Loop_Top w"
  have w: "?w = alloc_spawned E 0 f os w" "loc (threads ?w 0) = Loop_Top"
    using inv_started_spawn [OF n Cons.prems(1,2)] by simp_all
  have "inv E n (add_mset c X) ?w"
    using inv_alloc_spawned [OF n lose_new_spawned [OF n Cons.prems(1,3)], of f os]
    by (simp add: w alloc_spawned_forget)
  moreover have "new_spawned (threads ?w 0) = Some (Suc c)" "next_ptr ?w = Suc (Suc c)"
    using alloc_spawned_thread [of E 0 f os w] Cons.prems(4) by (auto simp: w(1))
  ultimately have "inv E n (mset [Suc c..<Suc c + length fs] + add_mset c X) (spawn_all E fs ?w)"
    using w(2) by (intro Cons.IH)
  moreover have "mset [c..<c + length (x # fs)] + X =
      mset [Suc c..<Suc c + length fs] + add_mset c X"
    by (simp add: upt_conv_Cons del: upt_Suc)
  ultimately show ?case by (simp add: x)
qed

lemma inv_main_lost:
  assumes laws: "env_laws E" and w0: "world_init E u = Some w0" and n: "0 < n"
  shows "inv E n (mset [0..<length fs - 1]) (spawn_all E fs w0)"
proof (cases fs)
  case Nil
  then show ?thesis using inv_world_init [OF laws w0] by simp
next
  case (Cons x fs')
  obtain f os where x: "x = (f, os)" by fastforce
  let ?w = "scheduler_spawn_opts E 0 f os Loop_Top w0"
  have p: "next_ptr w0 = 0" using w0 by (auto simp: world_init_def split: option.splits)
  note s = inv_started_spawn [OF n inv_world_init [OF laws w0] world_init_loc [OF w0]]
  have "inv E n (mset [0..<0 + length fs'] + {#}) (spawn_all E fs' ?w)"
    using s alloc_spawned_thread [of E 0 f os w0]
    by (intro inv_spawn_all_lost [OF n]) (auto simp: s(3) p)
  then show ?thesis by (simp add: Cons x)
qed

lemma inv_held_nowhere:
  assumes inv: "inv E n X w" and c: "c \<in># X"
  shows "c \<in> dom (heap w)" and "c \<notin># refs E n w"
proof -
  show "c \<in> dom (heap w)" using inv c unfolding inv_def by simp
  have "count (X + refs E n w) c \<le> 1" using inv by (simp only: inv_def)
  moreover have "0 < count X c" using c by (simp only: count_greater_zero_iff)
  ultimately show "c \<notin># refs E n w" unfolding count_union not_in_iff by linarith
qed

text \<open>C20. When \<open>main\<close> calls \<open>spawn\<close> several times before \<open>run\<close>, as \<open>run\<close>'s own callers may,
  only the last coroutine survives: every earlier one stays allocated, is never run by any
  thread and never queued, and because it stays counted no thread's \<open>schedule\<close> ever returns
  \<open>Ok(())\<close>.\<close>

theorem early_spawns_lost:
  assumes laws: "env_laws E" and w0: "world_init E u = Some w0"
    and w: "reach (\<lambda>s. s = spawn_all E fs w0) (sys_step E (run_threads n)) w"
    and c: "Suc c < length fs" and b: "next_ptr w < 2 ^ 64"
  shows "heap w c \<noteq> None \<and> c \<notin> set (bq_view E (global_queue w)) \<and>
    (\<forall>t<run_threads n. cur_running (threads w t) \<noteq> Some c \<and>
       loc (threads w t) \<noteq> Stopped (Inr ()))"
proof -
  let ?n = "run_threads n"
  have inv: "inv E ?n (mset [0..<length fs - 1]) w"
    using w
  proof (rule reach_invariant)
    show "s = spawn_all E fs w0 \<Longrightarrow> inv E ?n (mset [0..<length fs - 1]) s" for s
      using inv_main_lost [OF laws w0 run_threads_pos] by simp
  qed (rule inv_sys_step [OF laws])
  have "reachable E n w"
    using w by (rule reach_mono) (use w0 in \<open>auto simp: started_def\<close>)
  note nowhere = inv_held_nowhere [OF inv, of c]
  have alloc: "heap w c \<noteq> None" and out: "c \<notin># refs E ?n w"
    using nowhere c by (auto simp: less_diff_conv)
  have "\<not> stopped_ok ?n w"
    using stopped_heap_empty [OF laws \<open>reachable E n w\<close> b] alloc by auto
  moreover have "cur_running (threads w t) \<noteq> Some c" if "t < ?n" for t
    using out that by (auto simp: refs_split [OF that] thread_refs_def)
  moreover have "c \<notin> set (bq_view E (global_queue w))"
    using out by (simp add: refs_def)
  ultimately show ?thesis using alloc by (auto simp: stopped_ok_def)
qed

theorem early_spawns_lost_witness:
  "heap ((step demo 0 ^^ 9) (demo_main [[D_Sched], []])) 0 \<noteq> None \<and>
   cur_running (threads ((step demo 0 ^^ 9) (demo_main [[D_Sched], []])) 0) \<noteq> Some 0"
proof -
  let ?w = "(step demo 0 ^^ 9) (demo_main [[D_Sched], []])"
  have r: "reach (\<lambda>s. s = spawn_all demo (map (\<lambda>p. (p, options_new 64)) [[D_Sched], []]) demo_init)
      (sys_step demo (run_threads 1)) ?w"
    by (rule reach_steps) (simp_all add: reach.reach_init demo_main_def)
  have b: "next_ptr ?w < 2 ^ 64" by (simp add: demo_eval)
  show ?thesis using early_spawns_lost [OF demo_laws demo_world_init r, of 0] b by simp
qed

end
