(* ===== verification/Schedule_Stuck.thy ===== *)
theory Schedule_Stuck
  imports Schedule_End
begin

text \<open>
  What keeps \<open>schedule\<close> from returning: the slab entry of a registration that failed, which
  no event can remove, and a full queue with every thread in the retry loop of \<open>ready\<close>.
\<close>

section \<open>Registrations that failed\<close>

text \<open>A slab entry for which no event can arrive any more.\<close>

definition stale ::
  "('q, 'sl, 'ev, 'pl, 'stk, 'p, 'u) env \<Rightarrow> ('sl, 'ev, 'pl, 'stk, 'p) thread \<Rightarrow> token \<Rightarrow> bool" where
  "stale E th tok \<longleftrightarrow> tok \<in> dom (slab_view E (slabs th)) \<and>
     tok \<notin> el_armed E (event_loop th) \<union> set (loc_tokens (loc th))"

lemma ready_tokens: "loc_tokens (loc (threads (ready E t h k w) t)) = loc_tokens k"
  by (simp add: ready_def threads_goto split: prod.split sum.split)

lemma stale_effect:
  assumes e: "effect E t w w'" and s: "stale E (threads w t) tok"
  shows "stale E (threads w' t) tok"
  using e
proof cases
  case (spawn p c co f os p' u)
  obtain sp where "threads (alloc_spawned E t f os (w\<lparr>user := u\<rparr>)) t =
      (threads w t)\<lparr>stack_pool := sp, new_spawned := Some (next_ptr w)\<rparr>"
    using alloc_spawned_thread [of E t f os "w\<lparr>user := u\<rparr>"] by auto
  then show ?thesis using spawn s by (simp add: stale_def)
next
  case (ended h co)
  then show ?thesis
    using s finished_thread [of "upd t (\<lambda>th. th\<lparr>last_result := None\<rparr>) w" h co E t Spawn_Check]
    by (auto simp: stale_def)
qed (use s in \<open>auto simp: stale_def frame ready_tokens threads_goto\<close>)

lemma stale_step:
  assumes "env_laws E" and "inv E n X w" and "i < n" and s: "stale E (threads w t) tok"
  shows "stale E (threads (step E i w) t) tok"
  using s stale_effect [OF step_effect [OF assms(1-3)]] step_other [of t i E w]
  by (cases "i = t") simp_all

text \<open>The thread cannot stop while the entry is there.\<close>

lemma stale_no_stop:
  assumes laws: "env_laws E" and inv: "inv E n X w" and i: "i < n"
    and s: "stale E (threads w t) tok" and l: "loc (threads w t) \<noteq> Stopped (Inr ())"
  shows "loc (threads (step E i w) t) \<noteq> Stopped (Inr ())"
proof (cases "i = t")
  case True
  have "slab_count E (slabs (threads w t)) \<noteq> 0"
    using s slab_finite [OF laws] slab_count_card [OF laws] by (auto simp: stale_def)
  then have "loc (threads (step E t w) t) \<noteq> Stopped (Inr ())" if "loc (threads w t) = Idle"
    using that by (simp add: step_def schedule_idle_def split: prod.split sum.split)
  then show ?thesis using step_stops [OF laws inv i] l True by blast
qed (use l step_other [of t i E w] in simp)

text \<open>C21. When a coroutine waits on a descriptor the event loop refuses, the error comes back
  to it at once, but the slab entry made for the wait is never removed, so the \<open>schedule\<close> of
  that thread can never again return \<open>Ok(())\<close>.\<close>

theorem failed_registration_leaks:
  assumes laws: "env_laws E" and w: "reachable E n w" and t: "t < run_threads n"
    and l: "loc (threads w t) = Body p" and run: "run E p (user w) = (Call_Wait fd i k, u)"
    and c: "cur_running (threads w t) = Some c"
    and ins: "slab_insert E (c, fd) (slabs (threads w t)) = (Inr tok, sl)"
    and reg: "el_register E fd tok i (event_loop (threads w t)) = (Inl e, ev)"
    and w': "reach (\<lambda>s. s = step E t w) (sys_step E (run_threads n)) w'"
  shows "loc (threads (step E t w) t) = Body (k (Inl e)) \<and>
    slab_view E (slabs (threads w' t)) tok \<noteq> None \<and> loc (threads w' t) \<noteq> Stopped (Inr ())"
proof -
  let ?n = "run_threads n"
  have inv: "inv E ?n {#} w" by (rule reachable_inv [OF laws w])
  have ok: "thread_ok E (threads w t)" using inv t by (simp add: inv_def)
  have eq: "step E t w = goto t (Body (k (Inl e)))
      (upd t (\<lambda>th. th\<lparr>slabs := sl, event_loop := ev\<rparr>) (w\<lparr>user := u\<rparr>))"
    using l run c ins reg by (simp add: step_def body_step_def wait_event_def running_def)
  have view: "slab_view E (slabs (threads w t)) tok = None"
      "slab_view E sl = (slab_view E (slabs (threads w t)))(tok \<mapsto> (c, fd))"
    using slab_insert_Inr [OF laws ins] by blast+
  have "tok \<notin> el_armed E (event_loop (threads w t))"
    using ok view(1) by (auto simp: thread_ok_def live_tokens_def)
  then have s: "stale E (threads (step E t w) t) tok"
    using view(2) el_register_Inl [OF laws reg] by (simp add: eq stale_def goto_def)
  have "inv E ?n {#} w' \<and> stale E (threads w' t) tok \<and> loc (threads w' t) \<noteq> Stopped (Inr ())"
    using w'
  proof (rule reach_invariant)
    fix s assume "s = step E t w"
    then show "inv E ?n {#} s \<and> stale E (threads s t) tok \<and> loc (threads s t) \<noteq> Stopped (Inr ())"
      using inv_step [OF laws t inv] s by (simp add: eq)
  next
    fix s s'
    assume I: "inv E ?n {#} s \<and> stale E (threads s t) tok \<and> loc (threads s t) \<noteq> Stopped (Inr ())"
      and "sys_step E ?n s s'"
    then obtain i where i: "i < ?n" "s' = step E i s" by (auto elim: sys_step.cases)
    then have "loc (threads s' t) \<noteq> Stopped (Inr ())"
      using I stale_no_stop [OF laws _ i(1), of "{#}" s t tok] by blast
    then show "inv E ?n {#} s' \<and> stale E (threads s' t) tok \<and> loc (threads s' t) \<noteq> Stopped (Inr ())"
      using I i inv_step [OF laws i(1)] stale_step [OF laws _ i(1)] by blast
  qed
  then show ?thesis by (auto simp: eq stale_def)
qed

theorem failed_registration_leaks_witness:
  "slab_count demo (slabs (threads ((step demo 0 ^^ 7) (demo_main [[D_Wait (- 1)]])) 0)) = 1 \<and>
   loc (threads ((step demo 0 ^^ 7) (demo_main [[D_Wait (- 1)]])) 0) \<noteq> Stopped (Inr ())"
proof -
  let ?w = "(step demo 0 ^^ 3) (demo_main [[D_Wait (- 1)]])"
  have r: "reach (\<lambda>s. s = step demo 0 ?w) (sys_step demo (run_threads 1))
      ((step demo 0 ^^ 3) (step demo 0 ?w))"
    by (rule reach_steps) (simp_all add: reach.reach_init)
  have eq: "(step demo 0 ^^ 3) (step demo 0 ?w) = (step demo 0 ^^ 7) (demo_main [[D_Wait (- 1)]])"
    by (simp add: numeral_eq_Suc)
  have "loc (threads ?w 0) = Body [D_Wait (- 1)]" "cur_running (threads ?w 0) = Some 0"
    "slabs (threads ?w 0) = []" "event_loop (threads ?w 0) = []" "user ?w = 0"
    by (simp_all add: demo_eval)
  moreover have "slab_insert demo (0, - 1) [] = (Inr 1, [(1, 0, - 1)])"
    "el_register demo (- 1) 1 Readable [] = (Inl (Io_Error InvalidInput ''bad descriptor''), [])"
    "run demo [D_Wait (- 1)] 0 = (Call_Wait (- 1) Readable (\<lambda>r. case r of Inl _ \<Rightarrow> [] | Inr _ \<Rightarrow> []), 1)"
    by (simp_all add: demo_defs Let_def)
  ultimately have "loc (threads ((step demo 0 ^^ 7) (demo_main [[D_Wait (- 1)]])) 0) \<noteq> Stopped (Inr ())"
    using failed_registration_leaks [OF demo_laws demo_reachable [of 1] _ _ _ _ _ _ r]
    unfolding eq by simp
  moreover have "slab_count demo (slabs (threads ((step demo 0 ^^ 7) (demo_main [[D_Wait (- 1)]])) 0)) = 1"
    by (simp add: demo_eval)
  ultimately show ?thesis by blast
qed

section \<open>A full queue\<close>

text \<open>\<open>BoundedQueue\<close> refuses a push exactly when it is full, and keeps its capacity.\<close>

definition capacity_laws :: "('q, 'sl, 'ev, 'pl, 'stk, 'p, 'u) env \<Rightarrow> bool" where
  "capacity_laws E \<longleftrightarrow>
    unat GLOBAL_QUEUE_SIZE \<le> bq_cap E (scheduler_queue E) \<and>
    (\<forall>x q r q'. bq_push E x q = (r, q') \<longrightarrow>
       isl r = (bq_cap E q \<le> length (bq_view E q)) \<and> bq_cap E q' = bq_cap E q) \<and>
    (\<forall>q r q'. bq_pop E q = (r, q') \<longrightarrow> bq_cap E q' = bq_cap E q)"

lemma demo_with_capacity_laws: "capacity_laws (demo_with r)"
  by (auto simp: capacity_laws_def demo_with_def GLOBAL_QUEUE_SIZE_def split: if_splits list.splits)

lemma demo_capacity_laws: "capacity_laws demo"
  unfolding demo_def by (rule demo_with_capacity_laws)

lemma push_full:
  assumes "env_laws E" and "capacity_laws E" and "bq_cap E q \<le> length (bq_view E q)"
  obtains q' where "bq_push E x q = (Inl x, q')" "bq_view E q' = bq_view E q" "bq_cap E q' = bq_cap E q"
proof -
  obtain r q' where p: "bq_push E x q = (r, q')" by fastforce
  have "isl r" "bq_cap E q' = bq_cap E q"
    using assms(2,3) p unfolding capacity_laws_def by blast+
  then obtain y where "r = Inl y" by (auto simp: isl_def)
  then show ?thesis using that p bq_push_Inl [OF assms(1)] \<open>bq_cap E q' = bq_cap E q\<close> by blast
qed

text \<open>C22. Once every scheduling thread is in the retry loop of \<open>ready\<close> and the global queue is
  full, no thread ever leaves that loop and the queue never changes: \<open>ready\<close> has no bound on
  its retries, and nobody is left to pop. With \<open>run(1)\<close> one such call is enough.\<close>

theorem full_queue_livelock:
  assumes laws: "env_laws E" "capacity_laws E"
    and full: "length (bq_view E (global_queue w)) = bq_cap E (global_queue w)"
    and all: "\<forall>t<run_threads n. loc (threads w t) = Ready_Push (h t) (k t)"
    and w': "reach (\<lambda>s. s = w) (sys_step E (run_threads n)) w'"
  shows "bq_view E (global_queue w') = bq_view E (global_queue w) \<and>
    (\<forall>t<run_threads n. loc (threads w' t) = Ready_Push (h t) (k t))"
proof -
  let ?I = "\<lambda>s. bq_cap E (global_queue s) = length (bq_view E (global_queue s)) \<and>
    bq_view E (global_queue s) = bq_view E (global_queue w) \<and>
    (\<forall>t<run_threads n. loc (threads s t) = Ready_Push (h t) (k t))"
  have "?I w'"
    using w'
  proof (rule reach_invariant)
    fix s s' assume I: "?I s" and "sys_step E (run_threads n) s s'"
    then obtain i where i: "i < run_threads n" "s' = step E i s" by (auto elim: sys_step.cases)
    obtain q where "bq_push E (h i) (global_queue s) = (Inl (h i), q)"
      "bq_view E q = bq_view E (global_queue s)" "bq_cap E q = bq_cap E (global_queue s)"
      using push_full [OF laws, of "global_queue s" "h i"] I by auto
    then show "?I s'" using I i by (auto simp: step_def ready_def threads_goto)
  qed (use full all in simp)
  then show ?thesis by blast
qed

text \<open>A full queue, and the only thread putting back the coroutine it has just run.\<close>

definition demo_full :: demo_world where
  "demo_full = goto 0 (Ready_Push 4096 Spawn_Check)
     (demo_init\<lparr>global_queue := [0..<4096]\<rparr>)"

theorem full_queue_livelock_witness:
  "loc (threads ((step demo 0 ^^ 1000) demo_full) 0) = Ready_Push 4096 Spawn_Check"
proof -
  have r: "reach (\<lambda>s. s = demo_full) (sys_step demo (run_threads 1)) ((step demo 0 ^^ 1000) demo_full)"
    by (rule reach_steps) (simp_all add: reach.reach_init del: funpow.simps)
  have f: "length (bq_view demo (global_queue demo_full)) = bq_cap demo (global_queue demo_full)"
    by (simp add: demo_full_def demo_defs goto_def upd_def)
  have a: "\<forall>t<run_threads 1. loc (threads demo_full t) = Ready_Push 4096 Spawn_Check"
    by (simp add: demo_full_def run_threads_def)
  show ?thesis
    using full_queue_livelock [OF demo_laws demo_capacity_laws f a r] run_threads_pos by blast
qed

end
