(* ===== verification/Spawn_Safety.thy ===== *)
theory Spawn_Safety
  imports Schedule_Stuck
begin

text \<open>
  \<open>Processor::spawn_opts\<close> overwrites \<open>new_spawned\<close>; inside a coroutine this never loses one,
  because a thread that runs user code has no new coroutine pending.
\<close>

section \<open>A coroutine spawned by a coroutine is not lost\<close>

text \<open>
  Before the first coroutine runs: \<open>main\<close> may have spawned one, on the main thread.
\<close>

definition quiet :: "('q, 'sl, 'ev, 'pl, 'stk, 'p, 'u) env \<Rightarrow> ('sl, 'ev, 'pl, 'stk, 'p) thread \<Rightarrow> bool" where
  "quiet E th \<longleftrightarrow> (case loc th of Loop_Top \<Rightarrow> True | Idle \<Rightarrow> True | Spawn_Check \<Rightarrow> True | Stopped _ \<Rightarrow> True
      | _ \<Rightarrow> False) \<and> dom (slab_view E (slabs th)) = {}"

definition startup ::
  "('q, 'sl, 'ev, 'pl, 'stk, 'p, 'u) env \<Rightarrow> nat \<Rightarrow> ('q, 'sl, 'ev, 'pl, 'stk, 'p, 'u) world \<Rightarrow> bool" where
  "startup E n w \<longleftrightarrow> bq_view E (global_queue w) = [] \<and>
     (\<forall>t<n. quiet E (threads w t) \<and> (t \<noteq> 0 \<longrightarrow> new_spawned (threads w t) = None))"

text \<open>Afterwards a thread has a new coroutine only on its way to run it.\<close>

definition spawn_pending :: "('sl, 'ev, 'pl, 'stk, 'p) thread \<Rightarrow> bool" where
  "spawn_pending th \<longleftrightarrow> (new_spawned th \<noteq> None \<longrightarrow>
     (case loc th of After_Resume _ \<Rightarrow> True | Ready_Push _ k \<Rightarrow> k = Spawn_Check | Spawn_Check \<Rightarrow> True
      | _ \<Rightarrow> False))"

lemma spawn_pending_step:
  assumes laws: "env_laws E" and e: "effect E t w w'" and p: "spawn_pending (threads w t)"
  shows "spawn_pending (threads w' t)"
  using e
proof cases
  case (spawn p c co f os p' u)
  then show ?thesis by (simp add: spawn_pending_def)
next
  case (suspended h)
  then show ?thesis
    using p by (cases rule: ready_cases [OF laws, of t h Spawn_Check "upd t (\<lambda>th. th\<lparr>last_result := None\<rparr>) w"])
      (simp_all add: spawn_pending_def threads_goto)
next
  case (ended h co)
  then show ?thesis
    using p finished_thread [of "upd t (\<lambda>th. th\<lparr>last_result := None\<rparr>) w" h co E t Spawn_Check]
    by (auto simp: spawn_pending_def)
next
  case (push h k)
  then show ?thesis
    using p by (cases rule: ready_cases [OF laws, of t h k w]) (auto simp: spawn_pending_def threads_goto)
next
  case (event tok es evs h fd sl ev)
  then show ?thesis
    using p by (cases rule: ready_cases [OF laws, of t h "Dispatch evs" "with_io t sl ev w"])
      (simp_all add: spawn_pending_def threads_goto)
qed (use p in \<open>auto simp: spawn_pending_def threads_goto\<close>)

lemma startup_step:
  assumes e: "effect E t w w'" and t: "t < n" and s: "startup E n w"
  shows "startup E n w' \<or> (\<forall>i<n. spawn_pending (threads w' i))"
proof -
  have q: "quiet E (threads w t)" "bq_view E (global_queue w) = []" using s t by (auto simp: startup_def)
  have same: "startup E n w'"
    if "\<And>i. i \<noteq> t \<Longrightarrow> threads w' i = threads w i" "bq_view E (global_queue w') = []"
      "quiet E (threads w' t)" "new_spawned (threads w' t) = new_spawned (threads w t)"
    using s that unfolding startup_def by metis
  show ?thesis
    using e
  proof cases
    case (spawned h co p)
    have "spawn_pending (threads w' i)" if "i < n" for i
    proof (cases "i = t")
      case False
      have "t = 0" using s t spawned unfolding startup_def by force
      then have "new_spawned (threads w i) = None" using s that False unfolding startup_def by simp
      then show ?thesis using False spawned by (simp add: spawn_pending_def)
    qed (use spawned in \<open>simp add: spawn_pending_def\<close>)
    then show ?thesis by blast
  qed (use q s same in \<open>auto simp: quiet_def threads_goto\<close>)
qed

definition spawn_ok ::
  "('q, 'sl, 'ev, 'pl, 'stk, 'p, 'u) env \<Rightarrow> nat \<Rightarrow> ('q, 'sl, 'ev, 'pl, 'stk, 'p, 'u) world \<Rightarrow> bool" where
  "spawn_ok E n w \<longleftrightarrow> startup E n w \<or> (\<forall>t<n. spawn_pending (threads w t))"

lemma spawn_ok_step:
  assumes laws: "env_laws E" and inv: "inv E n X w" and t: "t < n" and s: "spawn_ok E n w"
  shows "spawn_ok E n (step E t w)"
proof -
  have e: "effect E t w (step E t w)" by (rule step_effect [OF laws inv t])
  have "spawn_pending (threads (step E t w) i)" if "\<forall>i<n. spawn_pending (threads w i)" "i < n" for i
    using that spawn_pending_step [OF laws e] t step_other [of i t E w] by (cases "i = t") simp_all
  then show ?thesis using s startup_step [OF e t] unfolding spawn_ok_def by blast
qed

lemma alloc_spawned_quiet [simp]:
  "quiet E (threads (alloc_spawned E' t f os w) i) = quiet E (threads w i)"
  using alloc_spawned_thread [of E' t f os w] by (cases "i = t") (auto simp: quiet_def)

lemma startup_spawn_all:
  assumes "inv E n X w" and "0 < n" and "loc (threads w 0) = Loop_Top" and "startup E n w"
  shows "startup E n (spawn_all E fs w)"
  using assms(1,3,4)
proof (induction fs arbitrary: w)
  case (Cons x fs)
  obtain f os where x: "x = (f, os)" by fastforce
  note s = inv_started_spawn [OF assms(2) Cons.prems(1,2)]
  have "startup E n (alloc_spawned E 0 f os w)" using Cons.prems(3) by (simp add: startup_def)
  then show ?case using Cons.IH [OF s(1,2)] by (simp add: x s(3))
qed simp

lemma startup_started:
  assumes laws: "env_laws E" and "started E w"
  shows "startup E (run_threads n) w"
proof -
  obtain fs u w0 where w0: "world_init E u = Some w0" and w: "w = spawn_all E fs w0"
    using assms(2) by (auto simp: started_def)
  have "startup E (run_threads n) w0"
    using w0 by (auto simp: startup_def world_init_def processor_new_def processor.extend_def
        quiet_def scheduler_queue_def io_handler_new_def
        bq_new_view [OF laws] slab_new_view [OF laws] split: option.splits sum.splits)
  then show ?thesis
    using startup_spawn_all [OF inv_world_init [OF laws w0] run_threads_pos world_init_loc [OF w0]] w
    by blast
qed

lemma reachable_spawn_ok:
  assumes laws: "env_laws E" and w: "reachable E n w"
  shows "spawn_ok E (run_threads n) w"
  using w
proof (induction rule: reach.induct)
  case (reach_init s)
  then show ?case using startup_started [OF laws] by (simp add: spawn_ok_def)
next
  case (reach_step s s')
  then show ?case
    using spawn_ok_step [OF laws reachable_inv [OF laws reach_step.hyps(1)]]
    by (auto elim!: sys_step.cases)
qed

lemma body_new_spawned:
  assumes "env_laws E" and "reachable E n w" and "t < run_threads n"
    and l: "loc (threads w t) = Body p"
  shows "new_spawned (threads w t) = None"
  using reachable_spawn_ok [OF assms(1,2)] assms(3) l
  by (force simp: spawn_ok_def startup_def spawn_pending_def quiet_def)


section \<open>Spawning inside a coroutine\<close>

lemma push_not_full:
  assumes "env_laws E" and "capacity_laws E" and "length (bq_view E q) < bq_cap E q"
  obtains q' where "bq_push E x q = (Inr (), q')" "bq_view E q' = bq_view E q @ [x]"
proof -
  obtain r q' where p: "bq_push E x q = (r, q')" by fastforce
  have "isl r = (bq_cap E q \<le> length (bq_view E q))"
    using assms(2) p unfolding capacity_laws_def by blast
  then obtain u where "r = Inr u" using assms(3) by (cases r) auto
  then show ?thesis using that [of q'] p bq_push_Inr [OF assms(1)] by simp
qed

lemma ready_not_full:
  assumes "env_laws E" and "capacity_laws E"
    and "length (bq_view E (global_queue w)) < bq_cap E (global_queue w)"
  obtains q where "ready E t h k w = goto t k (w\<lparr>global_queue := q\<rparr>)"
    "bq_view E q = bq_view E (global_queue w) @ [h]"
proof -
  obtain q where "bq_push E h (global_queue w) = (Inr (), q)"
    "bq_view E q = bq_view E (global_queue w) @ [h]"
    using push_not_full [OF assms, of h] by blast
  then show ?thesis using that [of q] by (simp add: ready_def)
qed

text \<open>C9. A coroutine that spawns another never overwrites a pending one. When the queue is not
  full, the child runs at once on
  the same thread, the parent goes to the back of the global queue and continues after its
  \<open>spawn\<close> when it is scheduled again; the counter and the heap gain one coroutine.\<close>

theorem spawn_runs_child:
  assumes laws: "env_laws E" and cap: "capacity_laws E" and w: "reachable E n w"
    and t: "t < run_threads n" and l: "loc (threads w t) = Body p"
    and c: "cur_running (threads w t) = Some c"
    and run: "run E p (user w) = (Call_Spawn f os p', u)"
    and room: "length (bq_view E (global_queue w)) < bq_cap E (global_queue w)"
  shows "new_spawned (threads w t) = None \<and>
    loc (threads ((step E t ^^ 3) w) t) = Body f \<and>
    cur_running (threads ((step E t ^^ 3) w) t) = Some (next_ptr w) \<and>
    bq_view E (global_queue ((step E t ^^ 3) w)) = bq_view E (global_queue w) @ [c] \<and>
    map_option ctx (heap ((step E t ^^ 3) w) c) = Some (Some (Body p')) \<and>
    work_count ((step E t ^^ 3) w) = work_count w + 1"
proof -
  have inv: "inv E (run_threads n) {#} w" by (rule reachable_inv [OF laws w])
  obtain co where co: "heap w c = Some co" using inv_cur_alloc [OF inv t c] by blast
  have ok: "thread_ok E (threads w t)" using inv t by (simp add: inv_def)
  then have main: "ctx (main_coro (threads w t)) = Some (After_Resume c)"
    using thread_okD_Body [OF ok l] c by auto
  let ?a = "alloc_spawned E t f os (w\<lparr>user := u\<rparr>)"
  obtain sp where th: "threads ?a t =
      (threads w t)\<lparr>stack_pool := sp, new_spawned := Some (next_ptr w)\<rparr>"
    using alloc_spawned_thread [of E t f os "w\<lparr>user := u\<rparr>"] by auto
  obtain ch where ch: "heap ?a = (heap w)(next_ptr w \<mapsto> ch)" "ctx ch = Some (Body f)"
    using alloc_spawned_heap [of E t f os "w\<lparr>user := u\<rparr>"] by auto
  have "c \<in> dom (heap w)" using co by blast
  moreover have "dom (heap w) \<subseteq> {..<next_ptr w}" using inv by (simp add: inv_def heap_ok_def)
  ultimately have ne: "c \<noteq> next_ptr w" by blast
  let ?w1 = "yielded (Inr Suspended) t c (Body p') (After_Resume c) ?a"
  have 1: "step E t w = ?w1"
    using l run sched.inside [of ?a t c "the (heap ?a c)" "After_Resume c" "Body p'"] co main ne
    by (simp add: step_def body_step_def scheduler_spawn_opts_alt th c ch)
  let ?w1' = "upd t (\<lambda>th. th\<lparr>last_result := None\<rparr>) ?w1"
  obtain q where r: "ready E t c Spawn_Check ?w1' = goto t Spawn_Check (?w1'\<lparr>global_queue := q\<rparr>)"
    and q: "bq_view E q = bq_view E (global_queue w) @ [c]"
    using ready_not_full [OF laws cap, of ?w1' t c Spawn_Check] room by auto
  have 2: "step E t ?w1 = goto t Spawn_Check (?w1'\<lparr>global_queue := q\<rparr>)"
    by (simp add: step_def run_task_end_def resume_result_def r [simplified])
  let ?w2 = "goto t Spawn_Check (?w1'\<lparr>global_queue := q\<rparr>)"
  have 3: "step E t ?w2 = entered t (next_ptr w) f (upd t (\<lambda>th. th\<lparr>new_spawned := None\<rparr>) ?w2)"
    using ch ne by (simp add: step_def schedule_spawned_def threads_goto th
        resume_entered [where co = ch])
  have eq: "(step E t ^^ 3) w = step E t (step E t (step E t w))"
    by (simp add: numeral_3_eq_3)
  show ?thesis
    using body_new_spawned [OF laws w t l] ne co
    by (simp add: eq 1 2 3 q work_count_def ch)
qed

theorem spawn_runs_child_witness:
  "loc (threads ((step demo 0 ^^ 3) ((step demo 0 ^^ 3) (demo_main [[D_Spawn [D_Block], D_Sched]]))) 0)
     = Body [D_Block]"
proof -
  let ?w = "(step demo 0 ^^ 3) (demo_main [[D_Spawn [D_Block], D_Sched]])"
  have "loc (threads ?w 0) = Body [D_Spawn [D_Block], D_Sched]"
    "cur_running (threads ?w 0) = Some 0" "bq_view demo (global_queue ?w) = []"
    "bq_cap demo (global_queue ?w) = 4096" "user ?w = 0"
    by (simp_all add: demo_eval)
  moreover have "run demo [D_Spawn [D_Block], D_Sched] 0 =
      (Call_Spawn [D_Block] (options_new 64) [D_Sched], 1)"
    by (simp add: demo_defs)
  ultimately show ?thesis
    using spawn_runs_child [OF demo_laws demo_capacity_laws demo_reachable [of 1] run_threads_pos]
    by simp
qed

end
