(* ===== verification/Coroutine_Spec.thy ===== *)
theory Coroutine_Spec
  imports Runtime_State
begin

text \<open>
  What the runtime promises, without its queue, slab, contexts and threads: a pool of
  coroutines, each at a point of its own code, any ready one of which makes the next call.
\<close>

section \<open>The abstract coroutine semantics\<close>

text \<open>
  A coroutine may make its next call (\<open>Ready\<close>), waits for an event of the event loop
  (\<open>Waiting\<close>), or nobody will ever continue it (\<open>Parked\<close>).
\<close>

datatype mode = Ready | Waiting | Parked

record ('p, 'u) spec =
  pool :: "ptr \<rightharpoonup> 'p \<times> mode"
  fresh :: ptr
  data :: 'u

text \<open>What the event loop may do: wake a waiting coroutine, or drop its registration.\<close>

definition io_change :: "(ptr \<rightharpoonup> 'p \<times> mode) \<Rightarrow> (ptr \<rightharpoonup> 'p \<times> mode) \<Rightarrow> bool" where
  "io_change P P' \<longleftrightarrow>
    (\<forall>c. P' c = P c \<or> (\<exists>p m. P c = Some (p, Waiting) \<and> P' c = Some (p, m)))"

inductive spec_step :: "('p \<Rightarrow> 'u \<Rightarrow> 'p call \<times> 'u) \<Rightarrow> ('p, 'u) spec \<Rightarrow> ('p, 'u) spec \<Rightarrow> bool"
  for R where
  tau: "pool a c = Some (p, Ready) \<Longrightarrow> R p (data a) = (Call_Tau p', u) \<Longrightarrow>
    spec_step R a (a\<lparr>pool := (pool a)(c \<mapsto> (p', Ready)), data := u\<rparr>)"
| return: "pool a c = Some (p, Ready) \<Longrightarrow> R p (data a) = (Call_Return, u) \<Longrightarrow>
    spec_step R a (a\<lparr>pool := (pool a)(c := None), data := u\<rparr>)"
| panic: "pool a c = Some (p, Ready) \<Longrightarrow> R p (data a) = (Call_Panic e, u) \<Longrightarrow>
    spec_step R a (a\<lparr>pool := (pool a)(c := None), data := u\<rparr>)"
| spawn: "pool a c = Some (p, Ready) \<Longrightarrow> R p (data a) = (Call_Spawn f os p', u) \<Longrightarrow>
    spec_step R a (a\<lparr>pool := (pool a)(c \<mapsto> (p', Ready), fresh a \<mapsto> (f, Ready)),
      fresh := Suc (fresh a), data := u\<rparr>)"
| sched: "pool a c = Some (p, Ready) \<Longrightarrow> R p (data a) = (Call_Sched p', u) \<Longrightarrow>
    spec_step R a (a\<lparr>pool := (pool a)(c \<mapsto> (p', Ready)), data := u\<rparr>)"
| block: "pool a c = Some (p, Ready) \<Longrightarrow> R p (data a) = (Call_Block p', u) \<Longrightarrow>
    spec_step R a (a\<lparr>pool := (pool a)(c \<mapsto> (p', Parked)), data := u\<rparr>)"
| wait: "pool a c = Some (p, Ready) \<Longrightarrow> R p (data a) = (Call_Wait fd i k, u) \<Longrightarrow>
    spec_step R a (a\<lparr>pool := (pool a)(c \<mapsto> (k (Inr ()), Waiting)), data := u\<rparr>)"
| wait_refused: "pool a c = Some (p, Ready) \<Longrightarrow> R p (data a) = (Call_Wait fd i k, u) \<Longrightarrow>
    spec_step R a (a\<lparr>pool := (pool a)(c \<mapsto> (k (Inl e), Ready)), data := u\<rparr>)"
| wait_full: "pool a c = Some (p, Ready) \<Longrightarrow> R p (data a) = (Call_Wait fd i k, u) \<Longrightarrow>
    spec_step R a (a\<lparr>pool := (pool a)(c := None), data := u\<rparr>)"
| io: "io_change (pool a) P \<Longrightarrow> spec_step R a (a\<lparr>pool := P\<rparr>)"

text \<open>A parked coroutine stays as it is, and a number is never given out twice.\<close>

lemma spec_step_parked:
  assumes "spec_step R a a'" and "pool a c = Some (p, Parked)" and "c < fresh a"
  shows "pool a' c = Some (p, Parked) \<and> c < fresh a'"
  using assms(1)
proof cases
  case (io P)
  then have "P c = pool a c" using assms(2) unfolding io_change_def by (metis Pair_inject mode.distinct(5) option.inject)
  then show ?thesis using assms io by simp
qed (use assms(2,3) in auto)

end
