(* ===== verification/Runtime_Refinement.thy ===== *)
theory Runtime_Refinement
  imports Spawn_Safety Coroutine_Spec
begin

text \<open>
  The runtime implements \<open>Coroutine_Spec\<close>: seen through \<open>spec_of\<close>, every step of every thread
  is one step of the abstract semantics, so no coroutine is run twice at once, resumed at a
  wrong place, duplicated or dropped by the queue, the slab or the context swaps.
\<close>

section \<open>The abstraction function\<close>

definition body_of :: "'p loc \<Rightarrow> 'p option" where
  "body_of l = (case l of Body p \<Rightarrow> Some p | _ \<Rightarrow> None)"

definition holds :: "('sl, 'ev, 'pl, 'stk, 'p) thread \<Rightarrow> ptr multiset" where
  "holds th = opt_mset (cur_running th) + opt_mset (new_spawned th) + loc_refs (last_result th) (loc th)"

definition awaits ::
  "('q, 'sl, 'ev, 'pl, 'stk, 'p, 'u) env \<Rightarrow> ('sl, 'ev, 'pl, 'stk, 'p) thread \<Rightarrow> ptr multiset" where
  "awaits E th = slab_refs (slab_view E (slabs th)) (live_tokens E (event_loop th) (loc th))"

lemma thread_refs_alt: "thread_refs E th = holds th + awaits E th"
  by (simp add: thread_refs_def holds_def awaits_def)

text \<open>A coroutine that runs is where its thread is; another is where its context says.\<close>

definition place ::
  "nat \<Rightarrow> ('q, 'sl, 'ev, 'pl, 'stk, 'p, 'u) world \<Rightarrow> ptr \<Rightarrow> 'p option" where
  "place n w c =
    (case find (\<lambda>t. cur_running (threads w t) = Some c) [0..<n] of
       Some t \<Rightarrow> body_of (loc (threads w t))
     | None \<Rightarrow> Option.bind (Option.bind (heap w c) ctx) body_of)"

definition mode_of ::
  "('q, 'sl, 'ev, 'pl, 'stk, 'p, 'u) env \<Rightarrow> nat \<Rightarrow>
   ('q, 'sl, 'ev, 'pl, 'stk, 'p, 'u) world \<Rightarrow> ptr \<Rightarrow> mode" where
  "mode_of E n w c =
    (if c \<in> set (bq_view E (global_queue w)) \<or> (\<exists>t<n. c \<in># holds (threads w t)) then Ready
     else if \<exists>t<n. c \<in># awaits E (threads w t) then Waiting else Parked)"

definition pool_of ::
  "('q, 'sl, 'ev, 'pl, 'stk, 'p, 'u) env \<Rightarrow> nat \<Rightarrow>
   ('q, 'sl, 'ev, 'pl, 'stk, 'p, 'u) world \<Rightarrow> ptr \<rightharpoonup> 'p \<times> mode" where
  "pool_of E n w c =
    (if heap w c = None \<or> dying n w c then None
     else map_option (\<lambda>p. (p, mode_of E n w c)) (place n w c))"

definition spec_of ::
  "('q, 'sl, 'ev, 'pl, 'stk, 'p, 'u) env \<Rightarrow> nat \<Rightarrow>
   ('q, 'sl, 'ev, 'pl, 'stk, 'p, 'u) world \<Rightarrow> ('p, 'u) spec" where
  "spec_of E n w = \<lparr>pool = pool_of E n w, fresh = next_ptr w, data = user w\<rparr>"

section \<open>Focusing on one thread\<close>

definition here ::
  "('q, 'sl, 'ev, 'pl, 'stk, 'p, 'u) env \<Rightarrow> tid \<Rightarrow>
   ('q, 'sl, 'ev, 'pl, 'stk, 'p, 'u) world \<Rightarrow> ptr \<rightharpoonup> 'p \<times> mode" where
  "here E t w c =
    (if heap w c = None \<or> dying_th (threads w t) c then None
     else map_option (\<lambda>p. (p,
         if c \<in> set (bq_view E (global_queue w)) \<or> c \<in># holds (threads w t) then Ready
         else if c \<in># awaits E (threads w t) then Waiting else Parked))
       (if cur_running (threads w t) = Some c then body_of (loc (threads w t))
        else Option.bind (Option.bind (heap w c) ctx) body_of))"

text \<open>Where the code of a coroutine goes on, as one thread sees it.\<close>

definition point :: "tid \<Rightarrow> ('q, 'sl, 'ev, 'pl, 'stk, 'p, 'u) world \<Rightarrow> ptr \<Rightarrow> 'p option" where
  "point t w c =
    (if cur_running (threads w t) = Some c then body_of (loc (threads w t))
     else Option.bind (Option.bind (heap w c) ctx) body_of)"

lemma place_point:
  assumes t: "t < n" and c: "c \<notin># others E n t w"
  shows "place n w c = point t w c"
proof -
  have cur: "cur_running (threads w i) \<noteq> Some c" if "i < n" "i \<noteq> t" for i
  proof -
    have "c \<notin># thread_refs E (threads w i)" using c that by (auto simp: others_def sum_mset_member)
    then show ?thesis by (auto simp: thread_refs_def)
  qed
  show ?thesis
  proof (cases "find (\<lambda>i. cur_running (threads w i) = Some c) [0..<n]")
    case None
    then have "cur_running (threads w t) \<noteq> Some c" using t by (auto simp: find_None_iff)
    then show ?thesis unfolding place_def None by (simp add: point_def)
  next
    case (Some i)
    then have i: "i < n" "cur_running (threads w i) = Some c" by (auto simp: find_Some_iff)
    then have "i = t" using cur by blast
    then show ?thesis using Some i(2) by (simp add: place_def point_def)
  qed
qed

lemma pool_here:
  assumes t: "t < n" and c: "c \<notin># others E n t w"
  shows "pool_of E n w c = here E t w c"
proof -
  have no: "c \<notin># thread_refs E (threads w i)" if "i < n" "i \<noteq> t" for i
    using c that by (auto simp: others_def sum_mset_member)
  have h: "c \<notin># holds (threads w i)" and a: "c \<notin># awaits E (threads w i)" if "i < n" "i \<noteq> t" for i
    using no [OF that] by (simp_all add: thread_refs_alt)
  have cur: "cur_running (threads w i) \<noteq> Some c" and dy: "\<not> dying_th (threads w i) c"
    if "i < n" "i \<noteq> t" for i
    using h [OF that] by (auto simp: holds_def dying_th_def)
  have "dying n w c \<longleftrightarrow> dying_th (threads w t) c" using dy t by (auto simp: dying_alt)
  moreover have "(\<exists>i<n. c \<in># holds (threads w i)) \<longleftrightarrow> c \<in># holds (threads w t)"
    using h t by blast
  moreover have "(\<exists>i<n. c \<in># awaits E (threads w i)) \<longleftrightarrow> c \<in># awaits E (threads w t)"
    using a t by blast
  moreover have "place n w c = point t w c" by (rule place_point [OF t c])
  ultimately show ?thesis by (simp add: pool_of_def here_def mode_of_def point_def)
qed

lemma inv_one_holder:
  assumes inv: "inv E n {#} w" and i: "i < n" and c: "c \<in># thread_refs E (threads w i)"
  shows "c \<notin># others E n i w" and "c \<notin> set (bq_view E (global_queue w))"
proof -
  have "count (refs E n w) c \<le> 1" using inv by (simp add: inv_def)
  moreover have "1 \<le> count (thread_refs E (threads w i)) c"
    using c by (simp only: count_greater_eq_one_iff)
  ultimately have "count (mset (bq_view E (global_queue w)) + others E n i w) c = 0"
    unfolding refs_split [OF i] count_union by linarith
  then have "c \<notin># mset (bq_view E (global_queue w)) + others E n i w"
    by (simp only: count_eq_zero_iff not_False_eq_True)
  then show "c \<notin># others E n i w" and "c \<notin> set (bq_view E (global_queue w))" by simp_all
qed

text \<open>A coroutine of another thread is not affected by what this thread does.\<close>

lemma pool_there:
  assumes inv: "inv E n {#} w" "inv E n {#} w'" and c: "c \<in># others E n t w"
    and same: "\<And>i. i \<noteq> t \<Longrightarrow> threads w' i = threads w i" "heap w' c = heap w c"
  shows "pool_of E n w' c = pool_of E n w c"
proof -
  obtain i where i: "i < n" "i \<noteq> t" and ci: "c \<in># thread_refs E (threads w i)"
    using c by (auto simp: others_def sum_mset_member)
  have ci': "c \<in># thread_refs E (threads w' i)" using ci same(1) [OF i(2)] by simp
  note o = inv_one_holder [OF inv(1) i(1) ci] and o' = inv_one_holder [OF inv(2) i(1) ci']
  show ?thesis
    using o(2) o'(2) same(1) [OF i(2)] same(2)
    by (simp add: pool_here [OF i(1) o(1)] pool_here [OF i(1) o'(1)] here_def)
qed

lemma finished_heap:
  "heap w h = Some co \<Longrightarrow> heap (finished E t h k w) = (heap w)(h := None)"
  by (simp add: finished_defs co_drop_def Let_def split: option.split)

lemma effect_heap:
  assumes e: "effect E t w w'" and c: "c \<notin># thread_refs E (threads w t)" "c \<noteq> next_ptr w"
  shows "heap w' c = heap w c"
  using e
proof cases
  case (spawn p c' co f os p' u)
  then show ?thesis
    using c alloc_spawned_heap [of E t f os "w\<lparr>user := u\<rparr>"] by (auto simp: thread_refs_def)
next
  case (ended h co)
  then show ?thesis using c by (auto simp: thread_refs_def dying_th_def finished_heap)
qed (use c in \<open>auto simp: thread_refs_def frame\<close>)

lemma effect_other: "effect E t w w' \<Longrightarrow> i \<noteq> t \<Longrightarrow> threads w' i = threads w i"
  by (induction rule: effect.cases) (simp_all add: frame)

text \<open>The new pool is given by what happens to the coroutines no other thread holds.\<close>

lemma pool_step:
  assumes laws: "env_laws E" and inv: "inv E n {#} w" "inv E n {#} w'" and t: "t < n"
    and e: "effect E t w w'"
    and local: "\<And>c. c \<notin># others E n t w \<Longrightarrow> here E t w' c = F c"
    and rest: "\<And>c. c \<in># others E n t w \<Longrightarrow> F c = pool_of E n w c"
  shows "pool_of E n w' = F"
proof
  fix c
  show "pool_of E n w' c = F c"
  proof (cases "c \<in># others E n t w")
    case True
    have "c \<in># refs E n w" using True by (simp add: refs_split [OF t])
    then have "c \<in> dom (heap w)" using inv(1) by (auto simp: inv_def)
    then have "c < next_ptr w" using inv(1) by (auto simp: inv_def heap_ok_def)
    moreover have "c \<notin># thread_refs E (threads w t)"
      using inv_one_holder [OF inv(1) t] True by blast
    ultimately have "heap w' c = heap w c" using effect_heap [OF e] by blast
    then show ?thesis
      using pool_there [OF inv True effect_other [OF e]] rest [OF True] by simp
  next
    case False
    have "others E n t w' = others E n t w" by (rule others_cong) (rule effect_other [OF e])
    then show ?thesis using pool_here [OF t, of c E w'] local False by simp
  qed
qed


section \<open>The simulation\<close>

lemma body_of_simps [simp]:
  "body_of (Body p) = Some p" "body_of (After_Resume h) = None" "body_of (Epilogue st) = None"
  "body_of Spawn_Check = None" "body_of (Ready_Push h k) = None"
  by (simp_all add: body_of_def)

lemmas here_simps = here_def holds_def awaits_def dying_th_def threads_goto live_tokens_def

text \<open>A running coroutine is ready, at the point its thread is.\<close>

lemma running_here:
  assumes inv: "inv E n {#} w" and t: "t < n" and l: "loc (threads w t) = Body p"
    and c: "cur_running (threads w t) = Some c"
  shows "c \<notin># others E n t w" "here E t w c = Some (p, Ready)" "pool_of E n w c = Some (p, Ready)"
proof -
  show o: "c \<notin># others E n t w"
    using inv_one_holder [OF inv t, of c] c by (simp add: thread_refs_def)
  obtain co where "heap w c = Some co" using inv_cur_alloc [OF inv t c] by blast
  then show h: "here E t w c = Some (p, Ready)" using l c by (simp add: here_simps)
  show "pool_of E n w c = Some (p, Ready)" using pool_here [OF t o] h by simp
qed

lemma in_awaits:
  assumes "env_laws E"
  shows "c \<in># awaits E th \<longleftrightarrow> (\<exists>tok fd. slab_view E (slabs th) tok = Some (c, fd) \<and>
    tok \<in> live_tokens E (event_loop th) (loc th))"
proof -
  have "finite (dom (slab_view E (slabs th)) \<inter> live_tokens E (event_loop th) (loc th))"
    using slab_finite [OF assms] by blast
  then have "c \<in># awaits E th \<longleftrightarrow> c \<in> (\<lambda>tok. fst (the (slab_view E (slabs th) tok))) `
      (dom (slab_view E (slabs th)) \<inter> live_tokens E (event_loop th) (loc th))"
    by (simp add: awaits_def slab_refs_def)
  then show ?thesis by force
qed

text \<open>One that waits on a thread is nothing else to it.\<close>

lemma awaits_not_held:
  assumes inv: "inv E n {#} w" and t: "t < n" and x: "x \<in># awaits E (threads w t)"
  shows "x \<notin># holds (threads w t)"
proof -
  have "count (refs E n w) x \<le> 1" using inv by (simp add: inv_def)
  then have "count (thread_refs E (threads w t)) x \<le> 1"
    unfolding refs_split [OF t] count_union by linarith
  moreover have "1 \<le> count (awaits E (threads w t)) x"
    using x by (simp only: count_greater_eq_one_iff)
  ultimately have "count (holds (threads w t)) x = 0"
    unfolding thread_refs_alt count_union by linarith
  then show ?thesis by (simp only: count_eq_zero_iff not_False_eq_True)
qed

lemma ref_alloc:
  assumes "inv E n X w" and "c \<in># refs E n w"
  shows "heap w c \<noteq> None" "c < next_ptr w"
proof -
  have c: "c \<in> dom (heap w)" using assms by (simp add: inv_def)
  then show "heap w c \<noteq> None" by blast
  show "c < next_ptr w" using c assms(1) unfolding inv_def heap_ok_def by blast
qed

text \<open>A step that makes no call changes the pool as the event loop may.\<close>

lemma sim_io:
  assumes laws: "env_laws E" and inv: "inv E n {#} w" "inv E n {#} w'" and t: "t < n"
    and e: "effect E t w w'"
    and frame: "next_ptr w' = next_ptr w" "user w' = user w"
    and here: "\<And>c. c \<notin># others E n t w \<Longrightarrow> here E t w' c = here E t w c \<or>
      (\<exists>p m. here E t w c = Some (p, Waiting) \<and> here E t w' c = Some (p, m))"
  shows "spec_step (run E) (spec_of E n w) (spec_of E n w')"
proof -
  let ?F = "\<lambda>c. if c \<in># others E n t w then pool_of E n w c else here E t w' c"
  have "pool_of E n w' = ?F" by (rule pool_step [OF laws inv t e]) simp_all
  moreover have "io_change (pool_of E n w) ?F"
    unfolding io_change_def
  proof
    fix c
    show "?F c = pool_of E n w c \<or> (\<exists>p m. pool_of E n w c = Some (p, Waiting) \<and> ?F c = Some (p, m))"
      using pool_here [OF t, of c E w] here [of c] by (cases "c \<in># others E n t w") auto
  qed
  ultimately have "io_change (pool (spec_of E n w)) (pool_of E n w')" by (simp add: spec_of_def)
  then show ?thesis
    using spec_step.io [of "spec_of E n w" "pool_of E n w'" "run E"] frame by (simp add: spec_of_def)
qed

lemma pool_points:
  assumes laws: "env_laws E" and inv: "inv E n {#} w" "inv E n {#} w'" and t: "t < n"
    and e: "effect E t w w'"
    and D: "\<And>c. c \<in> D \<Longrightarrow> c \<notin># others E n t w"
    and same: "\<And>c. c \<notin> D \<Longrightarrow> here E t w' c = here E t w c"
  shows "pool_of E n w' c = (if c \<in> D then here E t w' c else pool_of E n w c)"
proof -
  have "pool_of E n w' = (\<lambda>c. if c \<in> D then here E t w' c else pool_of E n w c)"
    using D same pool_here [OF t, of _ E w] by (intro pool_step [OF laws inv t e]) auto
  then show ?thesis by simp
qed

text \<open>The coroutine that runs is the only one a call changes, except for a new one.\<close>

lemma pool_running:
  assumes laws: "env_laws E" and inv: "inv E n {#} w" "inv E n {#} w'" and t: "t < n"
    and e: "effect E t w w'" and c: "cur_running (threads w t) = Some c"
    and v: "here E t w' c = v"
    and same: "\<And>c'. c' \<noteq> c \<Longrightarrow> here E t w' c' = here E t w c'"
  shows "pool_of E n w' = (pool_of E n w)(c := v)"
proof -
  have "c \<notin># others E n t w"
    using inv_one_holder [OF inv(1) t, of c] c by (simp add: thread_refs_def)
  then have "pool_of E n w' x = (if x \<in> {c} then here E t w' x else pool_of E n w x)" for x
    using same by (intro pool_points [OF laws inv t e]) auto
  then show ?thesis using v by (simp add: fun_eq_iff)
qed

lemma body_step_sim:
  assumes laws: "env_laws E" and inv: "inv E n {#} w" "inv E n {#} w'" and t: "t < n"
    and e: "effect E t w w'" and l: "loc (threads w t) = Body p0"
    and ns: "new_spawned (threads w t) = None"
  shows "spec_step (run E) (spec_of E n w) (spec_of E n w')"
proof -
  obtain c where c: "cur_running (threads w t) = Some c"
    using inv(1) t thread_okD_Body [OF _ l, of E] by (auto simp: inv_def)
  obtain co where co: "heap w c = Some co" using inv_cur_alloc [OF inv(1) t c] by blast
  note r = running_here(3) [OF inv(1) t l c]
  have q: "c \<notin> set (bq_view E (global_queue w))"
    using inv_one_holder [OF inv(1) t, of c] c by (simp add: thread_refs_def)
  have "count (refs E n w) c \<le> 1" using inv(1) by (simp add: inv_def)
  then have "count (thread_refs E (threads w t)) c \<le> 1" unfolding refs_split [OF t] count_union by linarith
  then have na: "c \<notin># awaits E (threads w t)"
    using c by (simp add: thread_refs_alt holds_def not_in_iff)
  note pool = pool_running [OF laws inv t e c]
  note defs = here_def holds_def dying_th_def in_awaits [OF laws] live_tokens_def
  show ?thesis
    using e
  proof cases
    case (tau p d p' u)
    have "pool_of E n w' = (pool_of E n w)(c \<mapsto> (p', Ready))"
      by (rule pool) (use tau c co ns q na l in \<open>auto simp: defs threads_goto\<close>)
    then show ?thesis
      using spec_step.tau [of "spec_of E n w" c p "run E" p' u] r tau l c by (simp add: spec_of_def)
  next
    case (return p d co u)
    have "pool_of E n w' = (pool_of E n w)(c := None)"
      by (rule pool) (use return c co ns q na l in \<open>auto simp: defs\<close>)
    then show ?thesis
      using spec_step.return [of "spec_of E n w" c p "run E" u] r return l c by (simp add: spec_of_def)
  next
    case (panic p d co ex u)
    have "pool_of E n w' = (pool_of E n w)(c := None)"
      by (rule pool) (use panic c co ns q na l in \<open>auto simp: defs\<close>)
    then show ?thesis
      using spec_step.panic [of "spec_of E n w" c p "run E" ex u] r panic l c by (simp add: spec_of_def)
  next
    case (sched p d co p' u)
    have "pool_of E n w' = (pool_of E n w)(c \<mapsto> (p', Ready))"
      by (rule pool) (use sched c co ns q na l in \<open>auto simp: defs\<close>)
    then show ?thesis
      using spec_step.sched [of "spec_of E n w" c p "run E" p' u] r sched l c by (simp add: spec_of_def)
  next
    case (block p d co p' u)
    have "pool_of E n w' = (pool_of E n w)(c \<mapsto> (p', Parked))"
      by (rule pool) (use block c co ns q na l in \<open>auto simp: defs\<close>)
    then show ?thesis
      using spec_step.block [of "spec_of E n w" c p "run E" p' u] r block l c by (simp add: spec_of_def)
  next
    case (wait_full p d co fd i k u y sl ex)
    have "pool_of E n w' = (pool_of E n w)(c := None)"
      by (rule pool) (use wait_full c co ns q na l in \<open>auto simp: defs\<close>)
    then show ?thesis
      using spec_step.wait_full [of "spec_of E n w" c p "run E" fd i k u] r wait_full l c
      by (simp add: spec_of_def)
  next
    case (wait_refused p d co fd i k u tok sl ex ev)
    have "pool_of E n w' = (pool_of E n w)(c \<mapsto> (k (Inl ex), Ready))"
      by (rule pool) (use wait_refused c co ns q na l in
          \<open>auto simp: defs threads_goto, metis option.distinct(1)\<close>)
    then show ?thesis
      using spec_step.wait_refused [of "spec_of E n w" c p "run E" fd i k u ex] r wait_refused l c
      by (simp add: spec_of_def)
  next
    case (wait p d co fd i k u tok sl ev)
    have "pool_of E n w' = (pool_of E n w)(c \<mapsto> (k (Inr ()), Waiting))"
      by (rule pool) (use wait c co ns q na l in
          \<open>auto simp: defs, metis option.distinct(1)\<close>)
    then show ?thesis
      using spec_step.wait [of "spec_of E n w" c p "run E" fd i k u] r wait l c
      by (simp add: spec_of_def)
  next
    case (spawn p d co f os p' u)
    let ?a = "alloc_spawned E t f os (w\<lparr>user := u\<rparr>)"
    obtain sp where th: "threads ?a t =
        (threads w t)\<lparr>stack_pool := sp, new_spawned := Some (next_ptr w)\<rparr>"
      using alloc_spawned_thread [of E t f os "w\<lparr>user := u\<rparr>"] by auto
    obtain ch where ch: "heap ?a = (heap w)(next_ptr w \<mapsto> ch)" "ctx ch = Some (Body f)"
      using alloc_spawned_heap [of E t f os "w\<lparr>user := u\<rparr>"] by auto
    have dom: "dom (heap w) \<subseteq> {..<next_ptr w}" using inv(1) by (simp add: inv_def heap_ok_def)
    then have new: "next_ptr w \<notin> dom (heap w)" "c \<noteq> next_ptr w" using co by auto
    then have nr: "next_ptr w \<notin># refs E n w" using inv(1) unfolding inv_def by auto
    then have no: "next_ptr w \<notin># others E n t w" by (simp add: refs_split [OF t])
    have co': "c \<notin># others E n t w"
      using inv_one_holder [OF inv(1) t, of c] c by (simp add: thread_refs_def)
    have same: "here E t w' c' = here E t w c'" if "c' \<notin> {c, next_ptr w}" for c'
      using that spawn c ns l by (auto simp: defs th ch)
    moreover have "here E t w' c = Some (p', Ready)" "here E t w' (next_ptr w) = Some (f, Ready)"
      using spawn c ns l new by (auto simp: defs th ch)
    moreover have "pool_of E n w' c' =
        (if c' \<in> {c, next_ptr w} then here E t w' c' else pool_of E n w c')" for c'
      using no co' same by (intro pool_points [OF laws inv t e]) auto
    ultimately have "pool_of E n w' = (pool_of E n w)(c \<mapsto> (p', Ready), next_ptr w \<mapsto> (f, Ready))"
      using new(2) by (simp add: fun_eq_iff)
    then show ?thesis
      using spec_step.spawn [of "spec_of E n w" c p "run E" f os p' u] r spawn l c
      by (simp add: spec_of_def)
  qed (use l in auto)
qed

lemma body_of_in_scheduler [simp]: "in_scheduler k \<Longrightarrow> body_of k = None"
  by (cases k) (simp_all add: body_of_def)

text \<open>Pushed or still to be pushed: a coroutine made ready is ready.\<close>

lemma here_ready:
  assumes laws: "env_laws E" and k: "in_scheduler k"
  shows "here E t (ready E t h k w) c = here E t (goto t (Ready_Push h k) w) c"
proof -
  have d: "dying_th ((threads w t)\<lparr>loc := k\<rparr>) c = False"
      "dying_th ((threads w t)\<lparr>loc := Ready_Push h k\<rparr>) c = False"
    using k by (simp_all add: dying_in_scheduler) (simp add: dying_th_def)
  show ?thesis
    using k by (cases rule: ready_cases [OF laws, of t h k w])
      (simp_all add: here_def holds_def awaits_def live_tokens_def threads_goto d)
qed

lemma ready_user [frame]: "user (ready E t h k w) = user w"
  by (simp add: ready_def split: prod.split sum.split)

lemma finished_user [frame]:
  "user (finished E t h k w) = user w" "global_queue (finished E t h k w) = global_queue w"
  by (simp_all add: finished_defs co_drop_def Let_def split: option.split)

text \<open>Taking registrations away from a thread that runs nothing.\<close>

lemma here_change:
  assumes "env_laws E"
    and "heap w' c = heap w c" "bq_view E (global_queue w') = bq_view E (global_queue w)"
    and "cur_running (threads w t) = None" "cur_running (threads w' t) = None"
    and "\<not> dying_th (threads w t) c" "\<not> dying_th (threads w' t) c"
    and "c \<in># holds (threads w' t) \<longleftrightarrow> c \<in># holds (threads w t) \<or> c \<in># X"
    and "c \<in># X \<Longrightarrow> c \<in># awaits E (threads w t)"
    and "\<And>tok x. slab_view E (slabs (threads w' t)) tok = Some x \<Longrightarrow>
      slab_view E (slabs (threads w t)) tok = Some x"
    and "live_tokens E (event_loop (threads w' t)) (loc (threads w' t)) \<subseteq>
      live_tokens E (event_loop (threads w t)) (loc (threads w t))"
  shows "here E t w' c = here E t w c \<or>
    (\<exists>p m. here E t w c = Some (p, Waiting) \<and> here E t w' c = Some (p, m))"
proof -
  have "c \<in># awaits E (threads w t)" if "c \<in># awaits E (threads w' t)"
    using that assms(10,11) unfolding in_awaits [OF assms(1)] by blast
  then show ?thesis
    using assms(2-9)
    by (cases "Option.bind (Option.bind (heap w c) ctx) body_of") (simp_all add: here_def)
qed

lemma sim_stutter:
  assumes "env_laws E" and "inv E n {#} w" "inv E n {#} w'" and "t < n"
    and "effect E t w w'"
    and "next_ptr w' = next_ptr w" "user w' = user w"
    and "\<And>c. here E t w' c = here E t w c"
  shows "spec_step (run E) (spec_of E n w) (spec_of E n w')"
  using assms by (intro sim_io [OF assms(1-7)]) blast

text \<open>Freeing a coroutine that has ended is not seen: it had already left the pool.\<close>

lemma here_ended:
  assumes ok: "thread_ok E (threads w t)" and l: "loc (threads w t) = After_Resume h"
    and d: "dying_th (threads w t) h" and co: "heap w h = Some co"
  shows "here E t (finished E t h Spawn_Check (upd t (\<lambda>th. th\<lparr>last_result := None\<rparr>) w)) c =
    here E t w c"
proof -
  define w' where "w' = finished E t h Spawn_Check (upd t (\<lambda>th. th\<lparr>last_result := None\<rparr>) w)"
  obtain sp where th: "threads w' t =
      (threads w t)\<lparr>last_result := None, stack_pool := sp, loc := Spawn_Check\<rparr>"
    using finished_thread [of "upd t (\<lambda>th. th\<lparr>last_result := None\<rparr>) w" h co E t Spawn_Check] co
    by (auto simp: w'_def)
  have rest: "heap w' = (heap w)(h := None)" "global_queue w' = global_queue w"
    using co by (simp_all add: w'_def frame finished_heap)
  have "cur_running (threads w t) = None" using ok l by (simp add: thread_ok_def)
  then have "here E t w' c = here E t w c"
    using l d by (cases "c = h") (simp_all add: here_def holds_def awaits_def dying_th_def
        live_tokens_def th rest)
  then show ?thesis by (simp add: w'_def)
qed

lemma other_step_sim:
  assumes laws: "env_laws E" and inv: "inv E n {#} w" "inv E n {#} w'" and t: "t < n"
    and e: "effect E t w w'" and l: "\<And>p. loc (threads w t) \<noteq> Body p"
  shows "spec_step (run E) (spec_of E n w) (spec_of E n w')"
proof -
  note io = sim_io [OF laws inv t e] and stutter = sim_stutter [OF laws inv t e]
  have ok: "thread_ok E (threads w t)" using inv(1) t by (simp add: inv_def)
  note defs = here_def holds_def awaits_def dying_th_def live_tokens_def threads_goto
  note ok = ok [unfolded thread_ok_def]
  show ?thesis
    using e
  proof cases
    case (suspended h)
    show ?thesis
      by (rule stutter) (simp_all add: suspended(1) frame here_ready [OF laws],
          simp add: defs suspended(2,3))
  next
    case (push h k)
    then have k: "in_scheduler k" by auto
    show ?thesis
      by (rule stutter) (simp_all add: push(1,2) frame here_ready [OF laws k], simp add: defs push(2))
  next
    case (pop h q co p)
    show ?thesis
      by (rule stutter) (use pop ok in \<open>auto simp: defs\<close>)
  next
    case (spawned h co p)
    show ?thesis
      by (rule stutter) (use spawned ok in \<open>auto simp: defs\<close>)
  next
    case (ended h co)
    have "thread_ok E (threads w t)" using inv(1) t by (simp add: inv_def)
    note here = here_ended [OF this ended(2-4)]
    show ?thesis
      by (rule stutter) (simp_all add: ended(1) frame here)
  next
    case (event tok es evs h fd sl ev)
    show ?thesis
    proof (rule io)
      fix c
      let ?w = "goto t (Ready_Push h (Dispatch evs)) (with_io t sl ev w)"
      have "h \<in># awaits E (threads w t)"
        using event by (auto simp: in_awaits [OF laws] live_tokens_def)
      then have "here E t ?w c = here E t w c \<or>
          (\<exists>p m. here E t w c = Some (p, Waiting) \<and> here E t ?w c = Some (p, m))"
        using event ok
        by (intro here_change [OF laws, where X = "{#h#}"])
          (auto simp: threads_goto holds_def dying_th_def live_tokens_def split: if_splits)
      then show "here E t w' c = here E t w c \<or>
          (\<exists>p m. here E t w c = Some (p, Waiting) \<and> here E t w' c = Some (p, m))"
        using event(1) here_ready [OF laws, of "Dispatch evs" t h "with_io t sl ev w" c] by simp
    qed (use event in \<open>simp_all add: frame\<close>)
  next
    case (abort tok es evs h fd sl ev)
    show ?thesis
    proof (rule io)
      show "here E t w' c = here E t w c \<or>
          (\<exists>p m. here E t w c = Some (p, Waiting) \<and> here E t w' c = Some (p, m))" for c
        by (rule here_change [OF laws, where X = "{#}"])
          (use abort ok in \<open>auto simp: threads_goto holds_def dying_th_def live_tokens_def split: if_splits\<close>)
    qed (simp_all add: abort(1))
  next
    case (poll_error ev e)
    show ?thesis
    proof (rule io)
      show "here E t w' c = here E t w c \<or>
          (\<exists>p m. here E t w c = Some (p, Waiting) \<and> here E t w' c = Some (p, m))" for c
        by (rule here_change [OF laws, where X = "{#}"])
          (use poll_error ok in \<open>auto simp: threads_goto holds_def dying_th_def live_tokens_def\<close>)
    qed (simp_all add: poll_error(1))
  next
    case (stray tok es evs sl)
    show ?thesis
    proof (rule io)
      show "here E t w' c = here E t w c \<or>
          (\<exists>p m. here E t w c = Some (p, Waiting) \<and> here E t w' c = Some (p, m))" for c
        by (rule here_change [OF laws, where X = "{#}"])
          (use stray ok in \<open>auto simp: threads_goto holds_def dying_th_def live_tokens_def\<close>)
    qed (simp_all add: stray(1))
  next
    case (poll evs ev)
    have "live_tokens E ev (Dispatch evs) = live_tokens E (event_loop (threads w t)) Idle"
      using poll by (auto simp: live_tokens_def)
    then show ?thesis
      by (intro stutter) (use poll ok in \<open>auto simp: here_def holds_def awaits_def dying_th_def threads_goto\<close>)
  next
    case blocked
    show ?thesis
      by (rule stutter) (use blocked ok in \<open>auto simp: defs\<close>)
  qed (rule stutter; use l ok in \<open>simp_all add: defs body_of_def\<close>)+
qed

lemma sim_step:
  assumes laws: "env_laws E" and inv: "inv E n {#} w" and t: "t < n"
    and ns: "\<And>p. loc (threads w t) = Body p \<Longrightarrow> new_spawned (threads w t) = None"
  shows "spec_step (run E) (spec_of E n w) (spec_of E n (step E t w))"
proof (cases "\<exists>p. loc (threads w t) = Body p")
  case True
  then show ?thesis
    using body_step_sim [OF laws inv inv_step [OF laws t inv] t step_effect [OF laws inv t]] ns
    by blast
next
  case False
  then show ?thesis
    using other_step_sim [OF laws inv inv_step [OF laws t inv] t step_effect [OF laws inv t]]
    by blast
qed

end
