(* ===== verification/Coroutine_Contract.thy ===== *)
theory Coroutine_Contract
  imports Runtime_Refinement
begin

text \<open>
  What a user of coroutines may rely on, stated on the abstract semantics and proved of the
  runtime: the refinement itself, panics that stay inside their coroutine, events that wake
  who waited, and blocking for good.
\<close>

section \<open>The runtime refines the coroutine semantics\<close>

text \<open>C3. From every reachable state of \<open>run(n)\<close>, whatever thread makes the next step, that step
  is a step of the abstract coroutine semantics: one ready coroutine makes its next call, at
  the point where it last left off, or the event loop wakes or drops waiting ones.\<close>

theorem runtime_refines_spec:
  assumes laws: "env_laws E" and w: "reachable E n w" and s: "sys_step E (run_threads n) w w'"
  shows "spec_step (run E) (spec_of E (run_threads n) w) (spec_of E (run_threads n) w')"
proof -
  obtain t where t: "t < run_threads n" "w' = step E t w" using s by (auto elim: sys_step.cases)
  show ?thesis
    unfolding t(2) by (rule sim_step [OF laws reachable_inv [OF laws w] t(1) body_new_spawned [OF laws w t(1)]])
qed

theorem runtime_refines_spec_witness:
  "spec_step (run demo) (spec_of demo (run_threads 2) ((step demo 0 ^^ 3) (demo_main [[D_Sched]])))
    (spec_of demo (run_threads 2) (step demo 1 ((step demo 0 ^^ 3) (demo_main [[D_Sched]]))))"
  by (rule runtime_refines_spec [OF demo_laws demo_reachable]) (simp add: sys_step.intros run_threads_def)

lemma spec_of_start:
  assumes laws: "env_laws E" and w0: "world_init E u = Some w0" and n: "0 < n"
  shows "spec_of E n (spawn_all E [(f, os)] w0) =
    \<lparr>pool = [0 \<mapsto> (f, Ready)], fresh = 1, data = u\<rparr>"
proof -
  let ?w = "alloc_spawned E 0 f os w0"
  have inv: "inv E n {#} w0" by (rule inv_world_init [OF laws w0])
  have eq: "spawn_all E [(f, os)] w0 = ?w"
    using inv_started_spawn(3) [OF n inv world_init_loc [OF w0]] by simp
  have h0: "heap w0 = Map.empty" "next_ptr w0 = 0" "user w0 = u" "bq_view E (global_queue w0) = []"
    and th0: "\<And>i. cur_running (threads w0 i) = None" "\<And>i. loc (threads w0 i) = Loop_Top"
    using w0 bq_new_view [OF laws]
    by (auto simp: world_init_def processor_new_def processor.extend_def scheduler_queue_def
        split: option.splits sum.splits)
  obtain sp where th: "threads ?w 0 = (threads w0 0)\<lparr>stack_pool := sp, new_spawned := Some 0\<rparr>"
    using alloc_spawned_thread [of E 0 f os w0] h0(2) by auto
  obtain ch where ch: "heap ?w = [0 \<mapsto> ch]" "ctx ch = Some (Body f)"
    using alloc_spawned_heap [of E 0 f os w0] h0 by auto
  have th': "cur_running (threads ?w i) = None" "loc (threads ?w i) = Loop_Top" for i
    using th0 th by (cases "i = 0"; simp)+
  have "find (\<lambda>t. cur_running (threads ?w t) = Some c) [0..<n] = None" for c
    by (simp add: find_None_iff th')
  moreover have "\<not> dying n ?w c" for c by (auto simp: dying_def th')
  moreover have "\<exists>t<n. 0 \<in># holds (threads ?w t)"
    using n th by (intro exI [of _ 0]) (simp add: holds_def)
  ultimately have "pool_of E n ?w = [0 \<mapsto> (f, Ready)]"
    by (auto simp: pool_of_def place_def mode_of_def ch fun_eq_iff)
  then show ?thesis unfolding eq by (simp add: spec_of_def h0)
qed

lemma run_simulates:
  assumes laws: "env_laws E" and w0: "world_init E u = Some w0"
    and w: "reach (\<lambda>s. s = spawn_all E [(f, os)] w0) (sys_step E (run_threads n)) w"
  shows "(spec_step (run E))\<^sup>*\<^sup>* \<lparr>pool = [0 \<mapsto> (f, Ready)], fresh = 1, data = u\<rparr>
    (spec_of E (run_threads n) w)"
  using w
proof (induction rule: reach.induct)
  case (reach_init s)
  show ?case unfolding reach_init spec_of_start [OF laws w0 run_threads_pos] ..
next
  case (reach_step s s')
  have "reachable E n s"
    using reach_step.hyps(1) by (rule reach_mono) (use w0 in \<open>unfold started_def, blast\<close>)
  moreover obtain t where t: "t < run_threads n" "s' = step E t s"
    using reach_step.hyps(2) by (auto elim: sys_step.cases)
  ultimately have "spec_step (run E) (spec_of E (run_threads n) s) (spec_of E (run_threads n) s')"
    unfolding t(2)
    by (intro sim_step [OF laws reachable_inv [OF laws] t(1) body_new_spawned [OF laws _ t(1)]])
  then show ?case using reach_step.IH by (rule rtranclp.rtrancl_into_rtrancl [rotated])
qed

text \<open>C4. A program whose \<open>main\<close> spawns one coroutine and calls \<open>run(n)\<close>: whatever the schedule,
  what has happened so far is an execution of the abstract semantics from the one coroutine.\<close>

theorem run_is_spec_execution:
  assumes laws: "env_laws E" and w0: "world_init E u = Some w0"
    and w: "reach (\<lambda>s. s = spawn_all E [(f, os)] w0) (sys_step E (run_threads n)) w"
  shows "(spec_step (run E))\<^sup>*\<^sup>* \<lparr>pool = [0 \<mapsto> (f, Ready)], fresh = 1, data = u\<rparr>
    (spec_of E (run_threads n) w)"
  by (rule run_simulates [OF assms])

theorem run_is_spec_execution_witness:
  "(spec_step (run demo))\<^sup>*\<^sup>* \<lparr>pool = [0 \<mapsto> ([D_Spawn []], Ready)], fresh = 1, data = 0\<rparr>
    (spec_of demo 1 ((step demo 0 ^^ 5) (demo_main [[D_Spawn []]])))"
proof -
  have "reach (\<lambda>s. s = spawn_all demo [([D_Spawn []], options_new 64)] demo_init)
      (sys_step demo (run_threads 1)) ((step demo 0 ^^ 5) (demo_main [[D_Spawn []]]))"
    by (rule reach_steps) (simp_all add: reach.reach_init demo_main_def)
  then show ?thesis
    using run_is_spec_execution [OF demo_laws demo_world_init] by (fastforce simp: run_threads_def)
qed

section \<open>Calls and what they change\<close>

text \<open>C8. A panic in one coroutine ends that coroutine and nothing else: two steps later it is
  freed, its slot in the counter is given back, every other coroutine is exactly as before, and
  the thread goes on scheduling.\<close>

theorem panic_isolated:
  assumes laws: "env_laws E" and w: "reachable E n w" and t: "t < run_threads n"
    and l: "loc (threads w t) = Body p" and c: "cur_running (threads w t) = Some c"
    and run: "run E p (user w) = (Call_Panic e, u)"
  shows "pool_of E (run_threads n) ((step E t ^^ 2) w) = (pool_of E (run_threads n) w)(c := None) \<and>
    heap ((step E t ^^ 2) w) = (heap w)(c := None) \<and>
    work_count ((step E t ^^ 2) w) = work_count w - 1 \<and>
    loc (threads ((step E t ^^ 2) w) t) = Spawn_Check"
proof -
  let ?n = "run_threads n"
  have inv: "inv E ?n {#} w" by (rule reachable_inv [OF laws w])
  have inv1: "inv E ?n {#} (step E t w)" by (rule inv_step [OF laws t inv])
  have ns: "new_spawned (threads w t) = None" by (rule body_new_spawned [OF laws w t l])
  obtain co where co: "heap w c = Some co" using inv_cur_alloc [OF inv t c] by blast
  have main: "ctx (main_coro (threads w t)) = Some (After_Resume c)"
    using inv t c thread_okD_Body [OF _ l, of E] by (auto simp: inv_def)
  let ?w1 = "yielded (Inl (Panicking e)) t c (Epilogue Panicked) (After_Resume c) (w\<lparr>user := u\<rparr>)"
  let ?w2 = "finished E t c Spawn_Check (upd t (\<lambda>th. th\<lparr>last_result := None\<rparr>) ?w1)"
  have 1: "step E t w = ?w1"
    using run l c co main
    by (simp add: step_def body_step_def coroutine_initialize_def initialize_outcome_def
        yield_with.inside [where c = c and co = co and l = "After_Resume c"])
  have 2: "step E t ?w1 = ?w2"
    by (simp add: step_def run_task_end_def resume_result_def)
  have heap1: "heap ?w1 c = Some (co\<lparr>ctx := Some (Epilogue Panicked)\<rparr>)" using co by simp
  have "pool_of E ?n (step E t w) = (pool_of E ?n w)(c := None)"
    by (rule pool_running [OF laws inv inv1 t step_effect [OF laws inv t] c])
      (use c co l in \<open>auto simp: 1 here_simps\<close>)
  moreover have "pool_of E ?n (step E t ?w1) x = (if x \<in> {} then None else pool_of E ?n ?w1 x)" for x
  proof -
    have inv1': "inv E ?n {#} ?w1" using inv1 by (simp only: 1)
    have ok: "thread_ok E (threads ?w1 t)" using inv1' t by (simp only: inv_def)
    have "here E t (step E t ?w1) y = here E t ?w1 y" for y
      unfolding 2 using here_ended [OF ok _ _ heap1] by (simp add: dying_th_def)
    then show ?thesis
      using pool_points [OF laws inv1' inv_step [OF laws t inv1'] t step_effect [OF laws inv1' t],
          of "{}" x] by simp
  qed
  ultimately have "pool_of E ?n (step E t (step E t w)) = (pool_of E ?n w)(c := None)"
    by (simp add: 1 fun_eq_iff)
  moreover have "heap ?w2 = (heap w)(c := None)" "work_counts ?w2 = work_counts w - 1"
      "loc (threads ?w2 t) = Spawn_Check"
    using finished_heap [of "upd t (\<lambda>th. th\<lparr>last_result := None\<rparr>) ?w1"]
      finished_thread [of "upd t (\<lambda>th. th\<lparr>last_result := None\<rparr>) ?w1"] heap1
    by (fastforce simp: finished_defs co_drop_def Let_def split: option.split)+
  ultimately show ?thesis by (simp add: numeral_2_eq_2 1 2 work_count_def)
qed

theorem panic_isolated_witness:
  "heap ((step demo 0 ^^ 2) ((step demo 0 ^^ 3) (demo_main [[D_Panic ''boom'']]))) = Map.empty"
proof -
  let ?w = "(step demo 0 ^^ 3) (demo_main [[D_Panic ''boom'']])"
  have l: "loc (threads ?w 0) = Body [D_Panic ''boom'']" and c: "cur_running (threads ?w 0) = Some 0"
    and r: "run demo [D_Panic ''boom''] (user ?w) = (Call_Panic ''boom'', 1)"
    and d: "x \<noteq> 0 \<Longrightarrow> heap ?w x = None" for x
    by (simp_all add: demo_eval)
  have "heap ((step demo 0 ^^ 2) ?w) = (heap ?w)(0 := None)"
    using panic_isolated [OF demo_laws demo_reachable [of 1] run_threads_pos l c r] by blast
  then show ?thesis using d by (simp add: fun_eq_iff)
qed

text \<open>C7. An event for a live slab entry, whose descriptor is deregistered without an error, wakes
  exactly the coroutine that registered it, when the queue is not full: the entry is gone, the coroutine was waiting and is ready, at the end of the global queue, and
  its code continues after the wait.\<close>

theorem event_wakes_waiter:
  assumes laws: "env_laws E" and cap: "capacity_laws E" and w: "reachable E n w"
    and t: "t < run_threads n" and l: "loc (threads w t) = Dispatch ((tok, es) # evs)"
    and s: "slab_view E (slabs (threads w t)) tok = Some (h, fd)"
    and d: "el_deregister E fd (event_loop (threads w t)) = (Inr v, ev)"
    and room: "length (bq_view E (global_queue w)) < bq_cap E (global_queue w)"
  shows "\<exists>p. pool_of E (run_threads n) w h = Some (p, Waiting) \<and>
    pool_of E (run_threads n) (step E t w) h = Some (p, Ready) \<and>
    bq_view E (global_queue (step E t w)) = bq_view E (global_queue w) @ [h] \<and>
    slab_view E (slabs (threads (step E t w) t)) tok = None \<and>
    loc (threads (step E t w) t) = Dispatch evs"
proof -
  let ?n = "run_threads n"
  have inv: "inv E ?n {#} w" by (rule reachable_inv [OF laws w])
  have ok: "thread_ok E (threads w t)" using inv t by (simp add: inv_def)
  have aw: "h \<in># awaits E (threads w t)"
    using s l by (auto simp: in_awaits [OF laws] live_tokens_def)
  then have href: "h \<in># thread_refs E (threads w t)" by (simp add: thread_refs_alt)
  note out = inv_one_holder [OF inv t href]
  have nh: "h \<notin># holds (threads w t)" by (rule awaits_not_held [OF inv t aw])
  have nd: "\<not> dying_th (threads w t) h" using l by (simp add: dying_th_def)
  obtain co p where co: "heap w h = Some co" "ctx co = Some (Body p)"
    using held_resumable [OF inv t _ nd] href by (auto simp: resumable_iff)
  have cur: "cur_running (threads w t) = None" using ok l by (simp add: thread_ok_def)
  obtain r sl where rem: "slab_remove E tok (slabs (threads w t)) = (r, sl)" by fastforce
  have sl: "r = Some (h, fd)" "slab_view E sl tok = None"
    using slab_remove_view [OF laws rem] s by simp_all
  let ?w = "with_io t sl ev w"
  obtain q where rd: "ready E t h (Dispatch evs) ?w = goto t (Dispatch evs) (?w\<lparr>global_queue := q\<rparr>)"
    and q: "bq_view E q = bq_view E (global_queue w) @ [h]"
    using ready_not_full [OF laws cap, of ?w t h "Dispatch evs"] room by auto
  have eq: "step E t w = goto t (Dispatch evs) (?w\<lparr>global_queue := q\<rparr>)"
    using l rem sl(1) d rd by (simp add: step_def handler_ready_def with_io_def)
  have "here E t w h = Some (p, Waiting)"
    using co nd cur nh aw out(2) by (simp add: here_def)
  moreover have "here E t (step E t w) h = Some (p, Ready)"
    using co cur q by (simp add: eq here_def dying_th_def threads_goto)
  moreover have "others E ?n t (step E t w) = others E ?n t w"
    by (rule others_cong) (rule step_other)
  ultimately have "pool_of E ?n w h = Some (p, Waiting)"
    "pool_of E ?n (step E t w) h = Some (p, Ready)"
    using pool_here [OF t, of h E] out(1) by simp_all
  then show ?thesis using q sl(2) by (simp add: eq threads_goto)
qed

text \<open>The state when the event of the one waiting coroutine is being dispatched.\<close>

theorem event_wakes_waiter_witness:
  "bq_view demo (global_queue (step demo 0 ((step demo 0 ^^ 8) (demo_main [[D_Wait 3]])))) = [0]"
proof -
  let ?w = "(step demo 0 ^^ 8) (demo_main [[D_Wait 3]])"
  have "loc (threads ?w 0) = Dispatch [(1, {Readable})]"
    "slab_view demo (slabs (threads ?w 0)) 1 = Some (0, 3)"
    "el_deregister demo 3 (event_loop (threads ?w 0)) = (Inr (), event_loop (threads ?w 0))"
    "bq_view demo (global_queue ?w) = []" "bq_cap demo (global_queue ?w) = 4096"
    by (simp_all add: demo_eval)
  then show ?thesis
    using event_wakes_waiter [OF demo_laws demo_capacity_laws demo_reachable [of 1] run_threads_pos]
    by fastforce
qed

section \<open>Blocking\<close>

lemma parked_forever:
  assumes laws: "env_laws E" and r: "reachable E n w"
    and p: "pool_of E (run_threads n) w c = Some (p, Parked)" "c < next_ptr w"
    and w': "reach (\<lambda>s. s = w) (sys_step E (run_threads n)) w'"
  shows "reachable E n w' \<and> pool_of E (run_threads n) w' c = Some (p, Parked) \<and> c < next_ptr w'"
  using w'
proof (rule reach_invariant)
  fix s s' assume I: "reachable E n s \<and> pool_of E (run_threads n) s c = Some (p, Parked) \<and> c < next_ptr s"
    and st: "sys_step E (run_threads n) s s'"
  then obtain t where t: "t < run_threads n" "s' = step E t s" by (auto elim: sys_step.cases)
  have "spec_step (run E) (spec_of E (run_threads n) s) (spec_of E (run_threads n) s')"
    unfolding t(2) using I t(1)
    by (intro sim_step [OF laws reachable_inv [OF laws] t(1) body_new_spawned [OF laws _ t(1)]]) auto
  then have "pool_of E (run_threads n) s' c = Some (p, Parked) \<and> c < next_ptr s'"
    using spec_step_parked [of "run E" "spec_of E (run_threads n) s" "spec_of E (run_threads n) s'" c p] I
    by (simp add: spec_of_def)
  then show "reachable E n s' \<and> pool_of E (run_threads n) s' c = Some (p, Parked) \<and> c < next_ptr s'"
    using I st by (blast intro: reach.reach_step)
qed (use r p in simp)

text \<open>C19. \<open>Scheduler::block\<close> suspends the running coroutine for good: nothing in the crate makes
  a coroutine ready that blocked without a registered event. It stays allocated at the point
  after its call, and no \<open>schedule\<close> returns \<open>Ok(())\<close> any more.\<close>

theorem blocked_forever:
  assumes laws: "env_laws E" and w: "reachable E n w" and t: "t < run_threads n"
    and l: "loc (threads w t) = Body p" and c: "cur_running (threads w t) = Some c"
    and run: "run E p (user w) = (Call_Block p', u)"
    and w': "reach (\<lambda>s. s = step E t w) (sys_step E (run_threads n)) w'"
    and b: "next_ptr w' < 2 ^ 64"
  shows "pool_of E (run_threads n) w' c = Some (p', Parked) \<and>
    (\<forall>i<run_threads n. loc (threads w' i) \<noteq> Stopped (Inr ()))"
proof -
  let ?n = "run_threads n"
  have inv: "inv E ?n {#} w" by (rule reachable_inv [OF laws w])
  have ns: "new_spawned (threads w t) = None" by (rule body_new_spawned [OF laws w t l])
  obtain co where co: "heap w c = Some co" using inv_cur_alloc [OF inv t c] by blast
  have "c \<in> dom (heap w)" using co by blast
  then have lt: "c < next_ptr w" using inv by (auto simp: inv_def heap_ok_def)
  have main: "ctx (main_coro (threads w t)) = Some (After_Resume c)"
    using inv t c thread_okD_Body [OF _ l, of E] by (auto simp: inv_def)
  have 1: "step E t w = yielded (Inr Blocked) t c (Body p') (After_Resume c) (w\<lparr>user := u\<rparr>)"
    using run l c co main
    by (simp add: step_def body_step_def scheduler_block_def
        block.inside [where c = c and co = co and l = "After_Resume c"])
  have q: "c \<notin> set (bq_view E (global_queue w))"
    using inv_one_holder [OF inv t, of c] c by (simp add: thread_refs_def)
  have "count (refs E ?n w) c \<le> 1" using inv by (simp add: inv_def)
  then have "count (thread_refs E (threads w t)) c \<le> 1"
    unfolding refs_split [OF t] count_union by linarith
  then have na: "c \<notin># awaits E (threads w t)"
    using c by (simp add: thread_refs_alt holds_def not_in_iff)
  have "pool_of E ?n (step E t w) = (pool_of E ?n w)(c \<mapsto> (p', Parked))"
    by (rule pool_running [OF laws inv inv_step [OF laws t inv] t step_effect [OF laws inv t] c])
      (use c co l ns q na in \<open>auto simp: 1 here_simps\<close>)
  then have "pool_of E ?n (step E t w) c = Some (p', Parked)" by simp
  moreover have "reachable E n (step E t w)"
    using w t by (blast intro: reach.reach_step sys_step.intros)
  moreover have "c < next_ptr (step E t w)" using lt step_next_ptr [of w E t] by simp
  ultimately have "reachable E n w' \<and> pool_of E ?n w' c = Some (p', Parked) \<and> c < next_ptr w'"
    using w' by (intro parked_forever [OF laws])
  moreover from this have "heap w' c \<noteq> None" by (auto simp: pool_of_def split: if_splits)
  ultimately show ?thesis
    using stopped_heap_empty [OF laws _ b] unfolding stopped_ok_def by (metis option.simps(3))
qed

theorem blocked_forever_witness:
  "loc (threads ((step demo 0 ^^ 10) (step demo 0 ((step demo 0 ^^ 3) (demo_main [[D_Block]])))) 0)
     \<noteq> Stopped (Inr ())"
proof -
  let ?w = "(step demo 0 ^^ 3) (demo_main [[D_Block]])"
  let ?w' = "(step demo 0 ^^ 10) (step demo 0 ?w)"
  have l: "loc (threads ?w 0) = Body [D_Block]" and c: "cur_running (threads ?w 0) = Some 0"
    and r: "run demo [D_Block] (user ?w) = (Call_Block [], 1)" and b: "next_ptr ?w' < 2 ^ 64"
    by (simp_all add: demo_eval)
  have w': "reach (\<lambda>s. s = step demo 0 ?w) (sys_step demo (run_threads 1)) ?w'"
    by (rule reach_steps) (simp_all add: reach.reach_init)
  show ?thesis
    using blocked_forever [OF demo_laws demo_reachable [of 1] run_threads_pos l c r w' b]
      run_threads_pos by blast
qed

end
