(* ===== verification/Runtime_Bounds.thy ===== *)
theory Runtime_Bounds
  imports Schedule_Stuck
begin

text \<open>
  Bounds and well-formedness of the running system: the global queue never outgrows its
  capacity, \<open>Processor::running\<close> is exact, and a coroutine keeps the stack it was spawned with
  until it is given back.
\<close>

section \<open>The global queue\<close>

lemma yield_with_queue [frame]: "global_queue (yield_with r t k w) = global_queue w"
  by (simp add: yield_with_def yield_to_main_def split_beta split: option.split)

lemma coroutine_initialize_queue [frame]: "global_queue (coroutine_initialize ret t w) = global_queue w"
  by (simp add: coroutine_initialize_def split_beta frame)

lemma wait_event_queue [frame]: "global_queue (wait_event E t fd i k w) = global_queue w"
  by (simp add: wait_event_def frame scheduler_block_def block_is_yield_with
      split: option.split prod.split sum.split)

lemma body_step_queue [frame]: "global_queue (body_step E t p w) = global_queue w"
  by (simp add: body_step_def split_beta Let_def frame scheduler_block_def block_is_yield_with
      scheduler_sched_def sched_is_yield_with scheduler_spawn_opts_alt split: call.split)

lemma resume_queue [frame]: "global_queue (resume t h w) = global_queue w"
  by (simp add: resume_def split_beta split: option.split)

lemma finished_queue [frame]: "global_queue (finished E t h k w) = global_queue w"
  by (simp add: finished_defs co_drop_def Let_def split: option.split)

text \<open>A step pushes once, pops once, or leaves the queue alone.\<close>

definition queue_use :: "('q, 'sl, 'ev, 'pl, 'stk, 'p, 'u) env \<Rightarrow> 'q \<Rightarrow> 'q \<Rightarrow> bool" where
  "queue_use E q q' \<longleftrightarrow> q' = q \<or> (\<exists>x r. bq_push E x q = (r, q')) \<or> (\<exists>r. bq_pop E q = (r, q'))"

lemma ready_queue: "queue_use E (global_queue w) (global_queue (ready E t h k w))"
  by (auto simp: queue_use_def ready_def split: prod.split sum.split)

lemma queue_use_refl [simp]: "queue_use E q q"
  by (simp add: queue_use_def)

lemma step_queue: "queue_use E (global_queue w) (global_queue (step E t w))"
proof -
  have "queue_use E (global_queue w) (global_queue (thread_step E t l w))" for l
  proof (induction E t l w rule: thread_step.induct)
    case (3 E t h w)
    then show ?case
      using ready_queue [of E "upd t (\<lambda>th. th\<lparr>last_result := None\<rparr>) w" t h Spawn_Check]
      by (simp add: run_task_end_def Let_def frame split: sum.split co_state.split)
  next
    case (5 E t w)
    then show ?case
      by (auto simp: schedule_pop_def queue_use_def frame split: prod.split option.split)
  next
    case (8 E t tok es evs w)
    then show ?case
      using ready_queue [of E "with_io t sl ev w" t h "Dispatch evs" for sl ev h]
      by (simp add: handler_ready_def with_io_def split: prod.split option.split sum.split)
  qed (simp_all add: frame coroutine_epilogue_def schedule_idle_def schedule_spawned_def ready_queue
      split: prod.split option.split sum.split)
  then show ?thesis by (simp add: step_def)
qed

lemma spawn_all_queue: "global_queue (spawn_all E fs w) = global_queue w"
  by (induction fs arbitrary: w)
    (auto simp: scheduler_spawn_opts_alt sched_is_yield_with frame)

lemma queue_use_capacity:
  assumes laws: "env_laws E" "capacity_laws E" and "queue_use E q q'"
    and "length (bq_view E q) \<le> bq_cap E q"
  shows "bq_cap E q' = bq_cap E q \<and> length (bq_view E q') \<le> bq_cap E q'"
proof -
  consider "q' = q" | x r where "bq_push E x q = (r, q')" | r where "bq_pop E q = (r, q')"
    using assms(3) by (auto simp: queue_use_def)
  then show ?thesis
  proof cases
    case (2 x r)
    then have cap: "bq_cap E q' = bq_cap E q" "isl r = (bq_cap E q \<le> length (bq_view E q))"
      using laws(2) unfolding capacity_laws_def by blast+
    then show ?thesis
      using 2 assms(4) bq_push_Inl [OF laws(1), of x q _ q'] bq_push_Inr [OF laws(1), of x q _ q']
      by (cases r) auto
  next
    case (3 r)
    then have "bq_cap E q' = bq_cap E q" using laws(2) unfolding capacity_laws_def by blast
    then show ?thesis
      using 3 assms(4) bq_pop_Some [OF laws(1), of q _ q'] bq_pop_None [OF laws(1), of q q']
      by (cases r) auto
  qed (use assms(4) in simp)
qed

lemma queue_capacity:
  assumes laws: "env_laws E" "capacity_laws E" and "reachable E n w"
  shows "bq_cap E (global_queue w) = bq_cap E (scheduler_queue E) \<and>
    length (bq_view E (global_queue w)) \<le> bq_cap E (global_queue w)"
  using assms(3)
proof (rule reach_invariant)
  fix s assume "started E s"
  then have "global_queue s = scheduler_queue E"
    by (auto simp: started_def spawn_all_queue world_init_def split: option.splits)
  then show "bq_cap E (global_queue s) = bq_cap E (scheduler_queue E) \<and>
      length (bq_view E (global_queue s)) \<le> bq_cap E (global_queue s)"
    by (simp add: scheduler_queue_def bq_new_view [OF laws(1)])
next
  fix s s' assume I: "bq_cap E (global_queue s) = bq_cap E (scheduler_queue E) \<and>
      length (bq_view E (global_queue s)) \<le> bq_cap E (global_queue s)"
    and "sys_step E (run_threads n) s s'"
  then obtain t where "s' = step E t s" by (auto elim: sys_step.cases)
  then show "bq_cap E (global_queue s') = bq_cap E (scheduler_queue E) \<and>
      length (bq_view E (global_queue s')) \<le> bq_cap E (global_queue s')"
    using queue_use_capacity [OF laws step_queue, of s t] I by simp
qed

text \<open>The global queue never holds more coroutines than its capacity: \<open>ready\<close> retries rather
  than drop or exceed it.\<close>

lemma queue_bounded:
  assumes "env_laws E" "capacity_laws E" and "reachable E n w"
  shows "length (bq_view E (global_queue w)) \<le> bq_cap E (scheduler_queue E)"
  using queue_capacity [OF assms] by simp

lemma queue_bounded_witness:
  "length (bq_view demo (global_queue ((step demo 0 ^^ 1000) (demo_main [[D_Sched, D_Sched]])))) \<le> 4096"
  using queue_bounded [OF demo_laws demo_capacity_laws demo_reachable [of 1 1000 "[[D_Sched, D_Sched]]"]]
  by (simp add: demo_defs scheduler_queue_def)

section \<open>What is running\<close>

text \<open>C18. \<open>Processor::running\<close> is exact: it is a coroutine while the thread executes user code,
  that coroutine is allocated, and the scheduler's own code to return to is that which ran it;
  it is \<open>None\<close> everywhere else. No thread is ever in the closing loop of
  \<open>coroutine_initialize\<close> or in undefined behaviour.\<close>

theorem running_exact:
  assumes laws: "env_laws E" and w: "reachable E n w" and t: "t < run_threads n"
  shows "case loc (threads w t) of
      Body p \<Rightarrow> \<exists>c co. running (threads w t) = Some c \<and> heap w c = Some co \<and>
        ctx (main_coro (threads w t)) = Some (After_Resume c)
    | Epilogue _ \<Rightarrow> False
    | Crash \<Rightarrow> False
    | _ \<Rightarrow> running (threads w t) = None"
proof -
  have inv: "inv E (run_threads n) {#} w" by (rule reachable_inv [OF laws w])
  have ok: "thread_ok E (threads w t)" by (rule reachable_thread_ok [OF assms])
  have "c \<in> dom (heap w)" if "cur_running (threads w t) = Some c" for c
  proof -
    have "c \<in># refs E (run_threads n) w"
      using that t by (force simp: refs_def sum_mset_member thread_refs_def)
    then show ?thesis using inv by (simp add: inv_def)
  qed
  then show ?thesis
    using ok by (auto simp: thread_ok_def running_def split: loc.splits)
qed

theorem running_exact_witness:
  "loc (threads ((step demo 0 ^^ 3) (demo_main [[D_Sched]])) 0) = Body [D_Sched] \<and>
   running (threads ((step demo 0 ^^ 3) (demo_main [[D_Sched]])) 0) \<noteq> None"
proof -
  have l: "loc (threads ((step demo 0 ^^ 3) (demo_main [[D_Sched]])) 0) = Body [D_Sched]"
    by (simp add: demo_eval)
  show ?thesis
    using running_exact [OF demo_laws demo_reachable [of 1 3 "[[D_Sched]]"], of 0] l by auto
qed

section \<open>Stacks\<close>

definition same_stack :: "('p, 'stk) coroutine option \<Rightarrow> ('p, 'stk) coroutine option \<Rightarrow> bool" where
  "same_stack x y \<longleftrightarrow> (\<exists>co co'. x = Some co \<and> y = Some co' \<and> stack co' = stack co)"

lemma same_stack_Some_iff [simp]:
  "same_stack (Some co) (Some co') \<longleftrightarrow> stack co' = stack co"
  by (simp add: same_stack_def)

lemma same_stack_refl: "x \<noteq> None \<Longrightarrow> same_stack x x"
  by (auto simp: same_stack_def)

lemma yielded_same_stack:
  "heap w h \<noteq> None \<Longrightarrow> same_stack (heap w h) (heap (yielded r t c k l w) h)"
  by (auto simp: same_stack_def yielded_def upd_def)

lemma spawned_same_stack:
  "heap w h \<noteq> None \<Longrightarrow> h < next_ptr w \<Longrightarrow> same_stack (heap w h) (heap (alloc_spawned E t f os w) h)"
  using alloc_spawned_heap [of E t f os w] by (auto simp: same_stack_def)

lemma same_stack_trans: "same_stack x y \<Longrightarrow> same_stack y z \<Longrightarrow> same_stack x z"
  by (auto simp: same_stack_def)

lemma same_stack_Some: "same_stack x y \<Longrightarrow> y \<noteq> None"
  by (auto simp: same_stack_def)

text \<open>A step keeps a coroutine and its stack, or frees it and gives the stack to the pool.\<close>

lemma step_stack:
  assumes laws: "env_laws E" and inv: "inv E n {#} w" and t: "t < n" and c: "heap w c = Some co"
  shows "same_stack (heap w c) (heap (step E t w) c) \<or>
    heap (step E t w) c = None \<and> stack_pool (threads (step E t w) t) =
      (case stack co of None \<Rightarrow> stack_pool (threads w t)
       | Some stk \<Rightarrow> sp_give E stk (stack_pool (threads w t)))"
proof -
  have old: "c < next_ptr w" using inv c by (auto simp: inv_def heap_ok_def)
  have keep: "same_stack (heap w c) (heap w c)" using c by (simp add: same_stack_refl)
  have "effect E t w (step E t w)" by (rule step_effect [OF laws inv t])
  then show ?thesis
  proof cases
    case (spawn p c' co' f os p' u)
    let ?w = "alloc_spawned E t f os (w\<lparr>user := u\<rparr>)"
    have new: "same_stack (heap w c) (heap ?w c)"
      using spawned_same_stack [of "w\<lparr>user := u\<rparr>" c E t f os] c old by simp
    show ?thesis
      unfolding spawn(1)
      by (rule disjI1, rule same_stack_trans [OF new],
        rule yielded_same_stack [OF same_stack_Some [OF new]])
  next
    case (ended h co')
    show ?thesis
    proof (cases "h = c")
      case True
      then show ?thesis
        using ended c by (simp add: finished_defs co_drop_def Let_def goto_def split: option.split)
    next
      case False
      then show ?thesis
        using ended keep by (simp add: finished_defs co_drop_def Let_def split: option.split)
    qed
  qed (use c in \<open>auto simp: frame entered_def\<close>)
qed

text \<open>A coroutine is allocated with a stack of the size its options ask for.\<close>

lemma alloc_spawned_stack:
  "heap (alloc_spawned E t f os w) = (heap w)(next_ptr w \<mapsto> \<lparr>ctx = Some (Body f),
     stack = Some (fst (sp_take E (stack_size os) (stack_pool (threads w t))))\<rparr>)"
  by (simp add: alloc_spawned_def co_spawn_opts_def split_beta Let_def)

definition stacks_ok :: "('q, 'sl, 'ev, 'pl, 'stk, 'p, 'u) world \<Rightarrow> bool" where
  "stacks_ok w \<longleftrightarrow> (\<forall>c co. heap w c = Some co \<longrightarrow> stack co \<noteq> None)"

lemma stacks_ok_alloc: "stacks_ok w \<Longrightarrow> stacks_ok (alloc_spawned E t f os w)"
  by (simp add: stacks_ok_def alloc_spawned_stack)

lemma stacks_ok_yielded: "stacks_ok w \<Longrightarrow> heap w c \<noteq> None \<Longrightarrow> stacks_ok (yielded r t c k l w)"
  by (auto simp: stacks_ok_def yielded_def)

lemma stacks_ok_yield_with: "stacks_ok w \<Longrightarrow> stacks_ok (yield_with r t k w)"
  by (auto simp: stacks_ok_def yield_with_def yield_to_main_def yield_to_def
      split: option.split)

lemma stacks_ok_step:
  assumes laws: "env_laws E" and inv: "inv E n {#} w" and t: "t < n" and ok: "stacks_ok w"
  shows "stacks_ok (step E t w)"
proof -
  have io: "stacks_ok (w\<lparr>user := u\<rparr>)" for u
    using ok by (simp add: stacks_ok_def)
  have "effect E t w (step E t w)" by (rule step_effect [OF laws inv t])
  then show ?thesis
  proof cases
    case (spawn p c co f os p' u)
    have "stacks_ok (alloc_spawned E t f os (w\<lparr>user := u\<rparr>))" by (rule stacks_ok_alloc [OF io])
    then show ?thesis unfolding spawn(1) using spawn by (simp add: stacks_ok_yielded alloc_spawned_stack)
  next
    case (ended h co)
    then show ?thesis
      using ok by (auto simp: stacks_ok_def finished_defs co_drop_def Let_def split: option.split)
  qed (use ok in \<open>auto simp: stacks_ok_def yielded_def entered_def frame split: if_splits\<close>)
qed

lemma reachable_stacks_ok:
  assumes laws: "env_laws E" and "reachable E n w"
  shows "stacks_ok w"
proof -
  let ?n = "run_threads n"
  have "inv E ?n {#} w \<and> stacks_ok w"
    using assms(2)
  proof (rule reach_invariant)
    fix s assume s: "started E s"
    have "stacks_ok (spawn_all E fs w0)" if "stacks_ok w0" for fs w0
      using that
      by (induction fs arbitrary: w0)
        (auto simp: scheduler_spawn_opts_alt sched_is_yield_with stacks_ok_yield_with stacks_ok_alloc)
    moreover obtain fs u w0 where "world_init E u = Some w0" "s = spawn_all E fs w0"
      using s by (auto simp: started_def)
    moreover have "stacks_ok w0"
      using \<open>world_init E u = Some w0\<close>
      by (auto simp: world_init_def stacks_ok_def split: option.splits)
    ultimately have "stacks_ok s" by simp
    then show "inv E ?n {#} s \<and> stacks_ok s"
      using reachable_inv [OF laws reach.reach_init [where step = "sys_step E ?n"], of s] s by blast
  next
    fix s s' assume I: "inv E ?n {#} s \<and> stacks_ok s" and "sys_step E ?n s s'"
    then show "inv E ?n {#} s' \<and> stacks_ok s'"
      using inv_step [OF laws] stacks_ok_step [OF laws] by (auto elim!: sys_step.cases)
  qed
  then show ?thesis by simp
qed

text \<open>C17. Every allocated coroutine has the stack it was spawned with: a step of any thread
  keeps it, or frees the coroutine and gives exactly that stack back to the pool of the
  thread.\<close>

theorem stack_roundtrip:
  assumes laws: "env_laws E" and w: "reachable E n w" and t: "t < run_threads n"
    and c: "heap w c = Some co"
  shows "\<exists>stk. stack co = Some stk \<and>
    ((\<exists>co'. heap (step E t w) c = Some co' \<and> stack co' = Some stk) \<or>
     heap (step E t w) c = None \<and>
     stack_pool (threads (step E t w) t) = sp_give E stk (stack_pool (threads w t)))"
proof -
  obtain stk where stk: "stack co = Some stk"
    using reachable_stacks_ok [OF laws w] c by (auto simp: stacks_ok_def)
  then show ?thesis
    using step_stack [OF laws reachable_inv [OF laws w] t c] c by (auto simp: same_stack_def)
qed

theorem stack_roundtrip_witness:
  "\<exists>stk. heap ((step demo 0 ^^ 4) (demo_main [[]])) 0 =
      Some \<lparr>ctx = Some (Epilogue Finished), stack = Some stk\<rparr> \<and>
    heap (step demo 0 ((step demo 0 ^^ 4) (demo_main [[]]))) 0 = None \<and>
    stack_pool (threads (step demo 0 ((step demo 0 ^^ 4) (demo_main [[]]))) 0) = [stk]"
proof -
  let ?w = "(step demo 0 ^^ 4) (demo_main [[]])"
  have c: "heap ?w 0 = Some \<lparr>ctx = Some (Epilogue Finished), stack = Some 64\<rparr>"
    and "heap (step demo 0 ?w) 0 = None" and "stack_pool (threads ?w 0) = []"
    by (simp_all add: demo_eval)
  then show ?thesis
    using stack_roundtrip [OF demo_laws demo_reachable [of 1 4 "[[]]"] _ c, of 0] by (simp add: demo_defs)
qed

end
