(* ===== verification/Run_Work.thy ===== *)
theory Run_Work
  imports Coroutine_Contract Runtime_Bounds
begin

text \<open>
  The work left in a run: code that ends, packages that respond, and an invariant of
  \<open>Scheduler::run(n)\<close> under which no coroutine is lost, no thread gets stuck, and every call
  of user code leaves less to do.
\<close>

section \<open>Code that ends and packages that respond\<close>

text \<open>
  Every call uses up some of \<open>work\<close>, what code has still to do, and \<open>bonus\<close>, what the shared
  data makes others do on top of it; \<open>kids\<close> bounds the coroutines code still spawns, those of
  the coroutines it spawns included. Such code never blocks without an event to wait for, and
  waits only for descriptors in \<open>F\<close>.
\<close>

definition call_ok ::
  "fd set \<Rightarrow> ('p \<Rightarrow> bool) \<Rightarrow> ('p \<Rightarrow> nat) \<Rightarrow> ('p \<Rightarrow> nat) \<Rightarrow> ('u \<Rightarrow> nat) \<Rightarrow> 'p \<Rightarrow> 'u \<Rightarrow>
   'p call \<times> 'u \<Rightarrow> bool" where
  "call_ok F P work kids bonus p u r \<longleftrightarrow>
    (let uses = \<lambda>x. x + bonus (snd r) < work p + bonus u;
         next = \<lambda>p'. P p' \<and> uses (work p') \<and> kids p' \<le> kids p in
     case fst r of
       Call_Tau p' \<Rightarrow> next p'
     | Call_Return \<Rightarrow> uses 0
     | Call_Panic e \<Rightarrow> uses 0
     | Call_Spawn f os p' \<Rightarrow> P f \<and> P p' \<and> uses (work f + work p') \<and> kids f + kids p' < kids p
     | Call_Sched p' \<Rightarrow> next p'
     | Call_Block p' \<Rightarrow> False
     | Call_Wait fd i k \<Rightarrow> fd \<in> F \<and> (\<forall>x. next (k x)))"

definition ends ::
  "('q, 'sl, 'ev, 'pl, 'stk, 'p, 'u) env \<Rightarrow> fd set \<Rightarrow> ('p \<Rightarrow> bool) \<Rightarrow> ('p \<Rightarrow> nat) \<Rightarrow>
   ('p \<Rightarrow> nat) \<Rightarrow> ('u \<Rightarrow> nat) \<Rightarrow> bool" where
  "ends E F P work kids bonus \<longleftrightarrow>
    (\<forall>p u. P p \<longrightarrow> call_ok F P work kids bonus p u (run E p u))"

text \<open>
  The queue finds what it holds; the event loop takes the descriptors in \<open>F\<close>, and \<open>run_once\<close>
  does not fail while something is registered. It may give up waiting and report no event.
\<close>

definition responsive :: "('q, 'sl, 'ev, 'pl, 'stk, 'p, 'u) env \<Rightarrow> fd set \<Rightarrow> bool" where
  "responsive E F \<longleftrightarrow>
    (\<forall>q. bq_view E q \<noteq> [] \<longrightarrow> fst (bq_pop E q) \<noteq> None) \<and>
    (\<forall>fd tok i ev. fd \<in> F \<longrightarrow> \<not> isl (fst (el_register E fd tok i ev))) \<and>
    (\<forall>fd ev. fd \<in> F \<longrightarrow> (\<exists>ev'. el_deregister E fd ev = (Inr (), ev') \<and> el_armed E ev' = el_armed E ev)) \<and>
    (\<forall>ev. el_armed E ev \<noteq> {} \<longrightarrow> \<not> isl (fst (el_poll E ev)))"

text \<open>
  The awaited events come: when \<open>run_once\<close> gives up waiting, it has got closer to an event, by
  the measure \<open>late\<close> on the event loop. So it gives up finitely often before it reports one.
  Nothing is asked when no descriptor is waited for.
\<close>

definition events_come :: "('q, 'sl, 'ev, 'pl, 'stk, 'p, 'u) env \<Rightarrow> fd set \<Rightarrow> ('ev \<Rightarrow> nat) \<Rightarrow> bool" where
  "events_come E F late \<longleftrightarrow> F = {} \<or>
    (\<forall>ev ev'. el_armed E ev \<noteq> {} \<longrightarrow> el_poll E ev = (Inr [], ev') \<longrightarrow> late ev' < late ev)"

lemma events_come_none [simp]: "events_come E {} late"
  by (simp add: events_come_def)

section \<open>Where coroutines are\<close>

text \<open>A step of one thread moves only coroutines that no other thread holds.\<close>

lemma place_step:
  assumes inv: "inv E n {#} w" "inv E n {#} w'" and t: "t < n" and e: "effect E t w w'"
  shows "place n w' c = (if c \<in># others E n t w then place n w c else point t w' c)"
proof (cases "c \<in># others E n t w")
  case True
  then obtain i where i: "i < n" "i \<noteq> t" and ci: "c \<in># thread_refs E (threads w i)"
    by (auto simp: others_def sum_mset_member)
  have th: "threads w' i = threads w i" by (rule effect_other [OF e i(2)])
  have "c \<in># refs E n w" using True by (simp add: refs_split [OF t])
  then have "c \<in> dom (heap w)" using inv(1) by (auto simp: inv_def)
  then have "c \<noteq> next_ptr w" using inv(1) by (auto simp: inv_def heap_ok_def)
  moreover have "c \<notin># thread_refs E (threads w t)" using inv_one_holder(1) [OF inv(1) t] True by blast
  ultimately have h: "heap w' c = heap w c" using effect_heap [OF e] by blast
  have "place n w' c = point i w' c" "place n w c = point i w c"
    using place_point [OF i(1)] inv_one_holder(1) [OF inv(1) i(1) ci]
      inv_one_holder(1) [OF inv(2) i(1)] ci th by metis+
  then show ?thesis using True th h by (simp add: point_def)
next
  case False
  have "others E n t w' = others E n t w" by (rule others_cong) (rule effect_other [OF e])
  then show ?thesis using False place_point [OF t, of c E w'] by simp
qed

section \<open>The invariant\<close>

text \<open>What is left of the code of the coroutines, by the measure \<open>g\<close>.\<close>

definition load :: "nat \<Rightarrow> ('p \<Rightarrow> nat) \<Rightarrow> ('q, 'sl, 'ev, 'pl, 'stk, 'p, 'u) world \<Rightarrow> nat" where
  "load n g w = (\<Sum>c\<in>dom (heap w). case place n w c of None \<Rightarrow> 0 | Some p \<Rightarrow> g p)"

definition good_code :: "nat \<Rightarrow> ('p \<Rightarrow> bool) \<Rightarrow> ('q, 'sl, 'ev, 'pl, 'stk, 'p, 'u) world \<Rightarrow> bool" where
  "good_code n P w \<longleftrightarrow> (\<forall>c p. heap w c \<noteq> None \<longrightarrow> place n w c = Some p \<longrightarrow> P p)"

text \<open>Every slab entry is for a descriptor in \<open>F\<close>, and its event can still arrive.\<close>

definition answered :: "('q, 'sl, 'ev, 'pl, 'stk, 'p, 'u) env \<Rightarrow> fd set \<Rightarrow>
    ('sl, 'ev, 'pl, 'stk, 'p) thread \<Rightarrow> bool" where
  "answered E F th \<longleftrightarrow> (\<forall>tok c fd. slab_view E (slabs th) tok = Some (c, fd) \<longrightarrow>
     fd \<in> F \<and> tok \<in> live_tokens E (event_loop th) (loc th))"

text \<open>The coroutines a thread has in its fields, and that none is lost.\<close>

definition carries :: "('q, 'sl, 'ev, 'pl, 'stk, 'p, 'u) env \<Rightarrow>
    ('sl, 'ev, 'pl, 'stk, 'p) thread \<Rightarrow> ptr \<Rightarrow> bool" where
  "carries E th c \<longleftrightarrow> cur_running th = Some c \<or> new_spawned th = Some c \<or>
     c \<in># loc_refs (last_result th) (loc th) \<or> (\<exists>tok fd. slab_view E (slabs th) tok = Some (c, fd))"

definition unlost :: "('q, 'sl, 'ev, 'pl, 'stk, 'p, 'u) env \<Rightarrow> nat \<Rightarrow>
    ('q, 'sl, 'ev, 'pl, 'stk, 'p, 'u) world \<Rightarrow> bool" where
  "unlost E n w \<longleftrightarrow> (\<forall>c. heap w c \<noteq> None \<longrightarrow>
     c \<in> set (bq_view E (global_queue w)) \<or> (\<exists>t<n. carries E (threads w t) c))"

text \<open>A thread neither retries a push nor dies, and stops only when nothing is left.\<close>

definition on_way :: "tid \<Rightarrow> ('q, 'sl, 'ev, 'pl, 'stk, 'p, 'u) world \<Rightarrow> bool" where
  "on_way t w \<longleftrightarrow> (case loc (threads w t) of
       Ready_Push h k \<Rightarrow> False
     | Aborted \<Rightarrow> False
     | Stopped r \<Rightarrow> r = Inr () \<and> heap w = Map.empty
     | _ \<Rightarrow> True)"

definition orderly :: "('q, 'sl, 'ev, 'pl, 'stk, 'p, 'u) env \<Rightarrow> nat \<Rightarrow> fd set \<Rightarrow> ('p \<Rightarrow> bool) \<Rightarrow>
    ('p \<Rightarrow> nat) \<Rightarrow> nat \<Rightarrow> ('q, 'sl, 'ev, 'pl, 'stk, 'p, 'u) world \<Rightarrow> bool" where
  "orderly E n F P kids m w \<longleftrightarrow> good_code n P w \<and> unlost E n w \<and>
     (\<forall>t<n. answered E F (threads w t) \<and> on_way t w) \<and> card (dom (heap w)) + load n kids w \<le> m"

lemma orderlyD:
  assumes "orderly E n F P kids m w"
  shows "good_code n P w" "unlost E n w" "t < n \<Longrightarrow> answered E F (threads w t)"
    "t < n \<Longrightarrow> on_way t w" "card (dom (heap w)) + load n kids w \<le> m"
  using assms by (simp_all add: orderly_def)

lemma heap_finite: "inv E n X w \<Longrightarrow> finite (dom (heap w))"
  by (auto simp: inv_def heap_ok_def intro: finite_subset)

text \<open>What a step of the thread \<open>t\<close> has to show: the other threads are where they were.\<close>

lemma orderly_intro:
  assumes o: "orderly E n F P kids m w" and t: "t < n" and e: "effect E t w w'"
    and empty: "heap w = Map.empty \<Longrightarrow> heap w' = Map.empty"
    and here: "answered E F (threads w' t)" "on_way t w'"
    and code: "good_code n P w'" and room: "card (dom (heap w')) + load n kids w' \<le> m"
    and kept: "\<And>c. heap w' c \<noteq> None \<Longrightarrow>
      heap w c = None \<or> c \<in> set (bq_view E (global_queue w)) \<or> carries E (threads w t) c \<Longrightarrow>
      c \<in> set (bq_view E (global_queue w')) \<or> carries E (threads w' t) c"
  shows "orderly E n F P kids m w'"
proof -
  have same: "threads w' i = threads w i" if "i \<noteq> t" for i by (rule effect_other [OF e that])
  have "answered E F (threads w' i) \<and> on_way i w'" if "i < n" for i
  proof (cases "i = t")
    case False
    then show ?thesis using orderlyD(3,4) [OF o that] same [OF False] empty
      by (auto simp: on_way_def split: loc.splits)
  qed (use here in simp)
  moreover have "unlost E n w'"
    unfolding unlost_def
  proof (intro allI impI)
    fix c assume c: "heap w' c \<noteq> None"
    consider "heap w c = None \<or> c \<in> set (bq_view E (global_queue w)) \<or> carries E (threads w t) c"
      | i where "i < n" "i \<noteq> t" "carries E (threads w i) c"
      using orderlyD(2) [OF o] unfolding unlost_def by blast
    then show "c \<in> set (bq_view E (global_queue w')) \<or> (\<exists>t<n. carries E (threads w' t) c)"
    proof cases
      case 1
      then show ?thesis using kept [OF c] t by blast
    next
      case 2
      then show ?thesis using same by auto
    qed
  qed
  ultimately show ?thesis using code room by (simp add: orderly_def)
qed

section \<open>User code uses up work\<close>

definition left :: "nat \<Rightarrow> ('p \<Rightarrow> nat) \<Rightarrow> ('u \<Rightarrow> nat) \<Rightarrow> ('q, 'sl, 'ev, 'pl, 'stk, 'p, 'u) world \<Rightarrow> nat" where
  "left n work bonus w = load n work w + bonus (user w)"

lemma load_call:
  assumes fin: "finite (dom (heap w))" and c: "heap w c \<noteq> None" "place n w c = Some p"
    and dom: "dom (heap w') = dom (heap w)"
    and same: "\<And>x. x \<noteq> c \<Longrightarrow> place n w' x = place n w x"
  shows "load n g w' + g p = load n g w + (case place n w' c of None \<Rightarrow> 0 | Some p' \<Rightarrow> g p')"
proof -
  have "c \<in> dom (heap w)" using c(1) by (simp add: domIff)
  note r = sum.remove [OF fin this, of "\<lambda>x. case place n v x of None \<Rightarrow> 0 | Some p \<Rightarrow> g p" for v]
  have "(\<Sum>x\<in>dom (heap w) - {c}. case place n w' x of None \<Rightarrow> 0 | Some p \<Rightarrow> g p) =
      (\<Sum>x\<in>dom (heap w) - {c}. case place n w x of None \<Rightarrow> 0 | Some p \<Rightarrow> g p)"
    using same by (intro sum.cong) auto
  then show ?thesis unfolding load_def dom r by (simp add: c(2))
qed

lemma load_spawn:
  assumes fin: "finite (dom (heap w))" and c: "heap w c \<noteq> None" "place n w c = Some p"
    and dom: "dom (heap w') = insert d (dom (heap w))" "heap w d = None"
    and same: "\<And>x. x \<noteq> c \<Longrightarrow> x \<noteq> d \<Longrightarrow> place n w' x = place n w x"
    and new: "place n w' c = Some p'" "place n w' d = Some f"
  shows "load n g w' + g p = load n g w + g f + g p'"
proof -
  let ?r = "\<lambda>w. \<Sum>x\<in>dom (heap w) - {c, d}. case place n w x of None \<Rightarrow> 0 | Some p \<Rightarrow> g p"
  have cd: "c \<in> dom (heap w)" "d \<notin> dom (heap w)" "c \<noteq> d" using c(1) dom(2) by auto
  have A: "dom (heap w) = insert c (dom (heap w) - {c, d})" using cd by auto
  have B: "dom (heap w') = insert c (insert d (dom (heap w) - {c, d}))" using cd dom(1) by auto
  have "?r w' = ?r w" using dom(1) same by (intro sum.cong) auto
  moreover have "load n g w = g p + ?r w"
    unfolding load_def by (subst A) (use fin c(2) in simp)
  moreover have "load n g w' = g p' + (g f + ?r w')"
  proof -
    have "dom (heap w') - {c, d} = dom (heap w) - {c, d}" using dom(1) by blast
    then show ?thesis
      unfolding load_def by (subst B) (use fin cd(3) new in simp)
  qed
  ultimately show ?thesis by simp
qed

text \<open>One call: what remains to be said of the coroutine that runs.\<close>

lemma running_place:
  assumes inv: "inv E n {#} w" "inv E n {#} w'" and t: "t < n" and e: "effect E t w w'"
    and l: "loc (threads w t) = Body p" and c: "cur_running (threads w t) = Some c"
  shows "place n w c = Some p" "place n w' c = point t w' c"
    "point t w' x = point t w x \<Longrightarrow> place n w' x = place n w x"
proof -
  have o: "c \<notin># others E n t w" by (rule running_here(1) [OF inv(1) t l c])
  show "place n w c = Some p" using place_point [OF t o] l c by (simp add: point_def)
  show "place n w' c = point t w' c" using place_step [OF inv t e] o by simp
  show "place n w' x = place n w x" if "point t w' x = point t w x"
    using place_step [OF inv t e, of x] place_point [OF t, of x E w] that by auto
qed

text \<open>
  What a call leaves in place: every other coroutine, and every reference the thread had. A call
  is one that goes on in some other state of the code, or one that ends the coroutine.
\<close>

definition called :: "('q, 'sl, 'ev, 'pl, 'stk, 'p, 'u) env \<Rightarrow> fd set \<Rightarrow> tid \<Rightarrow> ptr \<Rightarrow>
    ('q, 'sl, 'ev, 'pl, 'stk, 'p, 'u) world \<Rightarrow> ('q, 'sl, 'ev, 'pl, 'stk, 'p, 'u) world \<Rightarrow> bool" where
  "called E F t c w w' \<longleftrightarrow> dom (heap w') = dom (heap w) \<and>
     (\<forall>x. x \<noteq> c \<longrightarrow> point t w' x = point t w x) \<and>
     answered E F (threads w' t) \<and> on_way t w' \<and> global_queue w' = global_queue w \<and>
     (\<forall>x. carries E (threads w t) x \<longrightarrow> carries E (threads w' t) x) \<and>
     new_spawned (threads w' t) = new_spawned (threads w t)"

fun goes_on :: "'p call \<Rightarrow> 'p \<Rightarrow> bool" where
  "goes_on (Call_Tau p') q \<longleftrightarrow> q = p'"
| "goes_on Call_Return q \<longleftrightarrow> False"
| "goes_on (Call_Panic e) q \<longleftrightarrow> False"
| "goes_on (Call_Spawn f os p') q \<longleftrightarrow> q = p'"
| "goes_on (Call_Sched p') q \<longleftrightarrow> q = p'"
| "goes_on (Call_Block p') q \<longleftrightarrow> q = p'"
| "goes_on (Call_Wait fd i k) q \<longleftrightarrow> (\<exists>x. q = k x)"

lemma orderly_called:
  assumes o: "orderly E n F P kids m w" and inv: "inv E n {#} w" "inv E n {#} w'" and t: "t < n"
    and e: "effect E t w w'"
    and c: "loc (threads w t) = Body p" "cur_running (threads w t) = Some c" "heap w c \<noteq> None"
    and called: "called E F t c w w'"
    and code: "\<And>q. point t w' c = Some q \<Longrightarrow> P q"
    and room: "card (dom (heap w')) + load n kids w' \<le> m"
  shows "orderly E n F P kids m w'"
proof -
  note pl = running_place [OF inv t e c(1,2)]
  have dom: "dom (heap w') = dom (heap w)" and same: "\<And>x. x \<noteq> c \<Longrightarrow> point t w' x = point t w x"
    and here: "answered E F (threads w' t)" "on_way t w'"
    using called by (simp_all add: called_def)
  have alloc: "heap w' x \<noteq> None \<longleftrightarrow> heap w x \<noteq> None" for x using dom by (metis domIff)
  have "good_code n P w'"
    unfolding good_code_def
  proof (intro allI impI)
    fix x q assume x: "heap w' x \<noteq> None" "place n w' x = Some q"
    then show "P q" using alloc [of x] pl(2) pl(3) [OF same, of x] code orderlyD(1) [OF o]
      by (cases "x = c") (auto simp: good_code_def)
  qed
  then show ?thesis
    using c(3) called alloc by (intro orderly_intro [OF o t e _ here _ room]) (auto simp: called_def)
qed

text \<open>A spawn: the new coroutine waits on the thread to be run next.\<close>

lemma spawn_points:
  assumes inv: "inv E n {#} w" "inv E n {#} w'" and t: "t < n" and e: "effect E t w w'"
    and c: "loc (threads w t) = Body p" "cur_running (threads w t) = Some c" "heap w c = Some co"
    and w': "w' = yielded (Inr Suspended) t c (Body p') (After_Resume c)
      (alloc_spawned E t f os (w\<lparr>user := u\<rparr>))"
  shows "dom (heap w') = insert (next_ptr w) (dom (heap w))" "heap w (next_ptr w) = None"
    "place n w' c = Some p'" "place n w' (next_ptr w) = Some f"
    "\<And>x. x \<noteq> c \<Longrightarrow> x \<noteq> next_ptr w \<Longrightarrow> place n w' x = place n w x"
    "\<exists>sp. threads w' t = (threads w t)\<lparr>stack_pool := sp, new_spawned := Some (next_ptr w),
       cur_running := None, last_result := Some (Inr Suspended), loc := After_Resume c\<rparr>"
    "global_queue w' = global_queue w" "user w' = u"
proof -
  let ?d = "next_ptr w" and ?w = "alloc_spawned E t f os (w\<lparr>user := u\<rparr>)"
  obtain sp where th: "threads ?w t = (threads w t)\<lparr>stack_pool := sp, new_spawned := Some ?d\<rparr>"
    using alloc_spawned_thread [of E t f os "w\<lparr>user := u\<rparr>"] by auto
  obtain ch where ch: "heap ?w = (heap w)(?d \<mapsto> ch)" "ctx ch = Some (Body f)"
    using alloc_spawned_heap [of E t f os "w\<lparr>user := u\<rparr>"] by auto
  show d: "heap w ?d = None" using inv(1) by (auto simp: inv_def heap_ok_def)
  have cd: "c \<noteq> ?d" using d c(3) by auto
  show "dom (heap w') = insert ?d (dom (heap w))" using c(3) by (auto simp: w' ch)
  have "?d \<notin># refs E n w" using inv(1) d by (auto simp: inv_def)
  then have do: "?d \<notin># others E n t w" by (simp add: refs_split [OF t])
  note pl = running_place [OF inv t e c(1,2)]
  show "place n w' c = Some p'" "place n w' ?d = Some f"
    "\<And>x. x \<noteq> c \<Longrightarrow> x \<noteq> ?d \<Longrightarrow> place n w' x = place n w x"
    using cd ch c pl(2) pl(3) place_step [OF inv t e, of ?d] do by (auto simp: point_def w')
  show "\<exists>sp. threads w' t = (threads w t)\<lparr>stack_pool := sp, new_spawned := Some ?d,
       cur_running := None, last_result := Some (Inr Suspended), loc := After_Resume c\<rparr>"
    by (rule exI [of _ sp]) (simp add: w' th)
  show "global_queue w' = global_queue w" "user w' = u" by (simp_all add: w')
qed

lemma orderly_spawned:
  assumes o: "orderly E n F P kids m w" and inv: "inv E n {#} w" "inv E n {#} w'" and t: "t < n"
    and e: "effect E t w w'"
    and c: "loc (threads w t) = Body p" "cur_running (threads w t) = Some c" "heap w c = Some co"
    and ns: "new_spawned (threads w t) = None"
    and code: "P f" "P p'" and room: "card (dom (heap w')) + load n kids w' \<le> m"
    and w': "w' = yielded (Inr Suspended) t c (Body p') (After_Resume c)
      (alloc_spawned E t f os (w\<lparr>user := u\<rparr>))"
  shows "orderly E n F P kids m w'"
proof -
  note sp = spawn_points [OF inv t e c w']
  obtain st where th: "threads w' t = (threads w t)\<lparr>stack_pool := st, new_spawned := Some (next_ptr w),
       cur_running := None, last_result := Some (Inr Suspended), loc := After_Resume c\<rparr>"
    using sp(6) by blast
  have alloc: "heap w x \<noteq> None" if "heap w' x \<noteq> None" "x \<noteq> next_ptr w" for x
    using that sp(1) by blast
  have "good_code n P w'"
    unfolding good_code_def
  proof (intro allI impI)
    fix x q assume "heap w' x \<noteq> None" "place n w' x = Some q"
    then show "P q" using alloc [of x] sp(3-5) code orderlyD(1) [OF o]
      by (cases "x = c"; cases "x = next_ptr w") (auto simp: good_code_def)
  qed
  moreover have "answered E F (threads w' t)" "on_way t w'"
    using orderlyD(3) [OF o t] c(1) by (auto simp: th answered_def live_tokens_def on_way_def)
  moreover have "x \<in> set (bq_view E (global_queue w')) \<or> carries E (threads w' t) x"
    if "heap w' x \<noteq> None"
      "heap w x = None \<or> x \<in> set (bq_view E (global_queue w)) \<or> carries E (threads w t) x" for x
    using that c(1,2) ns alloc [of x] by (auto simp: th sp(7) carries_def)
  ultimately show ?thesis
    using c(3) room by (intro orderly_intro [OF o t e]) auto
qed

lemmas call_simps = point_def answered_def live_tokens_def carries_def on_way_def

text \<open>The outcome of a call.\<close>

lemma body_outcome:
  assumes laws: "env_laws E" and resp: "responsive E F"
    and inv: "inv E n {#} w" and t: "t < n" and ans: "answered E F (threads w t)"
    and l: "loc (threads w t) = Body p" and c: "cur_running (threads w t) = Some c"
    and co: "heap w c = Some co" and run: "run E p (user w) = (q, u)"
    and good: "\<And>p'. q \<noteq> Call_Block p'" "\<And>fd i k. q = Call_Wait fd i k \<Longrightarrow> fd \<in> F"
  shows "case q of
      Call_Spawn f os p' \<Rightarrow> step E t w = yielded (Inr Suspended) t c (Body p') (After_Resume c)
        (alloc_spawned E t f os (w\<lparr>user := u\<rparr>))
    | _ \<Rightarrow> called E F t c w (step E t w) \<and> user (step E t w) = u \<and>
        (case point t (step E t w) c of None \<Rightarrow> True | Some p' \<Rightarrow> goes_on q p') \<and>
        loc (threads (step E t w) t) = (case q of Call_Tau p' \<Rightarrow> Body p' | _ \<Rightarrow> After_Resume c)"
proof -
  have a: "\<forall>tok x fd. slab_view E (slabs (threads w t)) tok = Some (x, fd) \<longrightarrow>
      fd \<in> F \<and> tok \<in> el_armed E (event_loop (threads w t))"
    using ans l by (auto simp: answered_def live_tokens_def)
  have p: "p0 = p" if "loc (threads w t) = Body p0" for p0 using that l by simp
  note known = a l c co run good
  from step_effect [OF laws inv t] show ?thesis
  proof cases
    case (wait_refused p0 c' co' fd i k u' tok sl x ev)
    then have "q = Call_Wait fd i k" using run l by simp
    then have "fd \<in> F" by (rule good(2))
    then have "\<not> isl (fst (el_register E fd tok i (event_loop (threads w t))))"
      using resp unfolding responsive_def by blast
    then show ?thesis using wait_refused(8) by simp
  next
    case (wait p0 c' co' fd i k u' tok sl ev)
    then show ?thesis using known
      by (auto simp: call_simps called_def threads_goto) (metis option.distinct(1))+
  qed (use known in \<open>auto simp: call_simps called_def threads_goto dest: p\<close>)
qed

lemma orderly_body:
  assumes laws: "env_laws E" and resp: "responsive E F" and ends: "ends E F P work kids bonus"
    and inv: "inv E n {#} w" "inv E n {#} (step E t w)" and t: "t < n"
    and o: "orderly E n F P kids m w"
    and ns: "new_spawned (threads w t) = None" and l: "loc (threads w t) = Body p"
  shows "orderly E n F P kids m (step E t w) \<and> left n work bonus (step E t w) < left n work bonus w"
proof -
  have e: "effect E t w (step E t w)" by (rule step_effect [OF laws inv(1) t])
  have fin: "finite (dom (heap w))" by (rule heap_finite [OF inv(1)])
  obtain c co where c: "cur_running (threads w t) = Some c" and co: "heap w c = Some co"
    using body_runs [OF inv(1) t l] by blast
  have h: "heap w c \<noteq> None" using co by simp
  note pl = running_place [OF inv t e l c]
  have P: "P p" using orderlyD(1) [OF o] pl(1) h by (auto simp: good_code_def)
  obtain q u where r: "run E p (user w) = (q, u)" by fastforce
  have ok: "call_ok F P work kids bonus p (user w) (q, u)"
    using ends P r unfolding ends_def by metis
  have out: "case q of
      Call_Spawn f os p' \<Rightarrow> step E t w = yielded (Inr Suspended) t c (Body p') (After_Resume c)
        (alloc_spawned E t f os (w\<lparr>user := u\<rparr>))
    | _ \<Rightarrow> called E F t c w (step E t w) \<and> user (step E t w) = u \<and>
        (case point t (step E t w) c of None \<Rightarrow> True | Some p' \<Rightarrow> goes_on q p') \<and>
        loc (threads (step E t w) t) = (case q of Call_Tau p' \<Rightarrow> Body p' | _ \<Rightarrow> After_Resume c)"
    by (rule body_outcome [OF laws resp inv(1) t orderlyD(3) [OF o t] l c co r])
      (use ok in \<open>auto simp: call_ok_def\<close>)
  show ?thesis
  proof (cases "\<exists>f os p'. q = Call_Spawn f os p'")
    case True
    then obtain f os p' where q: "q = Call_Spawn f os p'" by blast
    have w': "step E t w = yielded (Inr Suspended) t c (Body p') (After_Resume c)
        (alloc_spawned E t f os (w\<lparr>user := u\<rparr>))" using out q by simp
    note sp = spawn_points [OF inv t e l c co w']
    note ld = load_spawn [OF fin h pl(1) sp(1,2,5,3,4)]
    have less: "work f + work p' + bonus u < work p + bonus (user w)" "kids f + kids p' < kids p"
        "P f" "P p'" using ok q by (simp_all add: call_ok_def Let_def)
    have "card (dom (heap (step E t w))) + load n kids (step E t w) \<le> m"
      using orderlyD(5) [OF o] fin ld [of kids] less(2) sp(2) unfolding sp(1) by (simp add: domIff)
    then have "orderly E n F P kids m (step E t w)"
      by (rule orderly_spawned [OF o inv t e l c co ns less(3,4) _ w'])
    moreover have "left n work bonus (step E t w) < left n work bonus w"
      using ld [of work] less(1) by (simp add: left_def sp(8))
    ultimately show ?thesis by blast
  next
    case False
    then have cl: "called E F t c w (step E t w)" and u: "user (step E t w) = u"
      and next_p: "case point t (step E t w) c of None \<Rightarrow> True | Some p' \<Rightarrow> goes_on q p'"
      using out by (cases q; simp)+
    have dom: "dom (heap (step E t w)) = dom (heap w)" using cl by (simp add: called_def)
    have same: "place n (step E t w) x = place n w x" if "x \<noteq> c" for x
      using cl pl(3) that by (simp add: called_def)
    note ld = load_call [OF fin h pl(1) dom same]
    have less: "bonus u < work p + bonus (user w)"
      "goes_on q p' \<Longrightarrow> P p' \<and> work p' + bonus u < work p + bonus (user w) \<and> kids p' \<le> kids p" for p'
      using ok False by (cases q; auto simp: call_ok_def Let_def; metis add_lessD1)+
    have "load n kids (step E t w) \<le> load n kids w" "left n work bonus (step E t w) < left n work bonus w"
      using ld [of kids] ld [of work] next_p less by (fastforce simp: left_def u pl(2) split: option.splits)+
    moreover have "orderly E n F P kids m (step E t w)"
      by (rule orderly_called [OF o inv t e l c h cl])
        (use next_p less(2) calculation(1) orderlyD(5) [OF o] dom in \<open>auto split: option.splits\<close>)
    ultimately show ?thesis by blast
  qed
qed

section \<open>The scheduler loses nothing\<close>

lemma queue_room:
  assumes inv: "inv E n {#} w" and t: "t < n" and h: "h \<in># thread_refs E (threads w t)"
  shows "length (bq_view E (global_queue w)) < card (dom (heap w))"
proof -
  let ?q = "bq_view E (global_queue w)"
  have fin: "finite (dom (heap w))" by (rule heap_finite [OF inv])
  have r: "set ?q \<union> {h} \<subseteq> dom (heap w)"
    using inv h unfolding inv_def refs_split [OF t] by auto
  moreover have "h \<notin> set ?q" using inv_one_holder(2) [OF inv t h] by simp
  ultimately have "set ?q \<subset> dom (heap w)" by blast
  then have "card (set ?q) < card (dom (heap w))" by (rule psubset_card_mono [OF fin])
  then show ?thesis using distinct_card [OF queue_distinct [OF inv]] t by simp
qed

lemma ready_room:
  assumes laws: "env_laws E" "capacity_laws E" and inv: "inv E n {#} w" and t: "t < n"
    and room: "card (dom (heap w)) \<le> bq_cap E (global_queue w)"
    and h: "h \<in># thread_refs E (threads w t)" and q: "global_queue w' = global_queue w"
  obtains q where "ready E t h k w' = goto t k (w'\<lparr>global_queue := q\<rparr>)"
    "bq_view E q = bq_view E (global_queue w) @ [h]"
  using ready_not_full [OF laws, of w' t h k] queue_room [OF inv t h] room q by force

lemma load_quiet:
  assumes fin: "finite (dom (heap w))" and dom: "dom (heap w') \<subseteq> dom (heap w)"
    and same: "\<And>x. heap w' x \<noteq> None \<Longrightarrow> place n w' x = place n w x"
  shows "load n g w' \<le> load n g w"
proof -
  have "load n g w' = (\<Sum>c\<in>dom (heap w'). case place n w c of None \<Rightarrow> 0 | Some p \<Rightarrow> g p)"
    unfolding load_def using same by (intro sum.cong) auto
  also have "\<dots> \<le> load n g w" unfolding load_def by (rule sum_mono2 [OF fin dom]) simp
  finally show ?thesis .
qed

lemma orderly_quiet:
  assumes o: "orderly E n F P kids m w" and inv: "inv E n {#} w" "inv E n {#} w'" and t: "t < n"
    and e: "effect E t w w'"
    and dom: "dom (heap w') \<subseteq> dom (heap w)" and u: "user w' = user w"
    and same: "\<And>x. heap w' x \<noteq> None \<Longrightarrow> point t w' x = point t w x"
    and here: "answered E F (threads w' t)" "on_way t w'"
    and kept: "\<And>c. heap w' c \<noteq> None \<Longrightarrow>
      c \<in> set (bq_view E (global_queue w)) \<or> carries E (threads w t) c \<Longrightarrow>
      c \<in> set (bq_view E (global_queue w')) \<or> carries E (threads w' t) c"
  shows "orderly E n F P kids m w' \<and> left n work bonus w' \<le> left n work bonus w"
proof -
  have fin: "finite (dom (heap w))" by (rule heap_finite [OF inv(1)])
  have pl: "place n w' x = place n w x" if "heap w' x \<noteq> None" for x
    using place_step [OF inv t e, of x] place_point [OF t, of x E w] same [OF that] by auto
  have "good_code n P w'"
    unfolding good_code_def
  proof (intro allI impI)
    fix c p assume c: "heap w' c \<noteq> None" "place n w' c = Some p"
    have "heap w c \<noteq> None" using c(1) dom by blast
    then show "P p" using orderlyD(1) [OF o] c(2) pl [OF c(1)] by (simp add: good_code_def)
  qed
  moreover have "card (dom (heap w')) \<le> card (dom (heap w))" by (rule card_mono [OF fin dom])
  then have "card (dom (heap w')) + load n kids w' \<le> m"
    using load_quiet [OF fin dom pl, of kids] orderlyD(5) [OF o] by linarith
  moreover have "heap w = Map.empty \<Longrightarrow> heap w' = Map.empty" using dom by auto
  moreover have "heap w c \<noteq> None" if "heap w' c \<noteq> None" for c using that dom by blast
  ultimately have "orderly E n F P kids m w'"
    using here kept by (intro orderly_intro [OF o t e]) blast+
  then show ?thesis using load_quiet [OF fin dom pl, of work] u by (simp add: left_def)
qed

lemmas quiet_simps = call_simps threads_goto

end
