(* ===== verification/Fairness.thy ===== *)
theory Fairness
  imports Sched_Prelude
begin

text \<open>
  Executions of threads under a schedule, and what a fair schedule guarantees: the locale
  \<open>progress\<close> is the rule by which a goal is reached when some thread always helps.
\<close>

section \<open>Schedules\<close>

text \<open>The schedule says which of \<open>n\<close> threads makes the step; it is fair when each always comes again.\<close>

definition fair :: "nat \<Rightarrow> (nat \<Rightarrow> nat) \<Rightarrow> bool" where
  "fair n sch \<longleftrightarrow> (\<forall>k. sch k < n) \<and> (\<forall>t<n. \<forall>k. \<exists>j\<ge>k. sch j = t)"

primrec exec :: "(nat \<Rightarrow> 's \<Rightarrow> 's) \<Rightarrow> (nat \<Rightarrow> nat) \<Rightarrow> nat \<Rightarrow> 's \<Rightarrow> 's" where
  "exec f sch 0 s = s"
| "exec f sch (Suc k) s = f (sch k) (exec f sch k s)"

lemma exec_add: "exec f sch (i + k) s = exec f (\<lambda>j. sch (i + j)) k (exec f sch i s)"
  by (induction k) simp_all

lemma fair_later:
  assumes "fair n sch"
  shows "fair n (\<lambda>j. sch (i + j))"
  unfolding fair_def
proof (intro conjI allI impI)
  fix t k assume "t < n"
  then obtain j where "i + k \<le> j" "sch j = t" using assms unfolding fair_def by blast
  then have "k \<le> j - i \<and> sch (i + (j - i)) = t" by simp
  then show "\<exists>j\<ge>k. sch (i + j) = t" by blast
qed (use assms in \<open>simp add: fair_def\<close>)

lemma fair_next: "fair n sch \<Longrightarrow> t < n \<Longrightarrow> \<exists>k. sch k = t"
  unfolding fair_def by blast

lemma fair_in: "fair n sch \<Longrightarrow> sch k < n"
  by (simp add: fair_def)

text \<open>Round-robin is fair.\<close>

lemma round_robin_fair: "0 < n \<Longrightarrow> fair n (\<lambda>k. k mod n)"
  unfolding fair_def
proof (intro conjI allI impI)
  fix t k :: nat assume "t < n"
  then have "k \<le> t + n * k \<and> (t + n * k) mod n = t" 
    using mod_mult_self2 [of t n k] by (auto intro: trans_le_add2)
  then show "\<exists>j\<ge>k. j mod n = t" by blast
qed simp

section \<open>Reaching a goal\<close>

text \<open>
  Until the goal is reached there is a thread that helps. Its own step uses up some of
  the amount \<open>A\<close>, or brings a helping thread closer to doing so; a step of another thread
  uses up some of \<open>A\<close>, or leaves the helping thread as close as it was, or another closer.
\<close>

locale progress =
  fixes f :: "nat \<Rightarrow> 's \<Rightarrow> 's" and n :: nat
    and I :: "'s \<Rightarrow> bool" and G :: "'s \<Rightarrow> bool"
    and A :: "'s \<Rightarrow> nat" and helps :: "'s \<Rightarrow> nat \<Rightarrow> bool" and dist :: "'s \<Rightarrow> nat \<Rightarrow> nat"
  assumes keeps: "I s \<Longrightarrow> \<not> G s \<Longrightarrow> i < n \<Longrightarrow> \<not> G (f i s) \<Longrightarrow> I (f i s)"
    and uses: "I s \<Longrightarrow> \<not> G s \<Longrightarrow> i < n \<Longrightarrow> \<not> G (f i s) \<Longrightarrow> A (f i s) \<le> A s"
    and helper: "I s \<Longrightarrow> \<not> G s \<Longrightarrow> \<exists>t<n. helps s t"
    and own: "I s \<Longrightarrow> \<not> G s \<Longrightarrow> t < n \<Longrightarrow> \<not> G (f t s) \<Longrightarrow> helps s t \<Longrightarrow> \<not> A (f t s) < A s \<Longrightarrow>
      \<exists>t'<n. helps (f t s) t' \<and> dist (f t s) t' < dist s t"
    and other: "I s \<Longrightarrow> \<not> G s \<Longrightarrow> t < n \<Longrightarrow> i < n \<Longrightarrow> i \<noteq> t \<Longrightarrow> \<not> G (f i s) \<Longrightarrow> helps s t \<Longrightarrow>
      \<not> A (f i s) < A s \<Longrightarrow> (helps (f i s) t \<and> dist (f i s) t \<le> dist s t) \<or>
        (\<exists>t'<n. helps (f i s) t' \<and> dist (f i s) t' < dist s t)"
begin

text \<open>One helping thread: the goal, less to do, or a closer helper.\<close>

lemma helper_advances:
  assumes "fair n sch" and "I s" and "t < n" and "helps s t"
  shows "\<exists>k. G (exec f sch k s) \<or> (I (exec f sch k s) \<and> (A (exec f sch k s) < A s \<or>
    (A (exec f sch k s) \<le> A s \<and>
      (\<exists>t'<n. helps (exec f sch k s) t' \<and> dist (exec f sch k s) t' < dist s t))))"
proof -
  obtain k where "sch k = t" using fair_next [OF assms(1,3)] by blast
  then show ?thesis
    using assms
  proof (induction k arbitrary: sch s)
    case (0 sch s)
    let ?w = "exec f sch 1 s"
    have "?w = f t s" using 0 by simp
    then have "G s \<or> G ?w \<or> (I ?w \<and> (A ?w < A s \<or>
        (A ?w \<le> A s \<and> (\<exists>t'<n. helps ?w t' \<and> dist ?w t' < dist s t))))"
      using own [of s t] uses [of s t] keeps [of s t] 0 unfolding \<open>?w = f t s\<close> by blast
    then show ?case using exec.simps(1) [of f sch s] by metis
  next
    case (Suc k sch s)
    let ?w = "exec f sch 1 s" and ?sch = "\<lambda>j. sch (1 + j)"
    have later: "exec f ?sch j ?w = exec f sch (1 + j) s" for j by (simp only: exec_add)
    have w: "?w = f (sch 0) s" and i: "sch 0 < n" using Suc.prems(2) by (simp_all add: fair_in)
    have fair: "fair n ?sch" by (rule fair_later [OF Suc.prems(2)])
    show ?case
    proof (cases "G s \<or> G ?w")
      case True
      then show ?thesis using exec.simps(1) [of f sch s] by metis
    next
      case False
      then have I: "I ?w" and A: "A ?w \<le> A s"
        using keeps [of s "sch 0"] uses [of s "sch 0"] Suc.prems(3) i by (simp_all add: w)
      consider "A ?w < A s" | "\<exists>t'<n. helps ?w t' \<and> dist ?w t' < dist s t"
        | "helps ?w t" "dist ?w t \<le> dist s t"
        using own [of s t] other [of s t "sch 0"] Suc.prems i w False by (cases "sch 0 = t") auto
      then show ?thesis
      proof cases
        case 3
        obtain j where "G (exec f ?sch j ?w) \<or> (I (exec f ?sch j ?w) \<and> (A (exec f ?sch j ?w) < A ?w \<or>
            (A (exec f ?sch j ?w) \<le> A ?w \<and>
              (\<exists>t'<n. helps (exec f ?sch j ?w) t' \<and> dist (exec f ?sch j ?w) t' < dist ?w t))))"
          using Suc.IH [of ?sch ?w] Suc.prems(1,4) 3 I fair by auto
        then show ?thesis
          unfolding later using 3(2) A by (meson less_le_trans order_trans)
      qed (use A I in blast)+
    qed
  qed
qed

theorem reaches_goal:
  assumes "fair n sch" and "I s"
  shows "\<exists>k. G (exec f sch k s)"
proof -
  have near: "\<exists>k. G (exec f sch k s)" if "fair n sch" "I s" "t < n" "helps s t" for s t sch
    using that
  proof (induction "(A s, dist s t)" arbitrary: s t sch
      rule: wf_induct_rule [OF wf_lex_prod [OF wf_less_than wf_less_than]])
    case (1 s t sch)
    obtain k where k: "G (exec f sch k s) \<or> (I (exec f sch k s) \<and> (A (exec f sch k s) < A s \<or>
        (A (exec f sch k s) \<le> A s \<and>
          (\<exists>t'<n. helps (exec f sch k s) t' \<and> dist (exec f sch k s) t' < dist s t))))"
      using helper_advances [OF "1.prems"] by blast
    let ?w = "exec f sch k s" and ?sch = "\<lambda>j. sch (k + j)"
    show ?case
    proof (cases "G ?w")
      case False
      then have I: "I ?w" using k by blast
      then obtain t' where t': "t' < n" "helps ?w t'"
        "A ?w < A s \<or> A ?w \<le> A s \<and> dist ?w t' < dist s t"
        using k helper [OF I] False by blast
      then have "((A ?w, dist ?w t'), A s, dist s t) \<in> less_than <*lex*> less_than" by auto
      from "1.hyps" [OF this fair_later [OF "1.prems"(1)] I t'(1,2)]
      show ?thesis by (metis exec_add)
    qed blast
  qed
  show ?thesis
  proof (cases "G s")
    case True
    then show ?thesis using exec.simps(1) [of f sch s] by metis
  next
    case False
    then show ?thesis using near [OF assms] helper [OF assms(2)] by blast
  qed
qed

end

end
