(* ===== verification/Run_Terminates.thy ===== *)
theory Run_Terminates
  imports Run_Work Fairness
begin

text \<open>
  \<open>Scheduler::run(n)\<close> returns: with any number of threads that are scheduled fairly, one
  coroutine spawned before \<open>run\<close>, packages that respond and code that ends, every schedule
  loop reaches its normal end.
\<close>

section \<open>Threads that help\<close>

text \<open>
  A thread helps while something is queued or it has a coroutine of its own, or when nothing
  is left at all, and it has not stopped. \<open>dist\<close> is how far it is, at most, from user code, from
  freeing a coroutine or from stopping; with nothing queued, that includes the rounds in which
  \<open>run_once\<close> gives up waiting.
\<close>

definition queued :: "('q, 'sl, 'ev, 'pl, 'stk, 'p, 'u) env \<Rightarrow>
    ('q, 'sl, 'ev, 'pl, 'stk, 'p, 'u) world \<Rightarrow> bool" where
  "queued E w \<longleftrightarrow> bq_view E (global_queue w) \<noteq> []"

definition stopped :: "tid \<Rightarrow> ('q, 'sl, 'ev, 'pl, 'stk, 'p, 'u) world \<Rightarrow> bool" where
  "stopped t w \<longleftrightarrow> (\<exists>r. loc (threads w t) = Stopped r)"

definition helps :: "('q, 'sl, 'ev, 'pl, 'stk, 'p, 'u) env \<Rightarrow>
    ('q, 'sl, 'ev, 'pl, 'stk, 'p, 'u) world \<Rightarrow> tid \<Rightarrow> bool" where
  "helps E w t \<longleftrightarrow> \<not> stopped t w \<and>
     (heap w = Map.empty \<or> queued E w \<or> (\<exists>c. carries E (threads w t) c))"

definition dist :: "('q, 'sl, 'ev, 'pl, 'stk, 'p, 'u) env \<Rightarrow>
    ('ev \<Rightarrow> nat) \<Rightarrow> ('q, 'sl, 'ev, 'pl, 'stk, 'p, 'u) world \<Rightarrow> tid \<Rightarrow> nat" where
  "dist E late w t = (let th = threads w t; a = card (el_armed E (event_loop th));
       polls = if queued E w then 0 else (8 + a) * late (event_loop th) in
     case loc th of
       After_Resume h \<Rightarrow> if dying_th th h then 0 else 8 + a + polls
     | Spawn_Check \<Rightarrow> if new_spawned th \<noteq> None then 1 else if queued E w then 2 else 6 + a + polls
     | Loop_Top \<Rightarrow> if queued E w then 1 else 5 + a + polls
     | Idle \<Rightarrow> 4 + a + polls
     | Dispatch evs \<Rightarrow> if evs = [] \<and> \<not> queued E w then 7 + a + polls else 3 + length evs
     | _ \<Rightarrow> 0)"

text \<open>A step that makes no call frees a coroutine, stops its thread, or brings it closer.\<close>

definition advances :: "('q, 'sl, 'ev, 'pl, 'stk, 'p, 'u) env \<Rightarrow> ('ev \<Rightarrow> nat) \<Rightarrow> tid \<Rightarrow>
    ('q, 'sl, 'ev, 'pl, 'stk, 'p, 'u) world \<Rightarrow> ('q, 'sl, 'ev, 'pl, 'stk, 'p, 'u) world \<Rightarrow> bool" where
  "advances E late t w w' \<longleftrightarrow> dom (heap w') \<subseteq> dom (heap w) \<and> (stopped t w \<longrightarrow> stopped t w') \<and>
     (dom (heap w') \<noteq> dom (heap w) \<or> (stopped t w' \<and> \<not> stopped t w) \<or>
       (helps E w t \<longrightarrow> helps E w' t \<and> dist E late w' t < dist E late w t))"

lemmas help_simps = advances_def helps_def dist_def queued_def stopped_def carries_def Let_def
  threads_goto

section \<open>The scheduler gets to user code\<close>

lemma task_end_advances:
  assumes laws: "env_laws E" "capacity_laws E"
    and inv: "inv E n {#} w" "inv E n {#} (step E t w)" and t: "t < n"
    and o: "orderly E n F P kids m w"
    and room: "card (dom (heap w)) \<le> bq_cap E (global_queue w)"
    and l: "loc (threads w t) = After_Resume h"
  shows "orderly E n F P kids m (step E t w) \<and> left n work bonus (step E t w) \<le> left n work bonus w \<and>
    advances E late t w (step E t w)"
proof -
  have e: "effect E t w (step E t w)" by (rule step_effect [OF laws(1) inv(1) t])
  have cur: "cur_running (threads w t) = None" using inv(1) t l by (fastforce simp: inv_def thread_ok_def)
  note a = orderlyD(3,4) [OF o t] and quiet = orderly_quiet [OF o inv t e]
  from e show ?thesis
  proof cases
    case (suspended h)
    have "h \<in># thread_refs E (threads w t)" using suspended by (simp add: thread_refs_def)
    then obtain q where w': "step E t w =
        goto t Spawn_Check ((upd t (\<lambda>th. th\<lparr>last_result := None\<rparr>) w)\<lparr>global_queue := q\<rparr>)"
        and q: "bq_view E q = bq_view E (global_queue w) @ [h]"
      using ready_room [OF laws inv(1) t room, of h "upd t (\<lambda>th. th\<lparr>last_result := None\<rparr>) w" Spawn_Check]
        suspended(1) by auto
    have "orderly E n F P kids m (step E t w) \<and> left n work bonus (step E t w) \<le> left n work bonus w"
      by (rule quiet) (use w' suspended(2-) a cur q in \<open>auto simp: quiet_simps\<close>)
    moreover have "advances E late t w (step E t w)"
      using w' suspended(2-) q by (auto simp: help_simps dying_th_def)
    ultimately show ?thesis by blast
  next
    case (blocked h)
    have "orderly E n F P kids m (step E t w) \<and> left n work bonus (step E t w) \<le> left n work bonus w"
      by (rule quiet) (use blocked a cur in \<open>auto simp: quiet_simps\<close>)
    moreover have "advances E late t w (step E t w)"
      using blocked by (auto simp: help_simps dying_th_def)
    ultimately show ?thesis by blast
  next
    case (ended h co)
    obtain sp where th: "threads (step E t w) t =
        (threads w t)\<lparr>last_result := None, stack_pool := sp, loc := Spawn_Check\<rparr>"
      using finished_thread [of "upd t (\<lambda>th. th\<lparr>last_result := None\<rparr>) w" h co E t Spawn_Check] ended
      by auto
    have hp: "heap (step E t w) = (heap w)(h := None)" "global_queue (step E t w) = global_queue w"
      "user (step E t w) = user w"
      using ended by (simp_all add: finished_heap frame)
    have "orderly E n F P kids m (step E t w) \<and> left n work bonus (step E t w) \<le> left n work bonus w"
      by (rule quiet) (use ended(2-) a cur hp th in \<open>auto simp: quiet_simps split: if_splits\<close>)
    moreover have "dom (heap (step E t w)) \<noteq> dom (heap w)" using hp ended by auto
    then have "advances E late t w (step E t w)" using hp ended(2-) th by (auto simp: advances_def stopped_def)
    ultimately show ?thesis by blast
  qed (use l in auto)
qed

lemma pop_none_empty:
  assumes "responsive E F" and l: "loc (threads w t) = Loop_Top" "cur_running (threads w t) = None"
    and "step E t w = goto t Idle (w\<lparr>global_queue := q\<rparr>)"
  shows "bq_view E (global_queue w) = []"
proof (rule ccontr)
  assume "bq_view E (global_queue w) \<noteq> []"
  then obtain h q' where "bq_pop E (global_queue w) = (Some h, q')"
    using assms(1) unfolding responsive_def by (metis option.exhaust surjective_pairing)
  then have "step E t w = resume t h (w\<lparr>global_queue := q'\<rparr>)"
    using l by (simp add: step_def schedule_pop_def)
  then have "cur_running (threads (step E t w) t) = Some h \<or> loc (threads (step E t w) t) = Crash"
    by (auto simp: resume_def enter_def threads_goto split_beta split: option.splits)
  then show False using assms(4) l by (simp add: threads_goto)
qed

lemma loop_advances:
  assumes laws: "env_laws E" "responsive E F"
    and inv: "inv E n {#} w" "inv E n {#} (step E t w)" and t: "t < n"
    and o: "orderly E n F P kids m w"
    and l: "loc (threads w t) = Loop_Top \<or> loc (threads w t) = Spawn_Check"
  shows "orderly E n F P kids m (step E t w) \<and> left n work bonus (step E t w) \<le> left n work bonus w \<and>
    advances E late t w (step E t w)"
proof -
  have e: "effect E t w (step E t w)" by (rule step_effect [OF laws(1) inv(1) t])
  have cur: "cur_running (threads w t) = None" using inv(1) t l by (fastforce simp: inv_def thread_ok_def)
  note a = orderlyD(3,4) [OF o t] and quiet = orderly_quiet [OF o inv t e]
  from e show ?thesis
  proof cases
    case no_spawned
    have "orderly E n F P kids m (step E t w) \<and> left n work bonus (step E t w) \<le> left n work bonus w"
      by (rule quiet) (use no_spawned a cur in \<open>auto simp: quiet_simps\<close>)
    moreover have "advances E late t w (step E t w)" using no_spawned by (auto simp: help_simps)
    ultimately show ?thesis by blast
  next
    case (spawned h co p)
    have "orderly E n F P kids m (step E t w) \<and> left n work bonus (step E t w) \<le> left n work bonus w"
      by (rule quiet) (use spawned a cur in \<open>auto simp: quiet_simps\<close>)
    moreover have "advances E late t w (step E t w)" using spawned by (auto simp: help_simps)
    ultimately show ?thesis by blast
  next
    case (pop h q co p)
    have "orderly E n F P kids m (step E t w) \<and> left n work bonus (step E t w) \<le> left n work bonus w"
      by (rule quiet) (use pop a cur in \<open>auto simp: quiet_simps\<close>)
    moreover have "advances E late t w (step E t w)" using pop by (auto simp: help_simps)
    ultimately show ?thesis by blast
  next
    case (pop_none q)
    have "orderly E n F P kids m (step E t w) \<and> left n work bonus (step E t w) \<le> left n work bonus w"
      by (rule quiet) (use pop_none a cur in \<open>auto simp: quiet_simps\<close>)
    moreover have "advances E late t w (step E t w)"
      using pop_none pop_none_empty [OF laws(2) pop_none(2) cur pop_none(1)] by (auto simp: help_simps)
    ultimately show ?thesis by blast
  qed (use l in auto)
qed

lemma armed_waits:
  assumes "answered E F (threads w t)" and "loc (threads w t) = Idle"
    and "dom (slab_view E (slabs (threads w t))) \<noteq> {}"
  shows "el_armed E (event_loop (threads w t)) \<noteq> {}" "F \<noteq> {}"
  using assms by (fastforce simp: answered_def live_tokens_def)+

lemma idle_polls:
  assumes laws: "env_laws E" "responsive E F" and a: "answered E F (threads w t)"
    and l: "loc (threads w t) = Idle" and sl: "dom (slab_view E (slabs (threads w t))) \<noteq> {}"
  obtains evs ev where "step E t w = goto t (Dispatch evs) (with_io t (slabs (threads w t)) ev w)"
    "el_poll E (event_loop (threads w t)) = (Inr evs, ev)" "distinct (map fst evs)" "set (map fst evs) \<subseteq> el_armed E (event_loop (threads w t))"
    "el_armed E ev = el_armed E (event_loop (threads w t)) - set (map fst evs)"
proof -
  have "\<not> isl (fst (el_poll E (event_loop (threads w t))))"
    using laws(2) armed_waits [OF a l sl] by (simp add: responsive_def)
  then obtain evs ev where p: "el_poll E (event_loop (threads w t)) = (Inr evs, ev)"
    by (cases "el_poll E (event_loop (threads w t))"; cases "fst (el_poll E (event_loop (threads w t)))")
      auto
  have "slab_count E (slabs (threads w t)) \<noteq> 0"
    using sl slab_count_card [OF laws(1)] slab_finite [OF laws(1)] by simp
  then have "step E t w = goto t (Dispatch evs) (with_io t (slabs (threads w t)) ev w)"
    using l p by (simp add: step_def schedule_idle_def with_io_def upd_def)
  then show ?thesis using that p el_poll_Inr [OF laws(1) p] by blast
qed

lemma idle_nothing_left:
  assumes inv: "inv E n X w" and room: "card (dom (heap w)) < 2 ^ 64" and z: "work_counts w = 0"
  shows "heap w = Map.empty"
proof -
  have "card (dom (heap w)) = 0"
    using inv room z by (simp add: inv_def heap_ok_def word_of_nat_eq_0_iff)
      (metis dvd_imp_le gr0I leD)
  then show ?thesis using heap_finite [OF inv] by simp
qed

lemma idle_advances:
  assumes laws: "env_laws E" "responsive E F"
    and inv: "inv E n {#} w" "inv E n {#} (step E t w)" and t: "t < n"
    and o: "orderly E n F P kids m w"
    and room: "card (dom (heap w)) < 2 ^ 64" and l: "loc (threads w t) = Idle"
  shows "orderly E n F P kids m (step E t w) \<and> left n work bonus (step E t w) \<le> left n work bonus w \<and>
    (events_come E F late \<longrightarrow> advances E late t w (step E t w))"
proof -
  have e: "effect E t w (step E t w)" by (rule step_effect [OF laws(1) inv(1) t])
  have ok: "cur_running (threads w t) = None"
    "el_armed E (event_loop (threads w t)) \<subseteq> dom (slab_view E (slabs (threads w t)))"
    using inv(1) t l by (fastforce simp: inv_def thread_ok_def live_tokens_def)+
  note a = orderlyD(3,4) [OF o t] and quiet = orderly_quiet [OF o inv t e]
  show ?thesis
  proof (cases "dom (slab_view E (slabs (threads w t))) = {}")
    case True
    have s: "step E t w = goto t (if work_counts w = 0 then Stopped (Inr ()) else Spawn_Check) w"
      using l True slab_count_card [OF laws(1), of "slabs (threads w t)"]
      by (simp add: step_def schedule_idle_def work_count_def)
    have z: "heap w = Map.empty" if "work_counts w = 0" by (rule idle_nothing_left [OF inv(1) room that])
    have nz: "heap w \<noteq> Map.empty" if "work_counts w \<noteq> 0"
      using that inv(1) by (auto simp: inv_def heap_ok_def)
    have "orderly E n F P kids m (step E t w) \<and> left n work bonus (step E t w) \<le> left n work bonus w"
      by (rule quiet) (use s z a ok(1) l True in \<open>auto simp: quiet_simps\<close>)
    moreover have "advances E late t w (step E t w)"
      using s l True nz ok(1) by (auto simp: help_simps)
    ultimately show ?thesis by blast
  next
    case False
    obtain evs ev where p: "step E t w = goto t (Dispatch evs) (with_io t (slabs (threads w t)) ev w)"
      "el_poll E (event_loop (threads w t)) = (Inr evs, ev)"
      "distinct (map fst evs)" "set (map fst evs) \<subseteq> el_armed E (event_loop (threads w t))"
      "el_armed E ev = el_armed E (event_loop (threads w t)) - set (map fst evs)"
      using idle_polls [OF laws a(1) l False] by blast
    have quiet': "orderly E n F P kids m (step E t w) \<and> left n work bonus (step E t w) \<le> left n work bonus w"
      by (rule quiet) (use p a ok(1) l in \<open>auto simp: quiet_simps\<close>)
    have "length evs \<le> card (el_armed E (event_loop (threads w t)))"
      using card_mono [OF finite_subset [OF ok(2) slab_finite [OF laws(1)]] p(4)]
        distinct_card [OF p(3)] by simp
    moreover have "(8 + a) * late ev < (8 + a) * late (event_loop (threads w t)) \<and>
        el_armed E ev = el_armed E (event_loop (threads w t)) \<and>
        7 + a + (8 + a) * late ev < 4 + a + (8 + a) * late (event_loop (threads w t))"
      if "evs = []" "events_come E F late" for a
    proof -
      have "late ev < late (event_loop (threads w t))"
        using armed_waits [OF a(1) l False] p(2) that by (auto simp: events_come_def)
      then have "(8 + a) * Suc (late ev) \<le> (8 + a) * late (event_loop (threads w t))"
        by (intro mult_le_mono2) simp
      then show ?thesis using p(5) that(1) \<open>late ev < late (event_loop (threads w t))\<close> by simp
    qed
    ultimately have "events_come E F late \<longrightarrow> advances E late t w (step E t w)"
      using l p(1) ok(1) by (auto simp: help_simps)
    with quiet' show ?thesis by blast
  qed
qed

text \<open>An event of a registered token makes its coroutine ready.\<close>

lemma event_delivered:
  assumes laws: "env_laws E" "capacity_laws E" "responsive E F"
    and inv: "inv E n {#} w" and t: "t < n" and a: "answered E F (threads w t)"
    and room: "card (dom (heap w)) \<le> bq_cap E (global_queue w)"
    and l: "loc (threads w t) = Dispatch ((tok, es) # rest)"
  obtains h fd sl ev q where "slab_view E (slabs (threads w t)) tok = Some (h, fd)"
    "slab_view E sl = (slab_view E (slabs (threads w t)))(tok := None)"
    "el_armed E ev = el_armed E (event_loop (threads w t))"
    "bq_view E q = bq_view E (global_queue w) @ [h]"
    "step E t w = goto t (Dispatch rest) ((with_io t sl ev w)\<lparr>global_queue := q\<rparr>)"
proof -
  have ok: "thread_ok E (threads w t)" using inv t by (simp add: inv_def)
  have tok: "tok \<in> live_tokens E (event_loop (threads w t)) (loc (threads w t))"
    using l by (simp add: live_tokens_def)
  then obtain h fd where sv: "slab_view E (slabs (threads w t)) tok = Some (h, fd)"
    using ok unfolding thread_ok_def by fastforce
  have F: "fd \<in> F" using a sv by (simp add: answered_def)
  obtain sl where rm: "slab_remove E tok (slabs (threads w t)) = (Some (h, fd), sl)"
    and sl: "slab_view E sl = (slab_view E (slabs (threads w t)))(tok := None)"
    using slab_remove_view [OF laws(1), of tok "slabs (threads w t)"] sv by (metis surj_pair)
  obtain ev where dr: "el_deregister E fd (event_loop (threads w t)) = (Inr (), ev)"
    and ev: "el_armed E ev = el_armed E (event_loop (threads w t))"
    using laws(3) F unfolding responsive_def by blast
  have h: "h \<in># thread_refs E (threads w t)"
    using sv tok in_awaits [OF laws(1), of h "threads w t"] by (auto simp: thread_refs_alt)
  obtain q where "ready E t h (Dispatch rest) (with_io t sl ev w) =
      goto t (Dispatch rest) ((with_io t sl ev w)\<lparr>global_queue := q\<rparr>)"
    and q: "bq_view E q = bq_view E (global_queue w) @ [h]"
    using ready_room [OF laws(1,2) inv t room h, of "with_io t sl ev w" "Dispatch rest"] by auto
  then have "step E t w = goto t (Dispatch rest) ((with_io t sl ev w)\<lparr>global_queue := q\<rparr>)"
    using l rm dr by (simp add: step_def handler_ready_def with_io_def)
  then show ?thesis using that sv sl ev q by blast
qed

lemma dispatch_advances:
  assumes laws: "env_laws E" "capacity_laws E" "responsive E F"
    and inv: "inv E n {#} w" "inv E n {#} (step E t w)" and t: "t < n"
    and o: "orderly E n F P kids m w"
    and room: "card (dom (heap w)) \<le> bq_cap E (global_queue w)"
    and l: "loc (threads w t) = Dispatch evs"
  shows "orderly E n F P kids m (step E t w) \<and> left n work bonus (step E t w) \<le> left n work bonus w \<and>
    advances E late t w (step E t w)"
proof -
  have e: "effect E t w (step E t w)" by (rule step_effect [OF laws(1) inv(1) t])
  have ok: "thread_ok E (threads w t)" using inv(1) t by (simp add: inv_def)
  have cur: "cur_running (threads w t) = None" using ok l by (simp add: thread_ok_def)
  note a = orderlyD(3,4) [OF o t] and quiet = orderly_quiet [OF o inv t e]
  show ?thesis
  proof (cases evs)
    case Nil
    have s: "step E t w = goto t Spawn_Check w" using l Nil by (simp add: step_def)
    have "orderly E n F P kids m (step E t w) \<and> left n work bonus (step E t w) \<le> left n work bonus w"
      by (rule quiet) (use s a cur l Nil in \<open>auto simp: quiet_simps\<close>)
    moreover have "advances E late t w (step E t w)" using s l Nil by (auto simp: help_simps)
    ultimately show ?thesis by blast
  next
    case (Cons e rest)
    obtain tok es where l': "loc (threads w t) = Dispatch ((tok, es) # rest)"
      using l Cons by (cases e) simp
    obtain h fd sl ev q where d: "slab_view E (slabs (threads w t)) tok = Some (h, fd)"
      "slab_view E sl = (slab_view E (slabs (threads w t)))(tok := None)"
      "el_armed E ev = el_armed E (event_loop (threads w t))"
      "bq_view E q = bq_view E (global_queue w) @ [h]"
      "step E t w = goto t (Dispatch rest) ((with_io t sl ev w)\<lparr>global_queue := q\<rparr>)"
      using event_delivered [OF laws inv(1) t a(1) room l'] by blast
    have "distinct (tok # map fst rest)" using ok l' by (simp add: thread_ok_def)
    then have "orderly E n F P kids m (step E t w) \<and> left n work bonus (step E t w) \<le> left n work bonus w"
      by (intro quiet) (use a cur l' d in
        \<open>auto simp: quiet_simps split: if_splits, metis Pair_inject option.inject\<close>)
    moreover have "advances E late t w (step E t w)" using l Cons d(4,5) by (auto simp: help_simps)
    ultimately show ?thesis by blast
  qed
qed

lemma orderly_scheduler:
  assumes laws: "env_laws E" "capacity_laws E" "responsive E F"
    and inv: "inv E n {#} w" "inv E n {#} (step E t w)" and t: "t < n"
    and o: "orderly E n F P kids m w"
    and room: "card (dom (heap w)) \<le> bq_cap E (global_queue w)" "card (dom (heap w)) < 2 ^ 64"
    and l: "\<not> (\<exists>p. loc (threads w t) = Body p)"
  shows "orderly E n F P kids m (step E t w) \<and> left n work bonus (step E t w) \<le> left n work bonus w \<and>
    (events_come E F late \<longrightarrow> advances E late t w (step E t w))"
proof (cases "loc (threads w t)")
  case (After_Resume h)
  then show ?thesis using task_end_advances [OF laws(1,2) inv t o room(1)] by simp
next
  case (Dispatch evs)
  then show ?thesis using dispatch_advances [OF laws inv t o room(1)] by simp
next
  case (Stopped r)
  then show ?thesis using o by (simp add: step_def advances_def helps_def stopped_def)
qed (use loop_advances [OF laws(1,3) inv t o] idle_advances [OF laws(1,3) inv t o room(2)]
    orderlyD(4) [OF o t] inv(1) t l in \<open>auto simp: inv_def thread_ok_def on_way_def\<close>)

lemma orderly_step:
  assumes laws: "env_laws E" "capacity_laws E" "responsive E F" "ends E F P work kids bonus"
    and come: "events_come E F late"
    and inv: "inv E n {#} w" "inv E n {#} (step E t w)" and t: "t < n"
    and o: "orderly E n F P kids m w"
    and room: "card (dom (heap w)) \<le> bq_cap E (global_queue w)" "card (dom (heap w)) < 2 ^ 64"
    and ns: "\<exists>p. loc (threads w t) = Body p \<Longrightarrow> new_spawned (threads w t) = None"
  shows "orderly E n F P kids m (step E t w) \<and>
    (if \<exists>p. loc (threads w t) = Body p then left n work bonus (step E t w) < left n work bonus w
     else left n work bonus (step E t w) \<le> left n work bonus w \<and> advances E late t w (step E t w))"
  using orderly_body [OF laws(1,3,4) inv t o ns] orderly_scheduler [OF laws(1-3) inv t o room] come
  by auto

text \<open>What is left to do altogether.\<close>

definition amount :: "nat \<Rightarrow> ('p \<Rightarrow> nat) \<Rightarrow> ('u \<Rightarrow> nat) \<Rightarrow> ('q, 'sl, 'ev, 'pl, 'stk, 'p, 'u) world \<Rightarrow> nat" where
  "amount n work bonus w =
    2 * left n work bonus w + card (dom (heap w)) + card {t. t < n \<and> \<not> stopped t w}"

lemma body_heap:
  assumes e: "effect E t w w'" and l: "loc (threads w t) = Body p"
  shows "dom (heap w') \<subseteq> insert (next_ptr w) (dom (heap w)) \<and> \<not> stopped t w \<and> \<not> stopped t w'"
  using e
proof cases
  case (spawn p0 c co f os p' u)
  obtain ch where "heap (alloc_spawned E t f os (w\<lparr>user := u\<rparr>)) = (heap w)(next_ptr w \<mapsto> ch)"
    using alloc_spawned_heap [of E t f os "w\<lparr>user := u\<rparr>"] by auto
  then show ?thesis using spawn by (auto simp: stopped_def)
qed (use l in \<open>auto simp: stopped_def\<close>)

lemma amount_step:
  assumes laws: "env_laws E" "capacity_laws E" "responsive E F" "ends E F P work kids bonus"
    and come: "events_come E F late"
    and inv: "inv E n {#} w" "inv E n {#} (step E t w)" and t: "t < n"
    and o: "orderly E n F P kids m w"
    and room: "card (dom (heap w)) \<le> bq_cap E (global_queue w)" "card (dom (heap w)) < 2 ^ 64"
    and ns: "\<exists>p. loc (threads w t) = Body p \<Longrightarrow> new_spawned (threads w t) = None"
  shows "amount n work bonus (step E t w) \<le> amount n work bonus w"
    "\<not> amount n work bonus (step E t w) < amount n work bonus w \<Longrightarrow>
      dom (heap (step E t w)) = dom (heap w) \<and>
      (helps E w t \<longrightarrow> helps E (step E t w) t \<and> dist E late (step E t w) t < dist E late w t)"
proof -
  let ?w = "step E t w"
  have e: "effect E t w ?w" by (rule step_effect [OF laws(1) inv(1) t])
  have fin: "finite (dom (heap w))" by (rule heap_finite [OF inv(1)])
  have same: "stopped i ?w \<longleftrightarrow> stopped i w" if "i \<noteq> t" for i
    using effect_other [OF e that] by (simp add: stopped_def)
  note st = orderly_step [OF laws come inv t o room ns]
  have "amount n work bonus ?w \<le> amount n work bonus w \<and>
      (\<not> amount n work bonus ?w < amount n work bonus w \<longrightarrow> dom (heap ?w) = dom (heap w) \<and>
        (helps E w t \<longrightarrow> helps E ?w t \<and> dist E late ?w t < dist E late w t))"
  proof (cases "\<exists>p. loc (threads w t) = Body p")
    case True
    then obtain p where l: "loc (threads w t) = Body p" by blast
    have "card (dom (heap ?w)) \<le> Suc (card (dom (heap w)))"
      by (rule order_trans [OF card_mono [OF _ conjunct1 [OF body_heap [OF e l]]]])
        (simp_all add: fin card_insert_if)
    moreover have "stopped i ?w \<longleftrightarrow> stopped i w" for i
      using same body_heap [OF e l] by (cases "i = t") auto
    ultimately show ?thesis using st True by (simp add: amount_def)
  next
    case False
    then have q: "left n work bonus ?w \<le> left n work bonus w" "advances E late t w ?w" using st by simp_all
    have d: "dom (heap ?w) \<subseteq> dom (heap w)" using q(2) by (simp add: advances_def)
    have s: "{t. t < n \<and> \<not> stopped t ?w} \<subseteq> {t. t < n \<and> \<not> stopped t w}"
      using q(2) same unfolding advances_def by (metis (no_types, lifting) Collect_mono)
    note cards = card_mono [OF fin d] card_mono [OF _ s]
    consider "dom (heap ?w) \<subset> dom (heap w)" | "stopped t ?w" "\<not> stopped t w"
      | "dom (heap ?w) = dom (heap w)"
        "helps E w t \<longrightarrow> helps E ?w t \<and> dist E late ?w t < dist E late w t"
      using q(2) unfolding advances_def by blast
    then show ?thesis
    proof cases
      case 1
      then show ?thesis using psubset_card_mono [OF fin 1] cards(2) q(1) by (simp add: amount_def)
    next
      case 2
      then have "{t. t < n \<and> \<not> stopped t ?w} \<subset> {t. t < n \<and> \<not> stopped t w}" using s t by blast
      from psubset_card_mono [OF _ this] show ?thesis using cards(1) q(1) by (simp add: amount_def)
    next
      case 3
      then show ?thesis using cards q(1) by (simp add: amount_def)
    qed
  qed
  then show "amount n work bonus ?w \<le> amount n work bonus w"
    "\<not> amount n work bonus ?w < amount n work bonus w \<Longrightarrow> dom (heap ?w) = dom (heap w) \<and>
      (helps E w t \<longrightarrow> helps E ?w t \<and> dist E late ?w t < dist E late w t)" by blast+
qed

section \<open>Other threads do not get in the way\<close>

text \<open>The queue gets empty only when a thread takes its last coroutine to run it.\<close>

lemma effect_queue:
  assumes "env_laws E" and e: "effect E t w w'" and "queued E w" "\<not> queued E w'"
  shows "helps E w' t \<and> dist E late w' t = 0"
  using e
proof cases
  case (suspended h)
  then show ?thesis
    using assms by (cases rule: ready_cases [OF assms(1), of t h Spawn_Check
      "upd t (\<lambda>th. th\<lparr>last_result := None\<rparr>) w"]) (auto simp: queued_def)
next
  case (push h k)
  then show ?thesis
    using assms by (cases rule: ready_cases [OF assms(1), of t h k w]) (auto simp: queued_def)
next
  case (event tok es evs h fd sl ev)
  then show ?thesis
    using assms by (cases rule: ready_cases [OF assms(1), of t h "Dispatch evs" "with_io t sl ev w"])
      (auto simp: queued_def)
next
  case (ended h co)
  then show ?thesis using assms(3,4) by (simp add: queued_def frame)
qed (use assms(3,4) in \<open>auto simp: help_simps\<close>)

lemma effect_queue_other:
  assumes laws: "env_laws E" and e: "effect E i w w'" and i: "i \<noteq> t" and n: "i < n"
    and dom: "dom (heap w') = dom (heap w)" and ok: "thread_ok E (threads w t)" "on_way t w"
    and h: "helps E w t"
  shows "(helps E w' t \<and> dist E late w' t \<le> dist E late w t) \<or>
    (\<exists>t'<n. helps E w' t' \<and> dist E late w' t' < dist E late w t)"
proof -
  have th: "threads w' t = threads w t" by (rule effect_other [OF e]) (use i in simp)
  have empty: "heap w' = Map.empty \<longleftrightarrow> heap w = Map.empty" using dom by (metis dom_eq_empty_conv)
  show ?thesis
  proof (cases "queued E w \<and> \<not> queued E w'")
    case True
    then have new: "helps E w' i \<and> dist E late w' i = 0" by (intro effect_queue [OF laws e]) simp_all
    show ?thesis
    proof (cases "dist E late w t = 0")
      case True
      then have "\<exists>c. carries E (threads w t) c" "dist E late w' t = 0"
        using ok h th by (auto simp: dist_def Let_def thread_ok_def on_way_def helps_def stopped_def
            carries_def dying_th_def split: loc.splits if_splits)
      then show ?thesis using h th by (simp add: helps_def stopped_def)
    qed (use new n in auto)
  next
    case False
    then have "helps E w' t"
      using h unfolding helps_def stopped_def th empty by blast
    moreover have "dist E late w' t \<le> dist E late w t"
      using False by (cases "queued E w"; cases "queued E w'")
        (auto simp: dist_def th Let_def split: loc.split)
    ultimately show ?thesis by blast
  qed
qed

section \<open>The run returns\<close>

definition underway :: "('ev \<Rightarrow> nat) \<Rightarrow> ('q, 'sl, 'ev, 'pl, 'stk, 'p, 'u) env \<Rightarrow> nat \<Rightarrow> fd set \<Rightarrow> ('p \<Rightarrow> bool) \<Rightarrow>
    ('p \<Rightarrow> nat) \<Rightarrow> ('p \<Rightarrow> nat) \<Rightarrow> ('u \<Rightarrow> nat) \<Rightarrow> ('q, 'sl, 'ev, 'pl, 'stk, 'p, 'u) world \<Rightarrow> bool" where
  "underway late E n F P work kids bonus w \<longleftrightarrow>
     env_laws E \<and> capacity_laws E \<and> responsive E F \<and> events_come E F late \<and>
     ends E F P work kids bonus \<and>
     reachable E n w \<and> orderly E (run_threads n) F P kids (unat GLOBAL_QUEUE_SIZE) w"

definition all_returned :: "nat \<Rightarrow> ('q, 'sl, 'ev, 'pl, 'stk, 'p, 'u) world \<Rightarrow> bool" where
  "all_returned n w \<longleftrightarrow> heap w = Map.empty \<and> (\<forall>t<run_threads n. loc (threads w t) = Stopped (Inr ()))"

lemma underwayD:
  assumes u: "underway late E n F P work kids bonus w" and t: "t < run_threads n"
  shows "env_laws E" "capacity_laws E" "responsive E F" "ends E F P work kids bonus"
    "inv E (run_threads n) {#} w" "inv E (run_threads n) {#} (step E t w)"
    "orderly E (run_threads n) F P kids (unat GLOBAL_QUEUE_SIZE) w"
    "card (dom (heap w)) \<le> bq_cap E (global_queue w)" "card (dom (heap w)) < 2 ^ 64"
    "\<exists>p. loc (threads w t) = Body p \<Longrightarrow> new_spawned (threads w t) = None"
    "reachable E n (step E t w)" "events_come E F late"
proof -
  show laws: "env_laws E" "capacity_laws E" "responsive E F" "ends E F P work kids bonus"
    and o: "orderly E (run_threads n) F P kids (unat GLOBAL_QUEUE_SIZE) w"
    and "events_come E F late"
    using u by (simp_all add: underway_def)
  have r: "reachable E n w" using u by (simp add: underway_def)
  show r': "reachable E n (step E t w)" by (rule reach.reach_step [OF r sys_step.intros [OF t]])
  show "inv E (run_threads n) {#} w" "inv E (run_threads n) {#} (step E t w)"
    using reachable_inv [OF laws(1)] r r' by simp_all
  have c: "card (dom (heap w)) \<le> unat GLOBAL_QUEUE_SIZE" using orderlyD(5) [OF o] by simp
  then show "card (dom (heap w)) \<le> bq_cap E (global_queue w)" "card (dom (heap w)) < 2 ^ 64"
    using queue_capacity [OF laws(1,2) r] laws(2)
    by (simp_all add: capacity_laws_def GLOBAL_QUEUE_SIZE_def)
  show "new_spawned (threads w t) = None" if "\<exists>p. loc (threads w t) = Body p"
    using that body_new_spawned [OF laws(1) r t] by blast
qed

lemma underway_step:
  assumes u: "underway late E n F P work kids bonus w" and t: "t < run_threads n"
  shows "underway late E n F P work kids bonus (step E t w)"
  using underwayD [OF u t] orderly_step [of E F P work kids bonus late "run_threads n" w t]
  by (simp add: underway_def t)

lemma underway_exec:
  "underway late E n F P work kids bonus w \<Longrightarrow> fair (run_threads n) sch \<Longrightarrow>
   underway late E n F P work kids bonus (exec (step E) sch k w)"
  by (induction k) (simp_all add: underway_step fair_in)

interpretation run: progress "step E" "run_threads n" "underway late E n F P work kids bonus"
    "all_returned n" "amount (run_threads n) work bonus" "helps E" "dist E late"
  for late E n F P work kids bonus
proof
  fix w i assume u: "underway late E n F P work kids bonus w" and i: "i < run_threads n"
  note d = underwayD [OF u i]
  show "underway late E n F P work kids bonus (step E i w)" by (rule underway_step [OF u i])
  show "amount (run_threads n) work bonus (step E i w) \<le> amount (run_threads n) work bonus w"
    by (rule amount_step(1) [OF d(1-4,12,5,6) i d(7-10)])
next
  fix w assume u: "underway late E n F P work kids bonus w" and g: "\<not> all_returned n w"
  note d = underwayD [OF u run_threads_pos]
  have way: "on_way t w" if "t < run_threads n" for t by (rule orderlyD(4) [OF d(7) that])
  show "\<exists>t<run_threads n. helps E w t"
  proof (cases "heap w = Map.empty")
    case True
    then obtain t where "t < run_threads n" "loc (threads w t) \<noteq> Stopped (Inr ())"
      using g by (auto simp: all_returned_def)
    then show ?thesis using True way [of t] by (auto simp: helps_def stopped_def on_way_def)
  next
    case False
    then have s: "\<not> stopped t w" if "t < run_threads n" for t
      using way [OF that] by (auto simp: stopped_def on_way_def)
    obtain c where "heap w c \<noteq> None" using False by fastforce
    then consider "queued E w" | t where "t < run_threads n" "carries E (threads w t) c"
      using orderlyD(2) [OF d(7)] unfolding unlost_def queued_def by fastforce
    then show ?thesis
      using s run_threads_pos [of n] unfolding helps_def by cases blast+
  qed
next
  fix w t assume u: "underway late E n F P work kids bonus w" and t: "t < run_threads n" and h: "helps E w t"
    and a: "\<not> amount (run_threads n) work bonus (step E t w) < amount (run_threads n) work bonus w"
  note d = underwayD [OF u t]
  show "\<exists>t'<run_threads n. helps E (step E t w) t' \<and> dist E late (step E t w) t' < dist E late w t"
    using amount_step(2) [OF d(1-4,12,5,6) t d(7-10) a] h t by blast
next
  fix w t i assume u: "underway late E n F P work kids bonus w" and t: "t < run_threads n"
    and i: "i < run_threads n" "i \<noteq> t" and h: "helps E w t"
    and a: "\<not> amount (run_threads n) work bonus (step E i w) < amount (run_threads n) work bonus w"
  note d = underwayD [OF u i(1)]
  have ok: "thread_ok E (threads w t)" using d(5) t by (simp add: inv_def)
  have "dom (heap (step E i w)) = dom (heap w)" using amount_step(2) [OF d(1-4,12,5,6) i(1) d(7-10) a] by blast
  then show "helps E (step E i w) t \<and> dist E late (step E i w) t \<le> dist E late w t \<or>
      (\<exists>t'<run_threads n. helps E (step E i w) t' \<and> dist E late (step E i w) t' < dist E late w t)"
    using effect_queue_other [OF d(1) step_effect [OF d(1,5) i(1)] i(2,1) _ ok orderlyD(4) [OF d(7) t] h]
    by blast
qed

text \<open>What \<open>main\<close> does before: one spawn.\<close>

lemma orderly_start:
  assumes laws: "env_laws E" and w0: "world_init E u = Some w0" and P: "P f"
  shows "orderly E (run_threads n) F P kids (Suc (kids f)) (spawn_all E [(f, os)] w0)"
proof -
  let ?w = "alloc_spawned E 0 f os w0"
  have inv: "inv E 1 {#} w0" by (rule inv_world_init [OF laws w0])
  have w: "spawn_all E [(f, os)] w0 = ?w"
    using inv_started_spawn(3) [OF _ inv world_init_loc [OF w0]] by simp
  obtain sp where th: "threads ?w 0 =
      (threads w0 0)\<lparr>stack_pool := sp, new_spawned := Some (next_ptr w0)\<rparr>"
    using alloc_spawned_thread [of E 0 f os w0] by blast
  obtain ch where ch: "heap ?w = (heap w0)(next_ptr w0 \<mapsto> ch)" "ctx ch = Some (Body f)"
    using alloc_spawned_heap [of E 0 f os w0] by blast
  have h0: "heap w0 = Map.empty" and c0: "cur_running (threads w0 t) = None"
    and l0: "loc (threads w0 t) = Loop_Top" and s0: "slab_view E (slabs (threads w0 t)) = Map.empty" for t
    using w0 slab_new_view [OF laws]
    by (auto simp: world_init_def processor_new_def processor.extend_def io_handler_new_def
        split: option.splits sum.splits)
  have l: "cur_running (threads ?w t) = None" "loc (threads ?w t) = Loop_Top"
    "slab_view E (slabs (threads ?w t)) = Map.empty" for t
    using c0 l0 s0 th by (cases "t = 0"; simp)+
  have "find (\<lambda>t. cur_running (threads ?w t) = Some c) [0..<run_threads n] = None" for c
    by (simp add: find_None_iff l)
  then have pl: "place (run_threads n) ?w (next_ptr w0) = Some f"
    using ch by (simp add: place_def body_of_def)
  show ?thesis
    unfolding w using P pl th
    by (auto simp: orderly_def good_code_def load_def answered_def unlost_def on_way_def
        ch h0 l carries_def intro!: exI [of _ 0])
qed

lemma orderly_mono: "orderly E n F P kids m w \<Longrightarrow> m \<le> m' \<Longrightarrow> orderly E n F P kids m' w"
  by (simp add: orderly_def)

lemma run_ends:
  assumes laws: "env_laws E" "capacity_laws E" "responsive E F" "ends E F P work kids bonus"
    and come: "events_come E F late"
    and w0: "world_init E u = Some w0" and f: "P f" "kids f < unat GLOBAL_QUEUE_SIZE"
    and fair: "fair (run_threads n) sch"
  shows "\<exists>k. all_returned n (exec (step E) sch k (spawn_all E [(f, os)] w0))"
proof (rule run.reaches_goal [OF fair])
  have "started E (spawn_all E [(f, os)] w0)" using w0 unfolding started_def by blast
  then show "underway late E n F P work kids bonus (spawn_all E [(f, os)] w0)"
    using laws come orderly_mono [OF orderly_start [where P = P, OF laws(1) w0 f(1)]] f(2)
    by (simp add: underway_def reach_init del: spawn_all.simps)
qed


text \<open>Demo code that only waits for good descriptors and does not block.\<close>

fun demo_safe :: "demo_call list \<Rightarrow> bool" where
  "demo_safe [] = True"
| "demo_safe (D_Spawn f # p) = (demo_safe f \<and> demo_safe p)"
| "demo_safe (D_Sched # p) = demo_safe p"
| "demo_safe (D_Block # p) = False"
| "demo_safe (D_Panic e # p) = True"
| "demo_safe (D_Wait fd # p) = (0 \<le> fd \<and> demo_safe p)"

fun demo_work :: "demo_call list \<Rightarrow> nat" where
  "demo_work [] = 1"
| "demo_work (D_Spawn f # p) = Suc (demo_work f + demo_work p)"
| "demo_work (_ # p) = Suc (demo_work p)"

fun demo_kids :: "demo_call list \<Rightarrow> nat" where
  "demo_kids [] = 0"
| "demo_kids (D_Spawn f # p) = Suc (demo_kids f + demo_kids p)"
| "demo_kids (_ # p) = demo_kids p"

lemma demo_ends: "ends demo {0..} demo_safe demo_work demo_kids (\<lambda>_. 0)"
proof -
  have "0 < demo_work p" for p by (induction p rule: demo_work.induct) simp_all
  moreover have "call_ok {0..} demo_safe demo_work demo_kids (\<lambda>_. 0) p u (demo_run p u)"
    if "demo_safe p" for p u
    using that calculation
    by (cases "(p, u)" rule: demo_run.cases) (auto simp: call_ok_def split: sum.splits)
  ultimately show ?thesis by (simp add: ends_def demo_defs)
qed

lemma demo_with_responsive: "responsive (demo_with r) {0..}"
  by (auto simp: responsive_def demo_with_def split: list.splits)

lemma demo_responsive: "responsive demo {0..}"
  unfolding demo_def by (rule demo_with_responsive)

lemma demo_events: "events_come demo {0..} (\<lambda>_. 0)"
  by (auto simp: events_come_def demo_defs)

text \<open>
  A slower event loop: the poll after a registration gives up waiting. It remembers by a
  second copy of the token that it has not been polled since.
\<close>

definition slow_demo :: demo_env where
  "slow_demo = demo\<lparr>
     el_register := (\<lambda>fd tok i ev.
       if fd < 0 then (Inl (Io_Error InvalidInput ''bad descriptor''), ev) else (Inr (), tok # tok # ev)),
     el_poll := (\<lambda>ev. if distinct ev then (Inr (map (\<lambda>tok. (tok, {Readable})) ev), [])
       else (Inr [], remdups ev))\<rparr>"

lemma slow_demo_laws: "env_laws slow_demo" "capacity_laws slow_demo" "responsive slow_demo {0..}"
  "events_come slow_demo {0..} length" "ends slow_demo {0..} demo_safe demo_work demo_kids (\<lambda>_. 0)"
proof -
  have "queue_laws slow_demo" "slab_laws slow_demo"
    using demo_laws by (simp_all add: env_laws_def queue_laws_def slab_laws_def slow_demo_def)
  moreover have "loop_laws slow_demo"
    by (auto simp: loop_laws_def slow_demo_def demo_defs comp_def image_image split: if_splits)
  ultimately show "env_laws slow_demo" by (simp add: env_laws_def)
  show "capacity_laws slow_demo"
    using demo_capacity_laws by (simp add: capacity_laws_def slow_demo_def scheduler_queue_def)
  show "responsive slow_demo {0..}"
    using demo_responsive by (simp add: responsive_def slow_demo_def demo_defs)
  show "ends slow_demo {0..} demo_safe demo_work demo_kids (\<lambda>_. 0)"
    using demo_ends by (simp add: ends_def slow_demo_def)
  show "events_come slow_demo {0..} length"
    using length_remdups_leq by (auto simp: events_come_def slow_demo_def demo_defs le_less
        length_remdups_eq split: if_splits)
qed

lemma slow_demo_init: "world_init slow_demo 0 = Some demo_init"
  by (simp add: demo_init_def world_init_def processor_new_def scheduler_queue_def io_handler_new_def
      slow_demo_def demo_defs)


end
