(* ===== verification/Starvation.thy ===== *)
theory Starvation
  imports Run_Terminates
begin

text \<open>
  Who gets to run. The queue of ready coroutines is fair: while user code keeps giving control
  back, every coroutine that is ready is resumed under every fair schedule of the threads.
\<close>

section \<open>Code that gives control back\<close>

text \<open>
  Between two points at which it gives control back, code makes at most \<open>m\<close> calls; a
  coroutine it spawns runs at once on the same thread, so it counts too.
\<close>

fun gives_back :: "fd set \<Rightarrow> ('p \<Rightarrow> bool) \<Rightarrow> ('p \<Rightarrow> nat) \<Rightarrow> nat \<Rightarrow> 'p call \<Rightarrow> bool" where
  "gives_back F P m b (Call_Tau p') \<longleftrightarrow> P p' \<and> m p' < b"
| "gives_back F P m b Call_Return \<longleftrightarrow> True"
| "gives_back F P m b (Call_Panic e) \<longleftrightarrow> True"
| "gives_back F P m b (Call_Spawn f os p') \<longleftrightarrow> P f \<and> P p' \<and> m f < b"
| "gives_back F P m b (Call_Sched p') \<longleftrightarrow> P p'"
| "gives_back F P m b (Call_Block p') \<longleftrightarrow> False"
| "gives_back F P m b (Call_Wait fd i k) \<longleftrightarrow> fd \<in> F \<and> (\<forall>x. P (k x))"

definition yields :: "('q, 'sl, 'ev, 'pl, 'stk, 'p, 'u) env \<Rightarrow> fd set \<Rightarrow> ('p \<Rightarrow> bool) \<Rightarrow>
    ('p \<Rightarrow> nat) \<Rightarrow> bool" where
  "yields E F P m \<longleftrightarrow> (\<forall>p u. P p \<longrightarrow> gives_back F P m (m p) (fst (run E p u)))"

lemma gives_back_on: "gives_back F P m b q \<Longrightarrow> goes_on q p' \<Longrightarrow> P p'"
  by (cases q) auto

section \<open>How far a thread is from the queue\<close>

text \<open>The code a thread is to run next, and the steps it needs at most to pop from the queue.\<close>

definition pending :: "nat \<Rightarrow> ('p \<Rightarrow> nat) \<Rightarrow> ('q, 'sl, 'ev, 'pl, 'stk, 'p, 'u) world \<Rightarrow> tid \<Rightarrow> nat" where
  "pending n m w t =
    (case Option.bind (new_spawned (threads w t)) (place n w) of None \<Rightarrow> 0 | Some p \<Rightarrow> 4 * Suc (m p))"

definition near :: "('q, 'sl, 'ev, 'pl, 'stk, 'p, 'u) env \<Rightarrow> nat \<Rightarrow> ('p \<Rightarrow> nat) \<Rightarrow>
    ('q, 'sl, 'ev, 'pl, 'stk, 'p, 'u) world \<Rightarrow> tid \<Rightarrow> nat" where
  "near E n m w t = (let a = card (el_armed E (event_loop (threads w t))); s = pending n m w t in
     case loc (threads w t) of
       Body p \<Rightarrow> 4 * Suc (m p)
     | After_Resume h \<Rightarrow> 3 + s
     | Spawn_Check \<Rightarrow> 2 + s
     | Loop_Top \<Rightarrow> (if new_spawned (threads w t) = None then 1 else 5 + a + s)
     | Idle \<Rightarrow> 4 + a + s
     | Dispatch evs \<Rightarrow> 3 + length evs + s
     | _ \<Rightarrow> 0)"

lemma pending_same:
  assumes inv: "inv E n {#} w" "inv E n {#} w'" and t: "t < n" and e: "effect E t w w'"
    and ns: "new_spawned (threads w' t) = new_spawned (threads w t)"
    and same: "\<And>x. heap w' x \<noteq> None \<Longrightarrow> point t w' x = point t w x"
  shows "pending n m w' t = pending n m w t"
proof (cases "new_spawned (threads w t)")
  case (Some d)
  have "d \<in># thread_refs E (threads w t)" "d \<in># thread_refs E (threads w' t)"
    using Some ns by (simp_all add: thread_refs_def)
  then have "d \<notin># others E n t w" "d \<in># refs E n w'"
    using inv_one_holder(1) [OF inv(1) t] by (auto simp: refs_split [OF t])
  moreover have "heap w' d \<noteq> None" using calculation(2) inv(2) by (auto simp: inv_def)
  ultimately have "place n w' d = place n w d"
    using place_step [OF inv t e, of d] place_point [OF t, of d E w] same by auto
  then show ?thesis using Some ns by (simp add: pending_def)
qed (use ns in \<open>simp add: pending_def\<close>)

text \<open>Another thread's step leaves it as far as it was.\<close>

lemma near_other:
  assumes inv: "inv E n {#} w" "inv E n {#} w'" and i: "i < n" "i \<noteq> t" and t: "t < n"
    and e: "effect E i w w'"
  shows "near E n m w' t = near E n m w t"
proof -
  have th: "threads w' t = threads w t" by (rule effect_other [OF e]) (use i in simp)
  have "place n w' d = place n w d" if "new_spawned (threads w t) = Some d" for d
  proof -
    have "d \<in># thread_refs E (threads w t)" using that by (simp add: thread_refs_def)
    then have "d \<in># others E n i w" using t i by (auto simp: others_def sum_mset_member)
    then show ?thesis using place_step [OF inv i(1) e, of d] by simp
  qed
  then have "pending n m w' t = pending n m w t"
    by (cases "new_spawned (threads w t)") (simp_all add: pending_def th)
  then show ?thesis by (simp only: near_def th)
qed

lemma near_less:
  assumes "pending n m w' t = pending n m w t" and "new_spawned (threads w' t) = new_spawned (threads w t)"
    and "el_armed E (event_loop (threads w' t)) = el_armed E (event_loop (threads w t))"
    and "case loc (threads w t) of
        After_Resume h \<Rightarrow> loc (threads w' t) = Spawn_Check
      | Spawn_Check \<Rightarrow> loc (threads w' t) = Loop_Top \<and> new_spawned (threads w t) = None
      | Loop_Top \<Rightarrow> loc (threads w' t) = Idle \<and> new_spawned (threads w t) \<noteq> None
      | Idle \<Rightarrow> loc (threads w' t) = Spawn_Check
      | Dispatch evs \<Rightarrow> if evs = [] then loc (threads w' t) = Spawn_Check
          else loc (threads w' t) = Dispatch (tl evs)
      | _ \<Rightarrow> False"
  shows "near E n m w' t < near E n m w t"
  using assms by (cases "loc (threads w t)") (auto simp: near_def Let_def split: if_splits)

text \<open>
  A step of the scheduler pops, enters the new coroutine, or brings the thread nearer, when
  there is something to pop or to enter.
\<close>

definition popped :: "('q, 'sl, 'ev, 'pl, 'stk, 'p, 'u) env \<Rightarrow> tid \<Rightarrow>
    ('q, 'sl, 'ev, 'pl, 'stk, 'p, 'u) world \<Rightarrow> ('q, 'sl, 'ev, 'pl, 'stk, 'p, 'u) world \<Rightarrow> bool" where
  "popped E t w w' \<longleftrightarrow> (\<exists>x p. bq_view E (global_queue w) = x # bq_view E (global_queue w') \<and>
     cur_running (threads w' t) = Some x \<and> loc (threads w' t) = Body p \<and>
     new_spawned (threads w' t) = new_spawned (threads w t))"

lemma not_running:
  assumes "inv E n X w" and "t < n" and l: "\<not> (\<exists>p. loc (threads w t) = Body p)"
  shows "cur_running (threads w t) = None"
proof -
  have "thread_ok E (threads w t)" using assms by (simp add: inv_def)
  then show ?thesis using l by (cases "loc (threads w t)") (simp_all add: thread_ok_def)
qed

text \<open>The steps that may fail, and those that only go on, apart.\<close>

lemma task_end_nearer:
  assumes laws: "env_laws E"
    and inv: "inv E n {#} w" "inv E n {#} (step E t w)" and t: "t < n"
    and ok: "on_way t (step E t w)" and l: "loc (threads w t) = After_Resume h"
  shows "near E n m (step E t w) t < near E n m w t \<and>
    new_spawned (threads (step E t w) t) = new_spawned (threads w t)"
proof -
  have e: "effect E t w (step E t w)" by (rule step_effect [OF laws inv(1) t])
  have cur: "cur_running (threads w t) = None" by (rule not_running [OF inv(1) t]) (simp add: l)
  obtain sp where th: "threads (step E t w) t =
      (threads w t)\<lparr>last_result := None, stack_pool := sp, loc := Spawn_Check\<rparr>"
    and h: "\<And>x. heap (step E t w) x \<noteq> None \<Longrightarrow> heap (step E t w) x = heap w x"
    using e
  proof cases
    case (suspended h)
    then show ?thesis
      using ok that [of "stack_pool (threads w t)"] by (cases rule: ready_cases [OF laws, of t h Spawn_Check
        "upd t (\<lambda>th. th\<lparr>last_result := None\<rparr>) w"]) (simp_all add: on_way_def threads_goto)
  next
    case (blocked h)
    then show ?thesis using that [of "stack_pool (threads w t)"] by (simp add: threads_goto)
  next
    case (ended h co)
    then have h: "heap (step E t w) = (heap w)(h := None)" by (simp add: finished_heap frame)
    obtain sp where "threads (step E t w) t =
        (threads w t)\<lparr>last_result := None, stack_pool := sp, loc := Spawn_Check\<rparr>"
      using finished_thread [of "upd t (\<lambda>th. th\<lparr>last_result := None\<rparr>) w" h co E t Spawn_Check] ended
      by auto
    then show ?thesis by (rule that) (simp add: h split: if_splits)
  qed (use l in auto)
  have "pending n m (step E t w) t = pending n m w t"
    by (rule pending_same [OF inv t e]) (use h cur in \<open>auto simp: th point_def\<close>)
  then show ?thesis using near_less [of n m "step E t w" t w E] l by (simp add: th)
qed

lemma io_nearer:
  assumes laws: "env_laws E" "capacity_laws E" "responsive E F"
    and inv: "inv E n {#} w" "inv E n {#} (step E t w)" and t: "t < n"
    and ans: "answered E F (threads w t)" "on_way t (step E t w)"
    and room: "card (dom (heap w)) \<le> bq_cap E (global_queue w)" "card (dom (heap w)) < 2 ^ 64"
    and live: "heap w \<noteq> Map.empty" and l: "loc (threads w t) = Idle \<or> loc (threads w t) = Dispatch es"
  shows "near E n m (step E t w) t < near E n m w t \<and>
    new_spawned (threads (step E t w) t) = new_spawned (threads w t)"
proof -
  have e: "effect E t w (step E t w)" by (rule step_effect [OF laws(1) inv(1) t])
  have cur: "cur_running (threads w t) = None" by (rule not_running [OF inv(1) t]) (use l in auto)
  note pend = pending_same [OF inv t e] and less = near_less [of n m "step E t w" t w E]
  note go = point_def threads_goto
  from e show ?thesis
  proof cases
    case (poll evs' ev')
    obtain evs ev where p: "step E t w = goto t (Dispatch evs) (with_io t (slabs (threads w t)) ev w)"
      "el_poll E (event_loop (threads w t)) = (Inr evs, ev)"
      "distinct (map fst evs)" "set (map fst evs) \<subseteq> el_armed E (event_loop (threads w t))"
      "el_armed E ev = el_armed E (event_loop (threads w t)) - set (map fst evs)"
      using idle_polls [OF laws(1,3) ans(1) poll(2,3)] by blast
    have "el_armed E (event_loop (threads w t)) \<subseteq> dom (slab_view E (slabs (threads w t)))"
      using inv(1) t poll(2) by (fastforce simp: inv_def thread_ok_def live_tokens_def)
    then have "length evs \<le> card (el_armed E (event_loop (threads w t)))"
      using card_mono [OF finite_subset [OF _ slab_finite [OF laws(1)]] p(4)] distinct_card [OF p(3)]
      by simp
    then show ?thesis using p(1) pend cur poll(2) by (simp add: near_def go)
  next
    case (event tok es evs h' fd' sl' ev')
    obtain h fd sl ev q where "el_armed E ev = el_armed E (event_loop (threads w t))"
      "step E t w = goto t (Dispatch evs) ((with_io t sl ev w)\<lparr>global_queue := q\<rparr>)"
      using event_delivered [OF laws inv(1) t ans(1) room(1) event(2)] by metis
    then show ?thesis using less pend cur event(2) by (simp add: go)
  next
    case halted
    then show ?thesis using l by auto
  qed (use less pend cur l live ans(2) idle_nothing_left [OF inv(1) room(2)] in
    \<open>simp_all add: go on_way_def\<close>)
qed

lemma scheduler_nearer:
  assumes laws: "env_laws E" "capacity_laws E" "responsive E F"
    and inv: "inv E n {#} w" "inv E n {#} (step E t w)" and t: "t < n"
    and ans: "answered E F (threads w t)" "on_way t w" "on_way t (step E t w)"
    and room: "card (dom (heap w)) \<le> bq_cap E (global_queue w)" "card (dom (heap w)) < 2 ^ 64"
    and l: "\<not> (\<exists>p. loc (threads w t) = Body p)" and live: "heap w \<noteq> Map.empty"
    and some: "queued E w \<or> new_spawned (threads w t) \<noteq> None"
  shows "popped E t w (step E t w) \<or> near E n m (step E t w) t < near E n m w t \<and>
    (new_spawned (threads (step E t w) t) = new_spawned (threads w t) \<or>
     new_spawned (threads w t) = cur_running (threads (step E t w) t))"
proof -
  have e: "effect E t w (step E t w)" by (rule step_effect [OF laws(1) inv(1) t])
  have cur: "cur_running (threads w t) = None" by (rule not_running [OF inv(1) t l])
  note pend = pending_same [OF inv t e] and less = near_less [of n m "step E t w" t w E]
  show ?thesis
  proof (cases "loc (threads w t)")
    case (After_Resume h)
    then show ?thesis using task_end_nearer [OF laws(1) inv t ans(3)] by simp
  next
    case (Dispatch es)
    then show ?thesis using io_nearer [OF laws inv t ans(1,3) room live] by simp
  next
    case Idle
    then show ?thesis using io_nearer [OF laws inv t ans(1,3) room live] by simp
  next
    case Loop_Top
    from e show ?thesis
    proof cases
      case (pop h q co p)
      then show ?thesis by (simp add: popped_def)
    next
      case (pop_none q)
      then have "\<not> queued E w"
        using pop_none_empty [OF laws(3) pop_none(2) cur pop_none(1)] by (simp add: queued_def)
      then show ?thesis using less pend pop_none some cur by (simp add: point_def threads_goto)
    qed (use Loop_Top in auto)
  next
    case Spawn_Check
    from e show ?thesis
    proof cases
      case (spawned h co p)
      have "h \<in># thread_refs E (threads w t)" using spawned(3) by (simp add: thread_refs_def)
      then have "place n w h = Some p"
        using inv_one_holder(1) [OF inv(1) t] place_point [OF t, of h E w] cur spawned(4,5)
        by (simp add: point_def body_of_def)
      then have "pending n m w t = 4 * Suc (m p)" using spawned(3) by (simp add: pending_def)
      then show ?thesis using spawned by (simp add: near_def)
    next
      case no_spawned
      then show ?thesis using less pend cur by (simp add: point_def threads_goto)
    qed (use Spawn_Check in auto)
  qed (use ans(2) live l inv(1) t in \<open>auto simp: on_way_def inv_def thread_ok_def\<close>)
qed

section \<open>Code that yields comes back\<close>

lemma load_zero [simp]: "load n (\<lambda>_. 0) w = 0"
  unfolding load_def by (rule sum.neutral) (simp split: option.split)

lemma body_nearer:
  assumes laws: "env_laws E" and resp: "responsive E F" and y: "yields E F P m"
    and inv: "inv E n {#} w" "inv E n {#} (step E t w)" and t: "t < n"
    and o: "orderly E n F P (\<lambda>_. 0) b w" and room: "card (dom (heap (step E t w))) \<le> b"
    and ns: "new_spawned (threads w t) = None" and l: "loc (threads w t) = Body p"
  shows "orderly E n F P (\<lambda>_. 0) b (step E t w) \<and> near E n m (step E t w) t < near E n m w t \<and>
    global_queue (step E t w) = global_queue w"
proof -
  have e: "effect E t w (step E t w)" by (rule step_effect [OF laws inv(1) t])
  obtain c co where c: "cur_running (threads w t) = Some c" and co: "heap w c = Some co"
    using body_runs [OF inv(1) t l] by blast
  have h: "heap w c \<noteq> None" using co by simp
  have "P p" using orderlyD(1) [OF o] running_place(1) [OF inv t e l c] h by (auto simp: good_code_def)
  then obtain q u where r: "run E p (user w) = (q, u)" and ok: "gives_back F P m (m p) q"
    using y unfolding yields_def by (metis prod.collapse)
  have out: "case q of
      Call_Spawn f os p' \<Rightarrow> step E t w = yielded (Inr Suspended) t c (Body p') (After_Resume c)
        (alloc_spawned E t f os (w\<lparr>user := u\<rparr>))
    | _ \<Rightarrow> called E F t c w (step E t w) \<and> user (step E t w) = u \<and>
        (case point t (step E t w) c of None \<Rightarrow> True | Some p' \<Rightarrow> goes_on q p') \<and>
        loc (threads (step E t w) t) = (case q of Call_Tau p' \<Rightarrow> Body p' | _ \<Rightarrow> After_Resume c)"
    by (rule body_outcome [OF laws resp inv(1) t orderlyD(3) [OF o t] l c co r]) (use ok in auto)
  have near: "near E n m w t = 4 * Suc (m p)" using l by (simp add: near_def)
  show ?thesis
  proof (cases "\<exists>f os p'. q = Call_Spawn f os p'")
    case True
    then obtain f os p' where q: "q = Call_Spawn f os p'" by blast
    have w': "step E t w = yielded (Inr Suspended) t c (Body p') (After_Resume c)
        (alloc_spawned E t f os (w\<lparr>user := u\<rparr>))" using out q by simp
    note sp = spawn_points [OF inv t e l c co w']
    have "orderly E n F P (\<lambda>_. 0) b (step E t w)"
      by (rule orderly_spawned [OF o inv t e l c co ns _ _ _ w']) (use ok q room in simp_all)
    moreover have "near E n m (step E t w) t = 3 + 4 * Suc (m f)"
      using sp(6) by (auto simp: near_def pending_def sp(4))
    ultimately show ?thesis using ok q sp(7) by (simp add: near)
  next
    case False
    then have cl: "called E F t c w (step E t w)"
      and next_p: "case point t (step E t w) c of None \<Rightarrow> True | Some p' \<Rightarrow> goes_on q p'"
      and at: "loc (threads (step E t w) t) = (case q of Call_Tau p' \<Rightarrow> Body p' | _ \<Rightarrow> After_Resume c)"
      using out by (cases q; simp)+
    have "orderly E n F P (\<lambda>_. 0) b (step E t w)"
      by (rule orderly_called [OF o inv t e l c h cl])
        (use next_p gives_back_on [OF ok] room in auto)
    moreover have "pending n m (step E t w) t = 0" using cl ns by (simp add: called_def pending_def)
    then have "near E n m (step E t w) t < near E n m w t"
      using at ok unfolding near by (cases q) (simp_all add: near_def)
    ultimately show ?thesis using cl by (simp add: called_def)
  qed
qed

text \<open>The queue is first in, first out: a step appends to it or pops its head.\<close>

lemma effect_line:
  assumes "env_laws E" and e: "effect E t w w'"
  shows "(\<exists>xs. bq_view E (global_queue w') = bq_view E (global_queue w) @ xs) \<or> popped E t w w'"
  using e
proof cases
  case (suspended h)
  then show ?thesis
    by (cases rule: ready_cases [OF assms(1), of t h Spawn_Check
      "upd t (\<lambda>th. th\<lparr>last_result := None\<rparr>) w"]) simp_all
next
  case (push h k)
  then show ?thesis by (cases rule: ready_cases [OF assms(1), of t h k w]) simp_all
next
  case (event tok es evs h fd sl ev)
  then show ?thesis
    by (cases rule: ready_cases [OF assms(1), of t h "Dispatch evs" "with_io t sl ev w"]) simp_all
next
  case (ended h co)
  then show ?thesis by (simp add: frame)
next
  case (pop h q co p)
  then show ?thesis by (simp add: popped_def)
qed simp_all

text \<open>How many are before \<open>h\<close>; one that is not in the queue comes after all there can be.\<close>

definition ahead :: "('q, 'sl, 'ev, 'pl, 'stk, 'p, 'u) env \<Rightarrow> ptr \<Rightarrow>
    ('q, 'sl, 'ev, 'pl, 'stk, 'p, 'u) world \<Rightarrow> nat" where
  "ahead E h w = (let q = bq_view E (global_queue w) in
     if h \<in> set q then length (takeWhile (\<lambda>x. x \<noteq> h) q) else Suc (unat GLOBAL_QUEUE_SIZE))"

lemma ahead_append:
  "h \<in> set (bq_view E (global_queue w)) \<Longrightarrow>
   bq_view E (global_queue w') = bq_view E (global_queue w) @ xs \<Longrightarrow> ahead E h w' = ahead E h w"
  by (simp add: ahead_def takeWhile_append1)

lemma ahead_pop:
  "h \<in> set (bq_view E (global_queue w)) \<Longrightarrow> bq_view E (global_queue w) = x # bq_view E (global_queue w') \<Longrightarrow>
   x \<noteq> h \<Longrightarrow> ahead E h w' < ahead E h w"
  by (auto simp: ahead_def)

section \<open>A turn comes\<close>

text \<open>
  A thread helps \<open>h\<close> to its turn when \<open>h\<close> is in the queue, is the thread's new coroutine, or
  was just suspended on it.
\<close>

definition turn_comes :: "('q, 'sl, 'ev, 'pl, 'stk, 'p, 'u) env \<Rightarrow> ptr \<Rightarrow>
    ('q, 'sl, 'ev, 'pl, 'stk, 'p, 'u) world \<Rightarrow> tid \<Rightarrow> bool" where
  "turn_comes E h w t \<longleftrightarrow> h \<in> set (bq_view E (global_queue w)) \<or>
     new_spawned (threads w t) = Some h \<or>
     (loc (threads w t) = After_Resume h \<and> last_result (threads w t) = Some (Inr Suspended))"

text \<open>The turn has come, or there are more coroutines than the queue has room for.\<close>

definition served :: "nat \<Rightarrow> ptr \<Rightarrow> ('q, 'sl, 'ev, 'pl, 'stk, 'p, 'u) world \<Rightarrow> bool" where
  "served n h w \<longleftrightarrow> (\<exists>t<run_threads n. cur_running (threads w t) = Some h) \<or>
     unat GLOBAL_QUEUE_SIZE < card (dom (heap w))"

definition going :: "('q, 'sl, 'ev, 'pl, 'stk, 'p, 'u) env \<Rightarrow> nat \<Rightarrow> fd set \<Rightarrow> ('p \<Rightarrow> bool) \<Rightarrow>
    ('p \<Rightarrow> nat) \<Rightarrow> ('q, 'sl, 'ev, 'pl, 'stk, 'p, 'u) world \<Rightarrow> bool" where
  "going E n F P m w \<longleftrightarrow>
     env_laws E \<and> capacity_laws E \<and> responsive E F \<and> yields E F P m \<and> reachable E n w \<and>
     orderly E (run_threads n) F P (\<lambda>_. 0) (unat GLOBAL_QUEUE_SIZE) w"

lemma goingD:
  assumes g: "going E n F P m w" and t: "t < run_threads n"
  shows "env_laws E" "capacity_laws E" "responsive E F" "yields E F P m"
    "inv E (run_threads n) {#} w" "inv E (run_threads n) {#} (step E t w)"
    "orderly E (run_threads n) F P (\<lambda>_. 0) (unat GLOBAL_QUEUE_SIZE) w"
    "card (dom (heap w)) \<le> bq_cap E (global_queue w)" "card (dom (heap w)) < 2 ^ 64"
    "reachable E n w" "reachable E n (step E t w)" "effect E t w (step E t w)"
proof -
  show laws: "env_laws E" "capacity_laws E" "responsive E F" "yields E F P m"
    and o: "orderly E (run_threads n) F P (\<lambda>_. 0) (unat GLOBAL_QUEUE_SIZE) w"
    and r: "reachable E n w"
    using g by (simp_all add: going_def)
  show r': "reachable E n (step E t w)" by (rule reach.reach_step [OF r sys_step.intros [OF t]])
  show inv: "inv E (run_threads n) {#} w" "inv E (run_threads n) {#} (step E t w)"
    using reachable_inv [OF laws(1)] r r' by simp_all
  show "effect E t w (step E t w)" by (rule step_effect [OF laws(1) inv(1) t])
  have c: "card (dom (heap w)) \<le> unat GLOBAL_QUEUE_SIZE" using orderlyD(5) [OF o] by simp
  then show "card (dom (heap w)) \<le> bq_cap E (global_queue w)" "card (dom (heap w)) < 2 ^ 64"
    using queue_capacity [OF laws(1,2) r] laws(2)
    by (simp_all add: capacity_laws_def GLOBAL_QUEUE_SIZE_def)
qed

lemma going_step:
  assumes g: "going E n F P m w" and t: "t < run_threads n"
    and room: "card (dom (heap (step E t w))) \<le> unat GLOBAL_QUEUE_SIZE"
  shows "going E n F P m (step E t w)"
proof -
  note d = goingD [OF g t]
  have "orderly E (run_threads n) F P (\<lambda>_. 0) (unat GLOBAL_QUEUE_SIZE) (step E t w)"
  proof (cases "\<exists>p. loc (threads w t) = Body p")
    case True
    then show ?thesis
      using body_nearer [OF d(1,3-6) t d(7) room] body_new_spawned [OF d(1,10) t] by blast
  next
    case False
    then show ?thesis using orderly_scheduler [OF d(1-3,5,6) t d(7-9)] by blast
  qed
  then show ?thesis using d by (simp add: going_def)
qed

lemma going_exec:
  assumes "going E n F P m w" and "fair (run_threads n) sch"
    and "\<And>k. card (dom (heap (exec (step E) sch k w))) \<le> unat GLOBAL_QUEUE_SIZE"
  shows "going E n F P m (exec (step E) sch k w)"
proof (induction k)
  case (Suc k)
  then show ?case using going_step [OF Suc fair_in [OF assms(2), of k]] assms(3) [of "Suc k"] by simp
qed (use assms(1) in simp)

lemma queue_length:
  assumes inv: "inv E n {#} w" and n: "0 < n"
  shows "length (bq_view E (global_queue w)) \<le> card (dom (heap w))"
proof -
  have "set (bq_view E (global_queue w)) \<subseteq> dom (heap w)"
    using inv by (auto simp: inv_def refs_def)
  from card_mono [OF heap_finite [OF inv] this] show ?thesis
    using distinct_card [OF queue_distinct [OF inv n]] by simp
qed

lemma ahead_bound:
  assumes g: "going E n F P m w"
  shows "ahead E h w \<le> Suc (unat GLOBAL_QUEUE_SIZE)"
    "h \<in> set (bq_view E (global_queue w)) \<longleftrightarrow> ahead E h w < Suc (unat GLOBAL_QUEUE_SIZE)"
proof -
  note d = goingD [OF g run_threads_pos]
  have "length (takeWhile (\<lambda>x. x \<noteq> h) (bq_view E (global_queue w))) \<le> unat GLOBAL_QUEUE_SIZE"
    using order_trans [OF length_takeWhile_le order_trans [OF queue_length [OF d(5) run_threads_pos]]]
      orderlyD(5) [OF d(7)] by simp
  then show "ahead E h w \<le> Suc (unat GLOBAL_QUEUE_SIZE)"
    "h \<in> set (bq_view E (global_queue w)) \<longleftrightarrow> ahead E h w < Suc (unat GLOBAL_QUEUE_SIZE)"
    by (simp_all add: ahead_def Let_def)
qed

lemma turn_alive:
  assumes g: "going E n F P m w" and t: "t < run_threads n" and h: "turn_comes E h w t"
  shows "heap w \<noteq> Map.empty"
proof -
  note d = goingD [OF g t]
  have "h \<in># refs E (run_threads n) w"
    using h unfolding turn_comes_def refs_split [OF t] by (auto simp: thread_refs_def)
  then show ?thesis using d(5) by (auto simp: inv_def)
qed

text \<open>While \<open>h\<close> is in the queue, no step takes it back.\<close>

lemma line_step:
  assumes g: "going E n F P m w" and t: "t < run_threads n" and s: "\<not> served n h (step E t w)"
    and h: "h \<in> set (bq_view E (global_queue w))"
  shows "(popped E t w (step E t w) \<and> ahead E h (step E t w) < ahead E h w) \<or>
    (\<not> popped E t w (step E t w) \<and> ahead E h (step E t w) = ahead E h w \<and>
      h \<in> set (bq_view E (global_queue (step E t w))))"
proof -
  note d = goingD [OF g t]
  show ?thesis
  proof (cases "popped E t w (step E t w)")
    case True
    then obtain x where "bq_view E (global_queue w) = x # bq_view E (global_queue (step E t w))"
      "x \<noteq> h" using s t unfolding popped_def served_def by blast
    then show ?thesis using True ahead_pop [OF h] by blast
  next
    case False
    then obtain xs where xs: "bq_view E (global_queue (step E t w)) = bq_view E (global_queue w) @ xs"
      using effect_line [OF d(1,12)] by blast
    then show ?thesis using False ahead_append [OF h xs] h by simp
  qed
qed

lemma turn_own:
  assumes g: "going E n F P m w" and t: "t < run_threads n"
    and s: "\<not> served n h w" "\<not> served n h (step E t w)" and h: "turn_comes E h w t"
  shows "ahead E h (step E t w) < ahead E h w \<or> (ahead E h (step E t w) \<le> ahead E h w \<and>
    turn_comes E h (step E t w) t \<and> near E (run_threads n) m (step E t w) t < near E (run_threads n) m w t)"
proof -
  note d = goingD [OF g t]
  have room: "card (dom (heap (step E t w))) \<le> unat GLOBAL_QUEUE_SIZE" using s(2) by (simp add: served_def)
  have g': "going E n F P m (step E t w)" by (rule going_step [OF g t room])
  have way: "on_way t w" "on_way t (step E t w)"
    using orderlyD(4) [OF d(7) t] orderlyD(4) [OF goingD(7) [OF g' t] t] by simp_all
  note sched = scheduler_nearer [OF d(1-3,5,6) t orderlyD(3) [OF d(7) t] way d(8,9) _ turn_alive [OF g t h],
      where m = m]
  show ?thesis
  proof (cases "h \<in> set (bq_view E (global_queue w))")
    case True
    then have "queued E w" by (auto simp: queued_def)
    then have "popped E t w (step E t w) \<or> near E (run_threads n) m (step E t w) t < near E (run_threads n) m w t"
      using sched body_nearer [OF d(1,3-6) t d(7) room] body_new_spawned [OF d(1,10) t] by blast
    then show ?thesis using line_step [OF g t s(2) True] by (auto simp: turn_comes_def)
  next
    case False
    then have last: "ahead E h w = Suc (unat GLOBAL_QUEUE_SIZE)"
      using ahead_bound [OF g, of h] by simp
    consider "new_spawned (threads w t) = Some h"
      | "loc (threads w t) = After_Resume h" "last_result (threads w t) = Some (Inr Suspended)"
      using h False unfolding turn_comes_def by blast
    then show ?thesis
    proof cases
      case 1
      then have "\<not> (\<exists>p. loc (threads w t) = Body p)" using body_new_spawned [OF d(1,10) t] by auto
      moreover have "\<not> popped E t w (step E t w)"
        using 1 body_new_spawned [OF d(1,11) t] by (auto simp: popped_def)
      ultimately have "near E (run_threads n) m (step E t w) t < near E (run_threads n) m w t"
        "new_spawned (threads (step E t w) t) = Some h"
        using sched 1 s(2) t by (auto simp: served_def)
      then show ?thesis using ahead_bound(1) [OF g', of h] last by (simp add: turn_comes_def)
    next
      case 2
      have "step E t w = ready E t h Spawn_Check (upd t (\<lambda>th. th\<lparr>last_result := None\<rparr>) w)"
        using 2 by (simp add: step_def run_task_end_def resume_result_def)
      then have "h \<in> set (bq_view E (global_queue (step E t w)))"
        using way(2) by (cases rule: ready_cases [OF d(1), of t h Spawn_Check
          "upd t (\<lambda>th. th\<lparr>last_result := None\<rparr>) w"]) (simp_all add: on_way_def threads_goto)
      then show ?thesis using ahead_bound(2) [OF g', of h] last by simp
    qed
  qed
qed

lemma turn_other:
  assumes g: "going E n F P m w" and t: "t < run_threads n" and i: "i < run_threads n" "i \<noteq> t"
    and s: "\<not> served n h (step E i w)" and h: "turn_comes E h w t"
  shows "ahead E h (step E i w) < ahead E h w \<or> (ahead E h (step E i w) \<le> ahead E h w \<and>
    turn_comes E h (step E i w) t \<and> near E (run_threads n) m (step E i w) t = near E (run_threads n) m w t)"
proof -
  note d = goingD [OF g i(1)]
  have "card (dom (heap (step E i w))) \<le> unat GLOBAL_QUEUE_SIZE" using s by (simp add: served_def)
  then have g': "going E n F P m (step E i w)" by (rule going_step [OF g i(1)])
  have near: "near E (run_threads n) m (step E i w) t = near E (run_threads n) m w t"
    by (rule near_other [OF d(5,6) i t d(12)])
  have th: "threads (step E i w) t = threads w t" by (rule effect_other [OF d(12)]) (use i in simp)
  show ?thesis
  proof (cases "h \<in> set (bq_view E (global_queue w))")
    case True
    then show ?thesis using line_step [OF g i(1) s True] near by (auto simp: turn_comes_def)
  next
    case False
    then have "ahead E h (step E i w) \<le> ahead E h w"
      using ahead_bound [OF g', of h] ahead_bound [OF g, of h] by simp
    then show ?thesis using False h near by (auto simp: turn_comes_def th)
  qed
qed

lemma turn_step:
  assumes g: "going E n F P m w" and i: "i < run_threads n"
    and s: "\<not> served n h w" "\<not> served n h (step E i w)"
    and h: "\<exists>t<run_threads n. turn_comes E h w t"
  shows "going E n F P m (step E i w)" "\<exists>t<run_threads n. turn_comes E h (step E i w) t"
    "ahead E h (step E i w) \<le> ahead E h w"
proof -
  have "card (dom (heap (step E i w))) \<le> unat GLOBAL_QUEUE_SIZE" using s(2) by (simp add: served_def)
  then show g': "going E n F P m (step E i w)" by (rule going_step [OF g i])
  obtain t where t: "t < run_threads n" "turn_comes E h w t" using h by blast
  have less: "\<exists>t<run_threads n. turn_comes E h (step E i w) t"
    if "ahead E h (step E i w) < ahead E h w"
  proof -
    have "h \<in> set (bq_view E (global_queue (step E i w)))"
      using that ahead_bound(1) [OF g, of h] ahead_bound(2) [OF g', of h] by linarith
    then show ?thesis using i by (auto simp: turn_comes_def)
  qed
  have "ahead E h (step E i w) < ahead E h w \<or>
      (ahead E h (step E i w) \<le> ahead E h w \<and> turn_comes E h (step E i w) t)"
    using turn_own [OF g t(1) s(1) _ t(2)] turn_other [OF g t(1) i _ s(2) t(2)] s(2)
    by (cases "i = t") auto
  then show "\<exists>t<run_threads n. turn_comes E h (step E i w) t"
    "ahead E h (step E i w) \<le> ahead E h w" using less t(1) by auto
qed

interpretation turn: progress "step E" "run_threads n"
    "\<lambda>w. going E n F P m w \<and> (\<exists>t<run_threads n. turn_comes E h w t)" "served n h"
    "ahead E h" "turn_comes E h" "near E (run_threads n) m"
  for E n F P m h
proof
  fix w i assume w: "going E n F P m w \<and> (\<exists>t<run_threads n. turn_comes E h w t)" "\<not> served n h w"
    and i: "i < run_threads n" "\<not> served n h (step E i w)"
  then show "going E n F P m (step E i w) \<and> (\<exists>t<run_threads n. turn_comes E h (step E i w) t)"
    and "ahead E h (step E i w) \<le> ahead E h w"
    using turn_step [of E n F P m w i h] by blast+
next
  fix w assume "going E n F P m w \<and> (\<exists>t<run_threads n. turn_comes E h w t)"
  then show "\<exists>t<run_threads n. turn_comes E h w t" by blast
next
  fix w t assume w: "going E n F P m w \<and> (\<exists>t<run_threads n. turn_comes E h w t)" "\<not> served n h w"
    and t: "t < run_threads n" "\<not> served n h (step E t w)" "turn_comes E h w t"
    and a: "\<not> ahead E h (step E t w) < ahead E h w"
  then show "\<exists>t'<run_threads n. turn_comes E h (step E t w) t' \<and>
      near E (run_threads n) m (step E t w) t' < near E (run_threads n) m w t"
    using turn_own [of E n F P m w t h] by blast
next
  fix w t i assume w: "going E n F P m w \<and> (\<exists>t<run_threads n. turn_comes E h w t)" "\<not> served n h w"
    and t: "t < run_threads n" "i < run_threads n" "i \<noteq> t" "\<not> served n h (step E i w)" "turn_comes E h w t"
    and a: "\<not> ahead E h (step E i w) < ahead E h w"
  then show "turn_comes E h (step E i w) t \<and>
      near E (run_threads n) m (step E i w) t \<le> near E (run_threads n) m w t \<or>
      (\<exists>t'<run_threads n. turn_comes E h (step E i w) t' \<and>
        near E (run_threads n) m (step E i w) t' < near E (run_threads n) m w t)"
    using turn_other [of E n F P m w t i h] by (metis order_refl)
qed

section \<open>No ready coroutine starves\<close>

text \<open>What being ready means for the threads.\<close>

lemma ready_turn:
  assumes g: "going E n F P m w" and r: "pool_of E (run_threads n) w h = Some (p, Ready)"
  shows "(\<exists>t<run_threads n. turn_comes E h w t) \<or> (\<exists>t<run_threads n. cur_running (threads w t) = Some h)"
proof -
  note d = goingD [OF g]
  have dy: "\<not> dying (run_threads n) w h" and m: "mode_of E (run_threads n) w h = Ready"
    using r by (auto simp: pool_of_def split: if_splits)
  consider "h \<in> set (bq_view E (global_queue w))"
    | t where "t < run_threads n" "h \<in># holds (threads w t)"
    using m by (auto simp: mode_of_def split: if_splits)
  then show ?thesis
  proof cases
    case 1
    then have "turn_comes E h w 0" by (simp add: turn_comes_def)
    then show ?thesis using run_threads_pos [of n] by blast
  next
    case 2
    have "on_way t w" by (rule orderlyD(4) [OF d(7) [OF 2(1)] 2(1)])
    then have "h \<in># loc_refs (last_result (threads w t)) (loc (threads w t)) \<Longrightarrow>
        loc (threads w t) = After_Resume h \<and> last_result (threads w t) = Some (Inr Suspended)"
      using dy 2(1) by (cases "loc (threads w t)") (auto simp: dying_def on_way_def split: if_splits)
    then show ?thesis
      using 2 by (cases "cur_running (threads w t)"; cases "new_spawned (threads w t)")
        (auto simp: holds_def turn_comes_def)
  qed
qed

lemma going_start:
  assumes "env_laws E" and "capacity_laws E" and "responsive E F" and "yields E F P m"
    and w0: "world_init E u = Some w0" and "P f"
  shows "going E n F P m (spawn_all E [(f, os)] w0)"
proof -
  have "started E (spawn_all E [(f, os)] w0)" using w0 unfolding started_def by blast
  then show ?thesis
    using assms orderly_mono [OF orderly_start [where P = P and kids = "\<lambda>_. 0", OF assms(1) w0 \<open>P f\<close>]]
    by (simp add: going_def reach_init GLOBAL_QUEUE_SIZE_def del: spawn_all.simps)
qed

text \<open>C12. No ready coroutine starves: if the code of the one coroutine spawned before \<open>run\<close> and of
  those it spawns gives control back again and again (it may run for ever) and never blocks without
  an event to wait for, the event loop takes its registrations and does not fail to poll (though
  it may time out each time and no event ever come), and there are never more coroutines than
  the queue has room for, then under every fair schedule of the \<open>n\<close>
  threads a coroutine that is ready at some moment is run by a thread at that moment or later.\<close>

theorem no_starvation:
  assumes "env_laws E" and "capacity_laws E" and "responsive E F" and "yields E F P m"
    and "world_init E u = Some w0" and "P f" and fair: "fair (run_threads n) sch"
    and room: "\<And>k. card (dom (heap (exec (step E) sch k (spawn_all E [(f, os)] w0)))) \<le> unat GLOBAL_QUEUE_SIZE"
    and ready: "pool_of E (run_threads n) (exec (step E) sch i (spawn_all E [(f, os)] w0)) h = Some (p, Ready)"
  shows "\<exists>j\<ge>i. \<exists>t<run_threads n.
    cur_running (threads (exec (step E) sch j (spawn_all E [(f, os)] w0)) t) = Some h"
proof -
  let ?w = "\<lambda>k. exec (step E) sch k (spawn_all E [(f, os)] w0)"
  have g: "going E n F P m (?w i)"
    by (rule going_exec [OF going_start [OF assms(1-6)] fair room])
  from ready_turn [OF g ready] show ?thesis
  proof
    assume "\<exists>t<run_threads n. turn_comes E h (?w i) t"
    then obtain k where "served n h (exec (step E) (\<lambda>j. sch (i + j)) k (?w i))"
      using turn.reaches_goal [OF fair_later [OF fair]] g by blast
    then have "served n h (?w (i + k))" by (simp only: exec_add)
    then have "\<exists>t<run_threads n. cur_running (threads (?w (i + k)) t) = Some h"
      using room [of "i + k"] unfolding served_def by simp
    then show ?thesis by (intro exI [of _ "i + k"]) simp
  qed blast
qed

text \<open>Demo code gives control back.\<close>

lemma demo_yields: "yields demo {0..} demo_safe demo_work"
proof -
  have pos: "0 < demo_work p" for p by (induction p rule: demo_work.induct) simp_all
  have "gives_back {0..} demo_safe demo_work (demo_work p) (fst (demo_run p u))" if "demo_safe p" for p u
    using that pos by (cases "(p, u)" rule: demo_run.cases) (auto split: sum.splits)
  then show ?thesis by (simp add: yields_def demo_defs)
qed

theorem no_starvation_witness:
  "\<exists>j\<ge>5. cur_running (threads (exec (step demo) (\<lambda>_. 0) j
     (demo_main [[D_Spawn [D_Wait 3], D_Sched]])) 0) = Some 0"
proof -
  let ?p = "[D_Spawn [D_Wait 3], D_Sched]"
  have fair: "fair (run_threads 1) (\<lambda>_. 0)" by (auto simp: fair_def run_threads_def)
  have "started demo (demo_main [?p])" by (rule demo_started)
  then have u: "underway (\<lambda>_. 0) demo 1 {0..} demo_safe demo_work demo_kids (\<lambda>_. 0) (demo_main [?p])"
    using orderly_mono [OF orderly_start [where P = demo_safe and kids = demo_kids and f = ?p and n = 1,
        OF demo_laws demo_world_init]]
    by (simp add: underway_def demo_laws demo_capacity_laws demo_responsive demo_events demo_ends
        reach_init
        GLOBAL_QUEUE_SIZE_def demo_main_def del: spawn_all.simps)
  have room: "card (dom (heap (exec (step demo) (\<lambda>_. 0) k (demo_main [?p])))) \<le> unat GLOBAL_QUEUE_SIZE" for k
    by (rule add_leD1 [OF orderlyD(5) [OF underwayD(7) [OF underway_exec [OF u fair] run_threads_pos]]])
  have "pool_of demo (run_threads 1) (exec (step demo) (\<lambda>_. 0) 5 (demo_main [?p])) 0 = Some ([D_Sched], Ready)"
    by (simp add: demo_eval pool_of_def dying_def mode_of_def place_def body_of_def run_threads_def
        numeral_eq_Suc)
  then show ?thesis
    using no_starvation [OF demo_laws demo_capacity_laws demo_responsive demo_yields demo_world_init _ fair,
        where f = ?p and os = "options_new 64" and i = 5 and h = 0] room
    by (simp add: demo_main_def run_threads_def del: spawn_all.simps)
qed

end
