(* ===== verification/Io_Starvation.thy ===== *)
theory Io_Starvation
  imports Starvation
begin

text \<open>
  Who does not get to run. A thread polls its event loop only when it finds the queue empty, so
  coroutines that call \<open>sched\<close> for ever, one for each thread, keep all I/O from being noticed,
  and those that wait for it from running.
\<close>

section \<open>Polling only when nothing is ready\<close>

text \<open>Code that goes on for ever and only gives control back to be queued again.\<close>

definition spins :: "('q, 'sl, 'ev, 'pl, 'stk, 'p, 'u) env \<Rightarrow> 'p set \<Rightarrow> bool" where
  "spins E S \<longleftrightarrow> (\<forall>p\<in>S. \<forall>u. \<exists>p'\<in>S. fst (run E p u) = Call_Tau p' \<or> fst (run E p u) = Call_Sched p')"

text \<open>
  As many such coroutines as there are threads, none of them just spawned, and no thread
  that is polling its event loop.
\<close>

definition polls :: "'p loc \<Rightarrow> bool" where
  "polls l \<longleftrightarrow> l = Idle \<or> (\<exists>evs. l = Dispatch evs) \<or> (\<exists>h evs. l = Ready_Push h (Dispatch evs))"

definition hogged :: "('q, 'sl, 'ev, 'pl, 'stk, 'p, 'u) env \<Rightarrow> nat \<Rightarrow> 'p set \<Rightarrow> ptr set \<Rightarrow>
    ('q, 'sl, 'ev, 'pl, 'stk, 'p, 'u) world \<Rightarrow> bool" where
  "hogged E n S H w \<longleftrightarrow> n \<le> card H \<and>
     (\<forall>h\<in>H. \<exists>p\<in>S. pool_of E n w h = Some (p, Ready)) \<and>
     (\<forall>t<n. \<not> polls (loc (threads w t)) \<and> (\<forall>h\<in>H. new_spawned (threads w t) \<noteq> Some h))"

text \<open>A step outside the event loop leaves the waiting coroutines alone.\<close>

lemma awaits_here:
  assumes laws: "env_laws E" and inv: "inv E n {#} w" and t: "t < n" and e: "effect E t w w'"
    and x: "x \<in># awaits E (threads w t)" and l: "\<not> polls (loc (threads w t))"
  shows "here E t w' x = here E t w x"
proof -
  have x': "x \<in># thread_refs E (threads w t)" using x by (simp add: thread_refs_alt)
  have q: "x \<notin> set (bq_view E (global_queue w))" by (rule inv_one_holder(2) [OF inv t x'])
  have nh: "x \<notin># holds (threads w t)" by (rule awaits_not_held [OF inv t x])
  have "x \<in># refs E n w" using x' by (simp add: refs_split [OF t])
  then have x0: "x \<noteq> next_ptr w" using ref_alloc(2) [OF inv] by blast
  note x1 = x [unfolded in_awaits [OF laws]]
  note defs = here_def holds_def dying_th_def in_awaits [OF laws] live_tokens_def
  note known = q nh x0 x1 l
  from e show ?thesis
  proof cases
    case (spawn p c co f os p' u)
    let ?a = "alloc_spawned E t f os (w\<lparr>user := u\<rparr>)"
    obtain sp where th: "threads ?a t =
        (threads w t)\<lparr>stack_pool := sp, new_spawned := Some (next_ptr w)\<rparr>"
      using alloc_spawned_thread [of E t f os "w\<lparr>user := u\<rparr>"] by auto
    obtain ch where "heap ?a = (heap w)(next_ptr w \<mapsto> ch)"
      using alloc_spawned_heap [of E t f os "w\<lparr>user := u\<rparr>"] by auto
    then show ?thesis using spawn th known by (auto simp: defs)
  next
    case (suspended h)
    show ?thesis
      unfolding suspended(1) here_ready [OF laws, of Spawn_Check, simplified]
      using suspended(2,3) known by (auto simp: defs threads_goto)
  next
    case (push h k)
    then have k: "in_scheduler k" by auto
    show ?thesis
      unfolding push(1) here_ready [OF laws k] using push(2) known by (auto simp: defs threads_goto)
  next
    case (ended h co)
    let ?w = "upd t (\<lambda>th. th\<lparr>last_result := None\<rparr>) w"
    obtain sp where "threads w' t =
        (threads w t)\<lparr>last_result := None, stack_pool := sp, loc := Spawn_Check\<rparr>"
      using finished_thread [of ?w h co E t Spawn_Check] ended by auto
    moreover have "heap w' = (heap w)(h := None)" "global_queue w' = global_queue w"
      using ended by (simp_all add: finished_heap frame)
    ultimately show ?thesis using ended(2-) known by (auto simp: defs)
  next
    case (wait_refused p c co fd i k u tok sl ex ev)
    then show ?thesis using known by (auto simp: defs threads_goto) (metis option.distinct(1))+
  next
    case (wait p c co fd i k u tok sl ev)
    then show ?thesis using known by (auto simp: defs) (metis option.distinct(1))+
  qed (use known in \<open>auto simp: defs threads_goto polls_def\<close>)
qed

lemma waiting_kept:
  assumes laws: "env_laws E" and inv: "inv E n {#} w" "inv E n {#} w'" and t: "t < n"
    and e: "effect E t w w'" and l: "\<not> polls (loc (threads w t))"
    and x: "pool_of E n w x = Some (p, Waiting)"
  shows "pool_of E n w' x = Some (p, Waiting)"
proof -
  obtain i where i: "i < n" "x \<in># awaits E (threads w i)"
    using x by (auto simp: pool_of_def mode_of_def split: if_splits)
  have o': "others E n t w' = others E n t w" by (rule others_cong) (rule effect_other [OF e])
  have xi: "x \<in># thread_refs E (threads w i)" using i by (simp add: thread_refs_alt)
  show ?thesis
  proof (cases "i = t")
    case True
    then have "x \<notin># others E n t w" using inv_one_holder(1) [OF inv(1) t] xi by simp
    moreover have "here E t w' x = here E t w x" using awaits_here [OF laws inv(1) t e _ l] i True by simp
    ultimately show ?thesis using x pool_here [OF t, of x E] o' by simp
  next
    case False
    then have o: "x \<in># others E n t w" using i xi by (auto simp: others_def sum_mset_member)
    then have "x \<notin># thread_refs E (threads w t)" using inv_one_holder(1) [OF inv(1) t] by blast
    moreover have "x \<in># refs E n w" using o by (simp add: refs_split [OF t])
    then have "x < next_ptr w" by (rule ref_alloc(2) [OF inv(1)])
    ultimately have "heap w' x = heap w x" by (intro effect_heap [OF e]) simp_all
    then show ?thesis using pool_there [OF inv o effect_other [OF e]] x by simp
  qed
qed

text \<open>A spinning coroutine stays ready, and spins.\<close>

lemma spinner_kept:
  assumes st: "spec_step (run E) a a'" and s: "spins E S"
    and h: "pool a h = Some (p, Ready)" "p \<in> S" "h \<noteq> fresh a"
  shows "\<exists>p\<in>S. pool a' h = Some (p, Ready)"
proof -
  have go: "\<exists>p'\<in>S. q = Call_Tau p' \<or> q = Call_Sched p'" if "run E p (data a) = (q, u)" for q u
    using s h(2) that unfolding spins_def by (metis fst_conv)
  show ?thesis
    using st
  proof cases
    case (io P)
    then have "P h = pool a h" using h(1) unfolding io_change_def by (metis Pair_inject mode.distinct(1) option.inject)
    then show ?thesis using io h by simp
  qed (use h go in \<open>fastforce split: if_splits\<close>)+
qed

text \<open>The coroutine a thread works on.\<close>

definition works_on :: "('sl, 'ev, 'pl, 'stk, 'p) thread \<Rightarrow> ptr option" where
  "works_on th = (case cur_running th of Some c \<Rightarrow> Some c | None \<Rightarrow>
     (case loc th of After_Resume h \<Rightarrow> Some h | Ready_Push h k \<Rightarrow> Some h | _ \<Rightarrow> None))"

lemma holds_works_on:
  assumes "thread_ok E th" and "h \<in># holds th" and "new_spawned th \<noteq> Some h"
  shows "works_on th = Some h"
  using assms by (cases "loc th"; cases "cur_running th"; cases "new_spawned th")
    (auto simp: holds_def works_on_def thread_ok_def split: if_splits)

lemma ready_held:
  assumes "pool_of E n w h = Some (p, Ready)"
  shows "h \<in> set (bq_view E (global_queue w)) \<or> (\<exists>t<n. h \<in># holds (threads w t))"
  using assms by (auto simp: pool_of_def mode_of_def split: if_splits)

text \<open>There are too many of them for the threads to work on all, so the queue is not empty.\<close>

lemma hogged_queue:
  assumes inv: "inv E n {#} w" and t: "t < n" and h: "hogged E n S H w"
    and l: "works_on (threads w t) = None"
  shows "bq_view E (global_queue w) \<noteq> []"
proof
  assume "bq_view E (global_queue w) = []"
  have "H \<subseteq> (\<lambda>i. the (works_on (threads w i))) ` ({..<n} - {t})"
  proof
    fix c assume c: "c \<in> H"
    then obtain p where "pool_of E n w c = Some (p, Ready)" using h unfolding hogged_def by blast
    then obtain i where i: "i < n" "c \<in># holds (threads w i)"
      using ready_held \<open>bq_view E (global_queue w) = []\<close> by fastforce
    have "works_on (threads w i) = Some c"
      by (rule holds_works_on [of E]) (use inv h c i in \<open>auto simp: inv_def hogged_def\<close>)
    then show "c \<in> (\<lambda>i. the (works_on (threads w i))) ` ({..<n} - {t})"
      using i(1) l by (intro image_eqI [of _ _ i]) auto
  qed
  then have "card H \<le> card ({..<n} - {t})" by (rule surj_card_le [rotated]) simp
  moreover have "n \<le> card H" using h by (simp add: hogged_def)
  ultimately show False using t by simp
qed

lemma polls_simps [simp]:
  "polls Idle" "polls (Dispatch evs)" "polls (Ready_Push h (Dispatch evs))" "\<not> polls (Body p)"
  "\<not> polls (Epilogue st)" "\<not> polls (After_Resume h)" "\<not> polls (Ready_Push h Spawn_Check)"
  "\<not> polls Loop_Top" "\<not> polls Spawn_Check" "\<not> polls (Stopped r)" "\<not> polls Aborted"
  by (simp_all add: polls_def)

lemma hogged_step:
  assumes laws: "env_laws E" and resp: "responsive E F"
    and s: "spins E S" and r: "reachable E n w" and t: "t < run_threads n"
    and h: "hogged E (run_threads n) S H w"
  shows "hogged E (run_threads n) S H (step E t w)"
proof -
  let ?n = "run_threads n" and ?w = "step E t w"
  have inv: "inv E ?n {#} w" by (rule reachable_inv [OF laws r])
  have e: "effect E t w ?w" by (rule step_effect [OF laws inv t])
  have st: "spec_step (run E) (spec_of E ?n w) (spec_of E ?n ?w)"
    by (rule sim_step [OF laws inv t body_new_spawned [OF laws r t]])
  have here: "\<exists>p\<in>S. pool_of E ?n ?w c = Some (p, Ready) " "c < next_ptr w" if c: "c \<in> H" for c
  proof -
    obtain p where p: "p \<in> S" "pool_of E ?n w c = Some (p, Ready)" using h c unfolding hogged_def by blast
    then have "c \<in> dom (heap w)" by (auto simp: pool_of_def split: if_splits)
    then show "c < next_ptr w" using inv unfolding inv_def heap_ok_def by blast
    then show "\<exists>p\<in>S. pool_of E ?n ?w c = Some (p, Ready)"
      using spinner_kept [OF st s, of c p] p by (simp add: spec_of_def)
  qed
  have l: "\<not> polls (loc (threads w t))" and ns: "\<And>c. c \<in> H \<Longrightarrow> new_spawned (threads w t) \<noteq> Some c"
    using h t by (simp_all add: hogged_def)
  have "\<not> polls (loc (threads ?w t)) \<and> (\<forall>c\<in>H. new_spawned (threads ?w t) \<noteq> Some c)"
    using e
  proof cases
    case (spawn p c co f os p' u)
    obtain sp where "threads (alloc_spawned E t f os (w\<lparr>user := u\<rparr>)) t =
        (threads w t)\<lparr>stack_pool := sp, new_spawned := Some (next_ptr w)\<rparr>"
      using alloc_spawned_thread [of E t f os "w\<lparr>user := u\<rparr>"] by auto
    then show ?thesis using spawn here(2) by auto
  next
    case (suspended c)
    then show ?thesis using ns by (cases rule: ready_cases [OF laws, of t c Spawn_Check
      "upd t (\<lambda>th. th\<lparr>last_result := None\<rparr>) w"]) (auto simp: threads_goto)
  next
    case (push c k)
    then have "k = Spawn_Check" using l by (auto simp: polls_def)
    then show ?thesis
      unfolding push(1) using ns by (cases rule: ready_cases [OF laws, of t c k w]) (auto simp: threads_goto)
  next
    case (ended c co)
    then show ?thesis
      using finished_thread [of "upd t (\<lambda>th. th\<lparr>last_result := None\<rparr>) w" c co E t Spawn_Check] ns by auto
  next
    case (pop_none q)
    have c: "cur_running (threads w t) = None" by (rule not_running [OF inv t]) (simp add: pop_none)
    then have "works_on (threads w t) = None" by (simp add: works_on_def pop_none)
    then show ?thesis
      using hogged_queue [OF inv t h] pop_none_empty [OF resp pop_none(2) c pop_none(1)] by simp
  qed (use l ns in \<open>auto simp: threads_goto\<close>)
  then have "\<not> polls (loc (threads ?w i)) \<and> (\<forall>c\<in>H. new_spawned (threads ?w i) \<noteq> Some c)" if "i < ?n" for i
    using h that effect_other [OF e, of i] by (cases "i = t") (auto simp: hogged_def)
  then show ?thesis using h here(1) by (simp add: hogged_def)
qed

text \<open>C13. Waiting coroutines can starve: once there are as many coroutines that call \<open>sched\<close> for ever
  as threads, and no thread is just polling, no thread ever polls its event loop again,
  because \<open>schedule\<close> does so only when the queue is empty; a coroutine that waits for I/O then
  waits for ever, whatever happens to its descriptor and however the threads are scheduled.\<close>

theorem io_starves:
  assumes laws: "env_laws E" and resp: "responsive E F" and s: "spins E S" and r: "reachable E n w"
    and h: "hogged E (run_threads n) S H w"
    and x: "pool_of E (run_threads n) w x = Some (p, Waiting)"
    and w': "reach (\<lambda>s. s = w) (sys_step E (run_threads n)) w'"
  shows "pool_of E (run_threads n) w' x = Some (p, Waiting) \<and>
    (\<forall>t<run_threads n. loc (threads w' t) \<noteq> Idle)"
proof -
  let ?I = "\<lambda>w. reachable E n w \<and> hogged E (run_threads n) S H w \<and>
    pool_of E (run_threads n) w x = Some (p, Waiting)"
  have "?I w'"
    using w'
  proof (rule reach_invariant)
    fix a a' assume I: "?I a" and "sys_step E (run_threads n) a a'"
    then obtain t where t: "t < run_threads n" "a' = step E t a" by (auto elim: sys_step.cases)
    have r': "reachable E n a'" unfolding t(2) using I t(1) by (blast intro: reach.reach_step sys_step.intros)
    have inv: "inv E (run_threads n) {#} a" "inv E (run_threads n) {#} a'"
      using reachable_inv [OF laws] I r' by simp_all
    have "\<not> polls (loc (threads a t))" using I t(1) by (simp add: hogged_def)
    then have "pool_of E (run_threads n) a' x = Some (p, Waiting)"
      using waiting_kept [OF laws inv t(1) _ _ conjunct2 [OF conjunct2 [OF I]]]
        step_effect [OF laws inv(1) t(1)] t(2) by simp
    then show "?I a'" using r' hogged_step [OF laws resp s _ t(1)] I t(2) by simp
  qed (use r h x in simp)
  then show ?thesis by (force simp: hogged_def)
qed

text \<open>For the witness: one coroutine waits for a descriptor and returns, another calls \<open>sched\<close> for ever.\<close>

datatype spin_point = Spin_Start | Spin_Loop | Spin_Wait | Spin_Woken

fun spin_run :: "spin_point \<Rightarrow> unit \<Rightarrow> spin_point call \<times> unit" where
  "spin_run Spin_Start u = (Call_Spawn Spin_Wait (options_new 64) Spin_Loop, u)"
| "spin_run Spin_Loop u = (Call_Sched Spin_Loop, u)"
| "spin_run Spin_Wait u = (Call_Wait 3 Readable (\<lambda>_. Spin_Woken), u)"
| "spin_run Spin_Woken u = (Call_Return, u)"

theorem io_starves_witness:
  "let E = demo_with spin_run; w = (step E 0 ^^ 8) (spawn_all E [(Spin_Start, options_new 64)] (the (world_init E ()))) in
   \<forall>w'. reach (\<lambda>s. s = w) (sys_step E (run_threads 1)) w' \<longrightarrow>
     pool_of E (run_threads 1) w' 1 = Some (Spin_Woken, Waiting)"
proof -
  let ?E = "demo_with spin_run"
  let ?s = "spawn_all ?E [(Spin_Start, options_new 64)] (the (world_init ?E ()))"
  let ?w = "(step ?E 0 ^^ 8) ?s"
  have "world_init ?E () = Some (the (world_init ?E ()))"
    by (simp add: world_init_def processor_new_def demo_with_def)
  then have "started ?E ?s" unfolding started_def by blast
  then have r: "reachable ?E 1 ?w" by (intro reach_steps reach.reach_init) (simp_all add: run_threads_def)
  have s: "spins ?E {Spin_Loop}" by (simp add: spins_def)
  have h: "hogged ?E (run_threads 1) {Spin_Loop} {0} ?w"
    and x: "pool_of ?E (run_threads 1) ?w 1 = Some (Spin_Woken, Waiting)"
    by (simp_all add: demo_eval hogged_def polls_def pool_of_def dying_def mode_of_def place_def body_of_def
        run_threads_def holds_def awaits_def slab_refs_def live_tokens_def)
  show ?thesis
    using io_starves [OF demo_with_laws demo_with_responsive s r h x] by (simp add: Let_def)
qed

end
