(* ===== verification/Cooperative.thy ===== *)
theory Cooperative
  imports Run_Terminates
begin

text \<open>
  With one thread, coroutines change places only where one of them calls the crate. The locale
  \<open>cooperative\<close> is the rule this gives for programs that do no I/O: what a program keeps true
  where its coroutines rest, however it is broken in between, holds whenever none of them runs.
\<close>

section \<open>Code between two calls\<close>

text \<open>
  \<open>J p u\<close> holds while a coroutine runs at \<open>p\<close>; \<open>V u\<close> while none runs, and the others rest at
  points in \<open>K\<close>. What the data has gained, \<open>val\<close>, and what the coroutines still owe, \<open>g\<close>, add up
  to the same at every step. \<open>q\<close> and \<open>u'\<close> are the outcome of one piece of code.
\<close>

definition hands_over ::
  "('p \<Rightarrow> 'u \<Rightarrow> bool) \<Rightarrow> ('p \<Rightarrow> bool) \<Rightarrow> ('u \<Rightarrow> bool) \<Rightarrow> ('u \<Rightarrow> nat) \<Rightarrow> ('p \<Rightarrow> nat) \<Rightarrow> 'p \<Rightarrow> 'u \<Rightarrow>
   'p call \<times> 'u \<Rightarrow> bool" where
  "hands_over J K V val g p u r \<longleftrightarrow>
    (let u' = snd r; owes = \<lambda>x. val u' + x = val u + g p in
     case fst r of
       Call_Tau p' \<Rightarrow> J p' u' \<and> owes (g p')
     | Call_Return \<Rightarrow> V u' \<and> owes 0
     | Call_Panic e \<Rightarrow> V u' \<and> owes 0
     | Call_Spawn f os p' \<Rightarrow> V u' \<and> K f \<and> K p' \<and> owes (g f + g p')
     | Call_Sched p' \<Rightarrow> V u' \<and> K p' \<and> owes (g p')
     | Call_Block p' \<Rightarrow> V u' \<and> K p' \<and> owes (g p')
     | Call_Wait fd i k \<Rightarrow> False)"

section \<open>The state of a run with one thread\<close>

definition coop ::
  "('p \<Rightarrow> 'u \<Rightarrow> bool) \<Rightarrow> ('p \<Rightarrow> bool) \<Rightarrow> ('u \<Rightarrow> bool) \<Rightarrow> ('u \<Rightarrow> nat) \<Rightarrow> ('p \<Rightarrow> nat) \<Rightarrow> nat \<Rightarrow>
   ('q, 'sl, 'ev, 'pl, 'stk, 'p, 'u) world \<Rightarrow> bool" where
  "coop J K V val g s w \<longleftrightarrow>
    (case loc (threads w 0) of Body p \<Rightarrow> J p (user w) | _ \<Rightarrow> V (user w)) \<and>
    (\<forall>c p. heap w c \<noteq> None \<longrightarrow> cur_running (threads w 0) \<noteq> Some c \<longrightarrow> point 0 w c = Some p \<longrightarrow> K p) \<and>
    (\<forall>c. dying_th (threads w 0) c \<longrightarrow> point 0 w c = None) \<and>
    val (user w) + load (Suc 0) g w = s"

lemma single_others [simp]: "others E (Suc 0) 0 w = {#}"
  by (simp add: others_def lessThan_Suc)

lemma place_single: "place (Suc 0) w c = point 0 w c"
  by (rule place_point [where E = undefined]) simp_all

lemma exec_same: "exec f (\<lambda>k. t) k s = (f t ^^ k) s"
  by (induction k) simp_all

lemma exec_reach:
  assumes "\<And>k. sch k < n"
  shows "reach (\<lambda>s. s = s0) (sys_step E n) (exec (step E) sch k s0)"
  by (induction k) (auto intro: reach.intros sys_step.intros assms)

text \<open>The calls: one coroutine moves, and perhaps a new one is there.\<close>

lemma coop_call:
  assumes fin: "finite (dom (heap w))" and c: "heap w c \<noteq> None" "point 0 w c = Some p"
    "cur_running (threads w 0) = Some c"
    and i: "coop J K V val g s w"
    and dom: "dom (heap w') = dom (heap w)"
    and same: "\<And>x. x \<noteq> c \<Longrightarrow> point 0 w' x = point 0 w x"
    and J: "case loc (threads w' 0) of Body p \<Rightarrow> J p (user w') | _ \<Rightarrow> V (user w')"
    and K: "\<And>p'. point 0 w' c = Some p' \<Longrightarrow> cur_running (threads w' 0) \<noteq> Some c \<Longrightarrow> K p'"
    and dying: "\<And>x. dying_th (threads w' 0) x \<Longrightarrow> point 0 w' x = None"
    and owes: "val (user w') + (case point 0 w' c of None \<Rightarrow> 0 | Some p' \<Rightarrow> g p') = val (user w) + g p"
  shows "coop J K V val g s w'"
proof -
  have "load (Suc 0) g w' + g p = load (Suc 0) g w + (case point 0 w' c of None \<Rightarrow> 0 | Some p' \<Rightarrow> g p')"
    using load_call [OF fin c(1) _ dom, of "Suc 0" p g] c(2) same by (simp add: place_single)
  then have "val (user w') + load (Suc 0) g w' = s" using i owes by (simp add: coop_def)
  moreover have "K q" if "heap w' x \<noteq> None" "cur_running (threads w' 0) \<noteq> Some x"
    "point 0 w' x = Some q" for x q
  proof (cases "x = c")
    case True
    then show ?thesis using K that by simp
  next
    case False
    have "heap w x \<noteq> None" using that(1) dom by (metis domIff)
    then show ?thesis using False that(3) same [OF False] i c(3) by (auto simp: coop_def)
  qed
  ultimately show ?thesis using J dying by (auto simp: coop_def)
qed

text \<open>A spawn: one coroutine moves, and a new one is there.\<close>

lemma coop_spawn:
  assumes inv: "inv E (Suc 0) {#} w"
    and c: "heap w c = Some co" "loc (threads w 0) = Body p" "cur_running (threads w 0) = Some c"
    and i: "coop J K V val g s w"
    and w': "w' = yielded (Inr Suspended) 0 c (Body p') (After_Resume c)
      (alloc_spawned E 0 f os (w\<lparr>user := u\<rparr>))"
    and ok: "V u" "K f" "K p'" "val u + (g f + g p') = val (user w) + g p"
  shows "coop J K V val g s w'"
proof -
  let ?d = "next_ptr w" and ?w = "alloc_spawned E 0 f os (w\<lparr>user := u\<rparr>)"
  have fin: "finite (dom (heap w))" by (rule heap_finite [OF inv])
  obtain ch where ch: "heap ?w = (heap w)(?d \<mapsto> ch)" "ctx ch = Some (Body f)"
    using alloc_spawned_heap [of E 0 f os "w\<lparr>user := u\<rparr>"] by auto
  have d: "heap w ?d = None" using inv by (auto simp: inv_def heap_ok_def)
  have cd: "c \<noteq> ?d" using d c(1) by auto
  have dom: "dom (heap w') = insert ?d (dom (heap w))" using c(1) by (auto simp: w' ch)
  have points: "point 0 w' c = Some p'" "point 0 w' ?d = Some f"
    "\<And>x. x \<noteq> c \<Longrightarrow> x \<noteq> ?d \<Longrightarrow> point 0 w' x = point 0 w x"
    using cd ch c by (auto simp: point_def w')
  have h: "heap w c \<noteq> None" "point 0 w c = Some p" using c by (simp_all add: point_def)
  have "load (Suc 0) g w' + g p = load (Suc 0) g w + g f + g p'"
    using load_spawn [OF fin h(1) _ dom d, of "Suc 0" p p' f g] h(2) points by (simp add: place_single)
  then have "val (user w') + load (Suc 0) g w' = s" using i ok(4) by (simp add: coop_def w')
  moreover have "K q" if "heap w' x \<noteq> None" "point 0 w' x = Some q" for x q
  proof -
    have "heap w x \<noteq> None" if "x \<noteq> ?d" "x \<noteq> c" using \<open>heap w' x \<noteq> None\<close> that by (auto simp: w' ch)
    then show ?thesis
      using that points ok(2,3) i c(3) by (cases "x = c"; cases "x = ?d") (auto simp: coop_def)
  qed
  ultimately show ?thesis using ok(1) by (auto simp: coop_def w' dying_th_def)
qed

text \<open>Steps that make no call.\<close>

lemma coop_quiet:
  assumes fin: "finite (dom (heap w))" and i: "coop J K V val g s w"
    and dom: "dom (heap w') \<subseteq> dom (heap w)"
    and gone: "\<And>x. heap w x \<noteq> None \<Longrightarrow> heap w' x = None \<Longrightarrow> point 0 w x = None"
    and same: "\<And>x. heap w' x \<noteq> None \<Longrightarrow> point 0 w' x = point 0 w x"
    and u: "user w' = user w" and V: "V (user w)" and l: "case loc (threads w' 0) of Body p \<Rightarrow> J p (user w) | _ \<Rightarrow> True"
    and cur: "cur_running (threads w 0) = None" and dying: "\<And>x. \<not> dying_th (threads w' 0) x"
  shows "coop J K V val g s w'"
proof -
  have "load (Suc 0) g w = load (Suc 0) g w'"
    unfolding load_def
  proof (rule sum.mono_neutral_cong_right [OF fin dom])
    show "\<forall>c\<in>dom (heap w) - dom (heap w'). (case place (Suc 0) w c of None \<Rightarrow> 0 | Some p \<Rightarrow> g p) = 0"
      using gone by (auto simp: place_single domIff)
  qed (use same in \<open>auto simp: place_single domIff\<close>)
  moreover have "K q" if x: "heap w' x \<noteq> None" "point 0 w' x = Some q" for x q
  proof -
    have "heap w x \<noteq> None" using dom x(1) by blast
    then show ?thesis using i x(2) same [OF x(1)] cur unfolding coop_def by (metis option.distinct(1))
  qed
  moreover have "case loc (threads w' 0) of Body p \<Rightarrow> J p (user w') | _ \<Rightarrow> V (user w')"
    using l V u by (simp split: loc.splits)
  ultimately show ?thesis using i u dying by (simp add: coop_def)
qed

section \<open>The rule\<close>

locale cooperative =
  fixes R :: "'p \<Rightarrow> 'u \<Rightarrow> 'p call \<times> 'u"
    and J :: "'p \<Rightarrow> 'u \<Rightarrow> bool" and K :: "'p \<Rightarrow> bool" and V :: "'u \<Rightarrow> bool"
    and val :: "'u \<Rightarrow> nat" and g :: "'p \<Rightarrow> nat" and s :: nat
  assumes resumes: "K p \<Longrightarrow> V u \<Longrightarrow> J p u"
    and calls: "J p u \<Longrightarrow> val u + g p \<le> s \<Longrightarrow> hands_over J K V val g p u (R p u)"
begin

lemma body_keeps:
  assumes laws: "env_laws E" and R: "run E = R" and inv: "inv E (Suc 0) {#} w"
    and e: "effect E 0 w w'" and l: "loc (threads w 0) = Body p" and i: "coop J K V val g s w"
  shows "coop J K V val g s w'"
proof -
  obtain c co where c: "cur_running (threads w 0) = Some c" and co: "heap w c = Some co"
    using body_runs [OF inv _ l] by blast
  have h: "heap w c \<noteq> None" and pl: "point 0 w c = Some p" using c l co by (simp_all add: point_def)
  have fin: "finite (dom (heap w))" by (rule heap_finite [OF inv])
  have "place (Suc 0) w c = Some p" using pl by (simp add: place_single)
  then have "g p \<le> load (Suc 0) g w"
    unfolding load_def using member_le_sum [OF _ _ fin, of c "\<lambda>c. case place (Suc 0) w c of None \<Rightarrow> 0 | Some p \<Rightarrow> g p"] h
    by (auto simp: domIff)
  then have ho: "hands_over J K V val g p (user w) (q, u)" if "run E p (user w) = (q, u)" for q u
    using calls [of p "user w"] that i l R by (auto simp: coop_def)
  note call = coop_call [OF fin h pl c i]
  note ss = point_def hands_over_def Let_def threads_goto dying_th_def
  from e show ?thesis
  proof cases
    case (tau p0 c' p' u)
    show ?thesis by (rule call) (use ho [of "Call_Tau p'" u] tau l c in \<open>auto simp: ss\<close>)
  next
    case (return p0 c' co' u)
    show ?thesis by (rule call) (use ho [of Call_Return u] return l c co in \<open>auto simp: ss\<close>)
  next
    case (panic p0 c' co' x u)
    show ?thesis by (rule call) (use ho [of "Call_Panic x" u] panic l c co in \<open>auto simp: ss\<close>)
  next
    case (sched p0 c' co' p' u)
    show ?thesis by (rule call) (use ho [of "Call_Sched p'" u] sched l c co in \<open>auto simp: ss\<close>)
  next
    case (block p0 c' co' p' u)
    show ?thesis by (rule call) (use ho [of "Call_Block p'" u] block l c co in \<open>auto simp: ss\<close>)
  next
    case (spawn p0 c' co' f os p' u)
    show ?thesis
      by (rule coop_spawn [OF inv co l c i]) (use ho [of "Call_Spawn f os p'" u] spawn l c in \<open>auto simp: ss\<close>)
  next
    case (wait_full p0 c' co' fd ii k u y sl x)
    then show ?thesis using ho [of "Call_Wait fd ii k" u] l by (simp add: ss)
  next
    case (wait_refused p0 c' co' fd ii k u tok sl x ev)
    then show ?thesis using ho [of "Call_Wait fd ii k" u] l by (simp add: ss)
  next
    case (wait p0 c' co' fd ii k u tok sl ev)
    then show ?thesis using ho [of "Call_Wait fd ii k" u] l by (simp add: ss)
  qed (use l in auto)
qed

lemma scheduler_keeps:
  assumes laws: "env_laws E" and inv: "inv E (Suc 0) {#} w"
    and e: "effect E 0 w w'" and l: "\<And>p. loc (threads w 0) \<noteq> Body p" and i: "coop J K V val g s w"
  shows "coop J K V val g s w'"
proof -
  have cur: "cur_running (threads w 0) = None" and ok: "thread_ok E (threads w 0)"
    using inv l by (auto simp: inv_def thread_ok_def split: loc.splits)
  have fin: "finite (dom (heap w))" by (rule heap_finite [OF inv])
  have V: "V (user w)" using i l by (auto simp: coop_def split: loc.splits)
  have J: "J p (user w)" if "heap w h = Some co" "ctx co = Some (Body p)" for h co p
    using that i cur V by (intro resumes) (auto simp: coop_def point_def)
  note quiet = coop_quiet [OF fin i _ _ _ _ V _ cur]
  have ready: "coop J K V val g s (ready E 0 h k v)"
    if "k = Spawn_Check \<or> (\<exists>evs. k = Dispatch evs)" "heap v = heap w" "user v = user w"
      "cur_running (threads v 0) = None" for h k v
    by (cases rule: ready_cases [OF laws, of 0 h k v])
      (rule quiet; use that cur in \<open>auto simp: point_def threads_goto dying_th_def\<close>)+
  from e show ?thesis
  proof cases
    case (suspended h)
    then show ?thesis using cur by (auto intro!: ready)
  next
    case (push h k)
    then show ?thesis using cur by (auto intro!: ready)
  next
    case (event tok es evs h fd sl ev)
    then show ?thesis using cur by (auto intro!: ready)
  next
    case (ended h co)
    obtain sp where th: "threads w' 0 = (threads w 0)\<lparr>last_result := None, stack_pool := sp, loc := Spawn_Check\<rparr>"
      using finished_thread [of "upd 0 (\<lambda>th. th\<lparr>last_result := None\<rparr>) w" h co E 0 Spawn_Check] ended
      by auto
    have hp: "heap w' = (heap w)(h := None)" "user w' = user w"
      using ended by (simp_all add: finished_heap frame)
    have "point 0 w h = None" using i ended(3) by (simp add: coop_def)
    then show ?thesis
      by (intro quiet) (use hp th cur in \<open>auto simp: point_def dying_th_def split: if_splits\<close>)
  next
    case (pop h q co p)
    then show ?thesis
      using J [OF pop(4,5)] cur by (intro quiet) (auto simp: point_def dying_th_def)
  next
    case (spawned h co p)
    then show ?thesis
      using J [OF spawned(4,5)] cur by (intro quiet) (auto simp: point_def dying_th_def)
  qed (use l in auto; rule quiet; use cur in \<open>auto simp: point_def threads_goto dying_th_def\<close>)+
qed

lemma step_keeps:
  assumes "env_laws E" and "run E = R" and "inv E (Suc 0) {#} w" and "coop J K V val g s w"
  shows "coop J K V val g s (step E 0 w)"
  using body_keeps [OF assms(1-3) step_effect [OF assms(1,3)] _ assms(4)]
    scheduler_keeps [OF assms(1,3) step_effect [OF assms(1,3)] _ assms(4)]
  by (cases "\<exists>p. loc (threads w 0) = Body p") auto

lemma keeps:
  assumes laws: "env_laws E" "run E = R" and w0: "world_init E u = Some w0"
    and f: "V u" "K f" "val u + g f = s"
    and "reach (\<lambda>x. x = spawn_all E [(f, os)] w0) (sys_step E (Suc 0)) w"
  shows "coop J K V val g s w"
  using assms(7)
proof (induction rule: reach.induct)
  case (reach_init x)
  have inv: "inv E (Suc 0) {#} w0" by (rule inv_world_init [OF laws(1) w0])
  have eq: "spawn_all E [(f, os)] w0 = alloc_spawned E 0 f os w0"
    using inv_started_spawn(3) [OF _ inv world_init_loc [OF w0]] by simp
  have h0: "heap w0 = Map.empty" "user w0 = u" "cur_running (threads w0 0) = None"
    "loc (threads w0 0) = Loop_Top"
    using w0 by (auto simp: world_init_def processor_new_def processor.extend_def split: option.splits sum.splits)
  obtain sp where th: "threads (alloc_spawned E 0 f os w0) 0 =
      (threads w0 0)\<lparr>stack_pool := sp, new_spawned := Some (next_ptr w0)\<rparr>"
    using alloc_spawned_thread [of E 0 f os w0] by blast
  obtain ch where ch: "heap (alloc_spawned E 0 f os w0) = [next_ptr w0 \<mapsto> ch]" "ctx ch = Some (Body f)"
    using alloc_spawned_heap [of E 0 f os w0] h0 by auto
  show ?case
    unfolding reach_init eq using f
    by (auto simp: coop_def load_def place_single point_def th ch h0 dying_th_def)
next
  case (reach_step x x')
  have "started E (spawn_all E [(f, os)] w0)" using w0 unfolding started_def by blast
  then have "reachable E 1 x"
    using reach_mono [OF reach_step.hyps(1), of "started E"] by (simp add: run_threads_def)
  then have "inv E (Suc 0) {#} x" using reachable_inv [OF laws(1)] by (fastforce simp: run_threads_def)
  then show ?case
    using step_keeps [OF laws] reach_step by (auto elim!: sys_step.cases)
qed

text \<open>When the run has returned, everything that was owed has been done.\<close>

lemma returned:
  assumes "env_laws E" and "run E = R" and "world_init E u = Some w0"
    and "V u" and "K f" and "val u + g f = s"
    and "reach (\<lambda>x. x = spawn_all E [(f, os)] w0) (sys_step E (Suc 0)) w"
    and "all_returned 1 w"
  shows "V (user w) \<and> val (user w) = s"
  using keeps [OF assms(1-7)] assms(8) by (simp add: coop_def all_returned_def load_def run_threads_def)

end

end
