(* ===== verification/Mutex_Model.thy ===== *)
theory Mutex_Model
  imports Sched_Prelude
begin

text \<open>
  \<open>src/sync/mutex.rs\<close>: a spin lock that gives way to other coroutines between attempts. The
  memory is a store of mutexes; every operation is built from the one atomic
  \<open>compare_and_swap\<close>. What other coroutines and threads do to the store between two of them
  is an argument (\<open>others\<close>) of the operations that loop, and a step relation over several
  clients at the end.
\<close>

section \<open>Mutexes and guards\<close>

definition POISON_RETRY_COUNT :: nat where
  "POISON_RETRY_COUNT = 102400"

record 'a mutex =
  mdata :: 'a
  lock_flag :: bool

type_synonym mid = nat   \<comment> \<open>the address of a mutex\<close>
type_synonym 'a store = "mid \<Rightarrow> 'a mutex"

definition mutex_new :: "'a \<Rightarrow> 'a mutex" where
  "mutex_new d = \<lparr>mdata = d, lock_flag = False\<rparr>"

text \<open>\<open>compare_and_swap(old, new)\<close> returns the previous value.\<close>

definition compare_and_swap :: "bool \<Rightarrow> bool \<Rightarrow> mid \<Rightarrow> 'a store \<Rightarrow> bool \<times> 'a store" where
  "compare_and_swap old new i st =
    (lock_flag (st i),
     if lock_flag (st i) = old then st(i := (st i)\<lparr>lock_flag := new\<rparr>) else st)"

text \<open>\<open>Guard\<close>: a reference to the data of a mutex and one to the mutex.\<close>

record guard =
  guard_data :: mid
  guard_mutex :: mid

definition guard_new :: "mid \<Rightarrow> mid \<Rightarrow> guard" where
  "guard_new d m = \<lparr>guard_data = d, guard_mutex = m\<rparr>"

definition deref :: "guard \<Rightarrow> 'a store \<Rightarrow> 'a" where
  "deref self st = mdata (st (guard_data self))"

definition deref_mut :: "guard \<Rightarrow> ('a \<Rightarrow> 'a) \<Rightarrow> 'a store \<Rightarrow> 'a store" where
  "deref_mut self f st =
    st(guard_data self := (st (guard_data self))\<lparr>mdata := f (mdata (st (guard_data self)))\<rparr>)"

record 'g poison_error =
  perr_guard :: 'g

definition poison_error_new :: "'g \<Rightarrow> 'g poison_error" where
  "poison_error_new g = \<lparr>perr_guard = g\<rparr>"

definition into_inner :: "'g poison_error \<Rightarrow> 'g" where
  "into_inner self = perr_guard self"

definition get_ref :: "'g poison_error \<Rightarrow> 'g" where
  "get_ref self = perr_guard self"

definition get_mut :: "('g \<Rightarrow> 'g) \<Rightarrow> 'g poison_error \<Rightarrow> 'g poison_error" where
  "get_mut f self = self\<lparr>perr_guard := f (perr_guard self)\<rparr>"

definition poison_debug :: string where
  "poison_debug = ''PoisonError { inner: .. }''"

definition poison_display :: string where
  "poison_display = ''poisoned lock: another task failed inside''"

definition poison_description :: string where
  "poison_description = ''poisoned lock: another task failed inside''"

type_synonym lock_result = "guard poison_error + guard"

section \<open>Locking\<close>

text \<open>One round of the loop in \<open>Mutex::lock\<close>.\<close>

definition lock_round :: "mid \<Rightarrow> 'a store \<Rightarrow> guard option \<times> 'a store" where
  "lock_round self st =
    (case compare_and_swap False True self st of
       (old, st') \<Rightarrow> if old = False then (Some (guard_new self self), st') else (None, st'))"

text \<open>
  \<open>for _ in 0..n\<close>; \<open>others\<close> is what happens to the store during each \<open>Scheduler::sched()\<close>.
\<close>

fun lock_loop ::
  "('a store \<Rightarrow> 'a store) \<Rightarrow> nat \<Rightarrow> mid \<Rightarrow> 'a store \<Rightarrow> lock_result \<times> 'a store" where
  "lock_loop others 0 self st = (Inl (poison_error_new (guard_new self self)), st)"
| "lock_loop others (Suc n) self st =
    (case lock_round self st of
       (Some g, st') \<Rightarrow> (Inr g, st')
     | (None, st') \<Rightarrow> lock_loop others n self (others st'))"

definition lock :: "('a store \<Rightarrow> 'a store) \<Rightarrow> mid \<Rightarrow> 'a store \<Rightarrow> lock_result \<times> 'a store" where
  "lock others self st = lock_loop others POISON_RETRY_COUNT self st"

definition try_lock :: "mid \<Rightarrow> 'a store \<Rightarrow> lock_result \<times> 'a store" where
  "try_lock self st =
    (case compare_and_swap False True self st of
       (old, st') \<Rightarrow>
         if \<not> old then (Inr (guard_new self self), st')
         else (Inl (poison_error_new (guard_new self self)), st'))"

section \<open>Unlocking\<close>

text \<open>
  \<open>Drop for Guard\<close>: \<open>while compare_and_swap(true, false) == true {}\<close>, with what the other
  threads do between two rounds. \<open>None\<close> is a loop that never ends.
\<close>

partial_function (option) drop_loop ::
  "('a store \<Rightarrow> 'a store) \<Rightarrow> guard \<Rightarrow> 'a store \<Rightarrow> 'a store option" where
  "drop_loop others self st =
    (case compare_and_swap True False (guard_mutex self) st of
       (old, st') \<Rightarrow> if old = True then drop_loop others self (others st') else Some st')"

section \<open>Several clients of one mutex\<close>

text \<open>
  Where a coroutine that uses the mutex is: outside, in \<open>lock()\<close> with this many rounds left
  (about to try, or inside \<open>Scheduler::sched()\<close>), with the guard of an \<open>Ok\<close> (\<open>True\<close>) or of an
  \<open>Err\<close>, or in that guard's \<open>drop\<close>.
\<close>

datatype client = Outside | Locking nat | Yielded nat | Guarded bool | Dropping bool

record 'a msys =
  mem :: "'a store"
  at :: "nat \<Rightarrow> client"

inductive client_step :: "mid \<Rightarrow> nat \<Rightarrow> 'a msys \<Rightarrow> 'a msys \<Rightarrow> bool" for i c where
  lock_called: "at s c = Outside \<Longrightarrow>
    client_step i c s (s\<lparr>at := (at s)(c := Locking POISON_RETRY_COUNT)\<rparr>)"
| lock_got: "at s c = Locking (Suc k) \<Longrightarrow> lock_round i (mem s) = (Some g, st) \<Longrightarrow>
    client_step i c s (s\<lparr>mem := st, at := (at s)(c := Guarded True)\<rparr>)"
| lock_missed: "at s c = Locking (Suc k) \<Longrightarrow> lock_round i (mem s) = (None, st) \<Longrightarrow>
    client_step i c s (s\<lparr>mem := st, at := (at s)(c := Yielded k)\<rparr>)"
| lock_resumed: "at s c = Yielded k \<Longrightarrow>
    client_step i c s (s\<lparr>at := (at s)(c := Locking k)\<rparr>)"
| lock_failed: "at s c = Locking 0 \<Longrightarrow>
    client_step i c s (s\<lparr>at := (at s)(c := Guarded False)\<rparr>)"
| try_got: "at s c = Outside \<Longrightarrow> try_lock i (mem s) = (Inr g, st) \<Longrightarrow>
    client_step i c s (s\<lparr>mem := st, at := (at s)(c := Guarded True)\<rparr>)"
| try_failed: "at s c = Outside \<Longrightarrow> try_lock i (mem s) = (Inl e, st) \<Longrightarrow>
    client_step i c s (s\<lparr>mem := st, at := (at s)(c := Guarded False)\<rparr>)"
| access: "at s c = Guarded b \<Longrightarrow>
    client_step i c s (s\<lparr>mem := deref_mut (guard_new i i) f (mem s)\<rparr>)"
| drop_called: "at s c = Guarded b \<Longrightarrow>
    client_step i c s (s\<lparr>at := (at s)(c := Dropping b)\<rparr>)"
| drop_round: "at s c = Dropping b \<Longrightarrow>
    compare_and_swap True False i (mem s) = (True, st) \<Longrightarrow>
    client_step i c s (s\<lparr>mem := st\<rparr>)"
| dropped: "at s c = Dropping b \<Longrightarrow>
    compare_and_swap True False i (mem s) = (False, st) \<Longrightarrow>
    client_step i c s (s\<lparr>mem := st, at := (at s)(c := Outside)\<rparr>)"

text \<open>
  With several worker threads any client makes the next step. With one worker, coroutines
  change places only where one of them yields, and \<open>drop\<close> does not.
\<close>

definition dropping :: "'a msys \<Rightarrow> nat \<Rightarrow> bool" where
  "dropping s c \<longleftrightarrow> (\<exists>b. at s c = Dropping b)"

definition workers_step :: "mid \<Rightarrow> 'a msys \<Rightarrow> 'a msys \<Rightarrow> bool" where
  "workers_step i s s' \<longleftrightarrow> (\<exists>c. client_step i c s s')"

definition one_worker_step :: "mid \<Rightarrow> 'a msys \<Rightarrow> 'a msys \<Rightarrow> bool" where
  "one_worker_step i s s' \<longleftrightarrow>
    (\<exists>c. client_step i c s s' \<and> (\<forall>c'. c' \<noteq> c \<longrightarrow> \<not> dropping s c'))"

definition msys_init :: "mid \<Rightarrow> 'a msys \<Rightarrow> bool" where
  "msys_init i s \<longleftrightarrow> (\<exists>d. mem s i = mutex_new d) \<and> at s = (\<lambda>_. Outside)"

lemmas mutex_defs = mutex_new_def compare_and_swap_def guard_new_def lock_round_def try_lock_def
  deref_def deref_mut_def poison_error_new_def into_inner_def get_ref_def get_mut_def

end
