(* ===== verification/Mutex_Test.thy ===== *)
theory Mutex_Test
  imports Cooperative Mutex_Model
begin

text \<open>
  The unit test of \<open>src/sync/mutex.rs\<close> as user code of the runtime: a coroutine spawns a
  hundred others, each of which locks one mutex ten times to add one to what it holds. What is
  proved of it for any number of threads is in \<open>Mutex_Test_Runs\<close>.
\<close>

section \<open>The program\<close>

text \<open>
  Where the code of a coroutine of the test is, at the grain of one access to the mutex:
  \<^item> \<open>Parent n\<close>, \<open>Printing n\<close>: in the outer loop with \<open>n\<close> iterations left, at the spawn, at
    \<open>println!\<close>;
  \<^item> \<open>Child k\<close>: at the head of the inner loop with \<open>k\<close> iterations left; all the others are in an
    iteration with \<open>k\<close> more to come;
  \<^item> \<open>Trying k a\<close>: in \<open>lock()\<close>, with \<open>a\<close> attempts left; \<open>Unwrapping k g\<close>: at the \<open>unwrap()\<close> of an \<open>Err\<close>,
    whose panic drops the guard \<open>g\<close> in it;
  \<^item> \<open>Reading k g\<close>, \<open>Writing k g v\<close>: in \<open>*guard += 1\<close>, which reads and writes; \<open>Leaving k g\<close>: in
    the \<open>drop\<close> of the guard.
\<close>

datatype test_point =
    Parent nat
  | Printing nat
  | Child nat
  | Trying nat nat
  | Unwrapping nat guard
  | Reading nat guard
  | Writing nat guard "32 word"
  | Leaving nat guard

type_synonym test_store = "32 word store"

text \<open>\<open>num\<close> is the mutex at address 0; the loops run 100 and 10 times.\<close>

definition num :: mid where "num = 0"

fun test_run :: "usize \<Rightarrow> test_point \<Rightarrow> test_store \<Rightarrow> test_point call \<times> test_store" where
  "test_run min_stack (Parent n) st =
    (if n = 0 then (Call_Return, st)
     else (Call_Spawn (Child 10) (options_default min_stack) (Printing (n - 1)), st))"
| "test_run min_stack (Printing n) st = (Call_Tau (Parent n), st)"
| "test_run min_stack (Child k) st =
    (if k = 0 then (Call_Return, st) else (Call_Tau (Trying (k - 1) POISON_RETRY_COUNT), st))"
| "test_run min_stack (Trying k a) st =
    (if a = 0 then (Call_Tau (Unwrapping k (get_ref (poison_error_new (guard_new num num)))), st)
     else case lock_round num st of
         (Some g, st') \<Rightarrow> (Call_Tau (Reading k g), st')
       | (None, st') \<Rightarrow> (Call_Sched (Trying k (a - 1)), st'))"
| "test_run min_stack (Unwrapping k g) st =
    (case compare_and_swap True False (guard_mutex g) st of
       (old, st') \<Rightarrow> if old then (Call_Tau (Unwrapping k g), st') else (Call_Panic poison_debug, st'))"
| "test_run min_stack (Reading k g) st = (Call_Tau (Writing k g (deref g st)), st)"
| "test_run min_stack (Writing k g v) st = (Call_Tau (Leaving k g), deref_mut g (\<lambda>_. v + 1) st)"
| "test_run min_stack (Leaving k g) st =
    (case compare_and_swap True False (guard_mutex g) st of
       (old, st') \<Rightarrow> if old then (Call_Tau (Leaving k g), st') else (Call_Tau (Child k), st'))"

text \<open>The thread of the test: before \<open>run\<close>, and the assertion after it.\<close>

definition test_store_new :: test_store where
  "test_store_new = (\<lambda>_. mutex_new 0)"

definition test_main ::
  "('q, 'sl, 'ev, 'pl, 'stk, test_point, test_store) env \<Rightarrow> usize \<Rightarrow>
   ('q, 'sl, 'ev, 'pl, 'stk, test_point, test_store) world option" where
  "test_main E min_stack =
    map_option (scheduler_spawn min_stack E 0 (Parent 100) Loop_Top) (world_init E test_store_new)"

text \<open>\<open>assert_eq!(*num.lock().unwrap(), 1000)\<close>; no other code runs any more.\<close>

definition test_passes :: "test_store \<Rightarrow> bool" where
  "test_passes st =
    (case lock id num st of (Inl _, _) \<Rightarrow> False | (Inr g, st') \<Rightarrow> deref g st' = 1000)"

lemma test_main_spawn:
  "test_main E min_stack =
    map_option (spawn_all E [(Parent 100, options_default min_stack)]) (world_init E test_store_new)"
  by (simp add: test_main_def scheduler_spawn_def fun_eq_iff cong: option.map_cong)

lemma test_passes_free:
  "\<not> lock_flag (st num) \<Longrightarrow> test_passes st \<longleftrightarrow> mdata (st num) = 1000"
proof -
  obtain a where "POISON_RETRY_COUNT = Suc a" by (metis POISON_RETRY_COUNT_def nat.exhaust zero_neq_numeral)
  then have "lock id num st = lock_loop id (Suc a) num st" by (simp only: lock_def)
  moreover assume "\<not> lock_flag (st num)"
  ultimately show ?thesis by (simp add: test_passes_def mutex_defs)
qed

lemma trying_out: "test_run min_stack (Trying k 0) st = (Call_Tau (Unwrapping k (guard_new num num)), st)"
  by (simp add: get_ref_def poison_error_new_def)

lemma trying_missed:
  "n \<noteq> 0 \<Longrightarrow> lock_flag (st num) \<Longrightarrow>
   test_run min_stack (Trying k n) st = (Call_Sched (Trying k (n - 1)), st)"
  by (simp add: lock_round_def compare_and_swap_def)

lemma trying_got:
  "n \<noteq> 0 \<Longrightarrow> \<not> lock_flag (st num) \<Longrightarrow> test_run min_stack (Trying k n) st =
     (Call_Tau (Reading k (guard_new num num)), st(num := (st num)\<lparr>lock_flag := True\<rparr>))"
  by (simp add: lock_round_def compare_and_swap_def)

section \<open>The increments still to come\<close>

fun todo :: "test_point \<Rightarrow> nat" where
  "todo (Parent n) = 10 * n"
| "todo (Printing n) = 10 * n"
| "todo (Child k) = k"
| "todo (Trying k a) = Suc k"
| "todo (Unwrapping k g) = 0"
| "todo (Reading k g) = Suc k"
| "todo (Writing k g v) = Suc k"
| "todo (Leaving k g) = k"

definition total :: "test_store \<Rightarrow> nat" where
  "total st = unat (mdata (st num))"

lemma unat_next: "unat v < 1000 \<Longrightarrow> unat (v + 1 :: 32 word) = Suc (unat v)"
  by (simp add: unat_word_ariths)

section \<open>One thread\<close>

text \<open>While none of them runs the mutex is free, and so is it found by the one that locks it.\<close>

definition free :: "test_store \<Rightarrow> bool" where
  "free st \<longleftrightarrow> \<not> lock_flag (st num)"

fun alone :: "test_point \<Rightarrow> test_store \<Rightarrow> bool" where
  "alone (Trying k a) st = (free st \<and> a = POISON_RETRY_COUNT)"
| "alone (Unwrapping k g) st = False"
| "alone (Reading k g) st = (g = guard_new num num)"
| "alone (Writing k g v) st = (g = guard_new num num \<and> v = mdata (st num))"
| "alone (Leaving k g) st = (g = guard_new num num)"
| "alone _ st = free st"

fun outside :: "test_point \<Rightarrow> bool" where
  "outside (Parent n) = True"
| "outside (Printing n) = True"
| "outside (Child k) = True"
| "outside _ = False"

interpretation test: cooperative "test_run min_stack" alone outside free total todo 1000 for min_stack
proof
  fix p st assume "outside p" "free st"
  then show "alone p st" by (cases p) simp_all
next
  fix p st assume J: "alone p st" and le: "total st + todo p \<le> 1000"
  then show "hands_over alone outside free total todo p st (test_run min_stack p st)"
  proof (cases p)
    case (Writing k g v)
    have "unat (mdata (st num) + 1) = Suc (unat (mdata (st num)))"
      by (rule unat_next) (use le Writing in \<open>simp add: total_def\<close>)
    then show ?thesis using J Writing by (simp add: hands_over_def mutex_defs total_def)
  qed (auto simp: hands_over_def mutex_defs free_def total_def POISON_RETRY_COUNT_def split: if_splits)
qed

end
