(* ===== verification/Lock_Starvation.thy ===== *)
theory Lock_Starvation
  imports Io_Starvation Mutex_Test
begin

text \<open>
  What polling only when nothing is ready does to \<open>Mutex::lock\<close>: on one thread, a coroutine that
  waits for I/O with a mutex locked cannot be woken while another tries to lock the mutex, so
  that one uses up all its attempts and is told that the mutex is poisoned.
\<close>

section \<open>Coroutines in lock\<close>

text \<open>
  \<open>L a\<close> is in the loop of \<open>lock()\<close> of the mutex \<open>i\<close>, with \<open>a\<close> attempts left, and goes on at \<open>G g\<close> when
  one succeeds; the unit test of the mutex has such code.
\<close>

definition locking :: "('q, 'sl, 'ev, 'pl, 'stk, 'p, 'a store) env \<Rightarrow> mid \<Rightarrow> (nat \<Rightarrow> 'p) \<Rightarrow>
    (guard \<Rightarrow> 'p) \<Rightarrow> bool" where
  "locking E i L G \<longleftrightarrow> (\<forall>a st. run E (L (Suc a)) st =
    (case lock_round i st of
       (Some g, st') \<Rightarrow> (Call_Tau (G g), st')
     | (None, st') \<Rightarrow> (Call_Sched (L a), st')))"

lemma test_locking: "run E = test_run min_stack \<Longrightarrow> locking E num (Trying k) (Reading k)"
  by (simp add: locking_def split: option.split prod.split)

lemma locking_missed:
  "locking E i L G \<Longrightarrow> lock_flag (st i) \<Longrightarrow> run E (L (Suc a)) st = (Call_Sched (L a), st)"
  by (simp add: locking_def lock_round_def compare_and_swap_def)

section \<open>One attempt\<close>

lemma waiting_step:
  assumes laws: "env_laws E" and r: "reachable E n w" and t: "t < run_threads n"
    and l: "\<not> polls (loc (threads w t))" and x: "pool_of E (run_threads n) w x = Some (p, Waiting)"
  shows "reachable E n (step E t w) \<and> pool_of E (run_threads n) (step E t w) x = Some (p, Waiting)"
proof -
  have r': "reachable E n (step E t w)" by (rule reach.reach_step [OF r sys_step.intros [OF t]])
  have inv: "inv E (run_threads n) {#} w" by (rule reachable_inv [OF laws r])
  show ?thesis
    using r' waiting_kept [OF laws inv reachable_inv [OF laws r'] t step_effect [OF laws inv t] l x] by blast
qed

text \<open>The one coroutine that is ready runs, and is in \<open>lock()\<close>.\<close>

definition attempt :: "('q, 'sl, 'ev, 'pl, 'stk, 'p, 'a store) env \<Rightarrow> (nat \<Rightarrow> 'p) \<Rightarrow> nat \<Rightarrow> 'a store \<Rightarrow>
    ptr \<Rightarrow> 'p \<Rightarrow> ('q, 'sl, 'ev, 'pl, 'stk, 'p, 'a store) world \<Rightarrow> bool" where
  "attempt E L a st x p w \<longleftrightarrow> reachable E 1 w \<and> loc (threads w 0) = Body (L a) \<and>
     bq_view E (global_queue w) = [] \<and> user w = st \<and>
     pool_of E (run_threads 1) w x = Some (p, Waiting)"

text \<open>It missed, was suspended and is in the queue again.\<close>

definition missed :: "('q, 'sl, 'ev, 'pl, 'stk, 'p, 'a store) env \<Rightarrow> (nat \<Rightarrow> 'p) \<Rightarrow> nat \<Rightarrow> 'a store \<Rightarrow>
    ptr \<Rightarrow> 'p \<Rightarrow> ptr \<Rightarrow> ('q, 'sl, 'ev, 'pl, 'stk, 'p, 'a store) world \<Rightarrow> bool" where
  "missed E L a st x p c w \<longleftrightarrow> reachable E 1 w \<and> loc (threads w 0) = Spawn_Check \<and>
     new_spawned (threads w 0) = None \<and> cur_running (threads w 0) = None \<and>
     bq_view E (global_queue w) = [c] \<and> ctx (the (heap w c)) = Some (Body (L a)) \<and> user w = st \<and>
     pool_of E (run_threads 1) w x = Some (p, Waiting)"

lemma attempt_missed:
  assumes laws: "env_laws E" "capacity_laws E" and code: "locking E i L G"
    and a: "attempt E L (Suc a) st x p w" and flag: "lock_flag (st i)"
  obtains c where "missed E L a st x p c (step E 0 (step E 0 w))"
proof -
  let ?w1 = "step E 0 w" let ?w2 = "step E 0 ?w1"
  let ?v = "upd 0 (\<lambda>th. th\<lparr>last_result := None\<rparr>) ?w1"
  have t: "0 < run_threads 1" by simp
  have r: "reachable E 1 w" and l: "loc (threads w 0) = Body (L (Suc a))"
    and q: "bq_view E (global_queue w) = []" and u: "user w = st"
    and x: "pool_of E (run_threads 1) w x = Some (p, Waiting)"
    using a by (simp_all add: attempt_def)
  have ns: "new_spawned (threads w 0) = None" by (rule body_new_spawned [OF laws(1) r t l])
  obtain c where rc: "runs_in c 0 w" using body_runs [OF reachable_inv [OF laws(1) r] t l] by blast
  have same: "w\<lparr>user := st\<rparr> = w" using u by (cases w) simp
  have 1: "?w1 = yielded (Inr Suspended) 0 c (Body (L a)) (After_Resume c) w"
    using l locking_missed [of E i L G st, OF code flag] u rc
    by (simp add: step_def call_defs yield_running same)
  note go = waiting_step [OF laws(1) _ t]
  have w1: "reachable E 1 ?w1 \<and> pool_of E (run_threads 1) ?w1 x = Some (p, Waiting)"
    using go [OF r _ x] l by simp
  have w2: "reachable E 1 ?w2 \<and> pool_of E (run_threads 1) ?w2 x = Some (p, Waiting)"
    using go [OF conjunct1 [OF w1] _ conjunct2 [OF w1]] by (simp add: 1)
  have "?w2 = ready E 0 c Spawn_Check ?v"
    by (subst (1) step_def) (simp add: 1 run_task_end_def resume_result_def)
  moreover have "length (bq_view E (global_queue ?w1)) < bq_cap E (global_queue ?w1)"
    using queue_capacity [OF laws(1,2) conjunct1 [OF w1]] laws(2) q
    by (simp add: 1 capacity_laws_def GLOBAL_QUEUE_SIZE_def)
  ultimately obtain q2 where 2: "?w2 = goto 0 Spawn_Check (?v\<lparr>global_queue := q2\<rparr>)" and q2: "bq_view E q2 = [c]"
    using ready_not_full [OF laws(1,2), of ?v 0 c Spawn_Check] q by (auto simp: 1)
  have "loc (threads ?w2 0) = Spawn_Check \<and> new_spawned (threads ?w2 0) = None \<and>
      cur_running (threads ?w2 0) = None \<and> bq_view E (global_queue ?w2) = [c] \<and> user ?w2 = st \<and>
      ctx (the (heap ?w2 c)) = Some (Body (L a))"
    unfolding 2 using ns u q2 by (simp add: 1 threads_goto)
  then show ?thesis using that w2 by (simp add: missed_def)
qed

lemma missed_again:
  assumes laws: "env_laws E" "responsive E F" and m: "missed E L a st x p c w"
  shows "attempt E L a st x p (step E 0 (step E 0 w))"
proof -
  let ?w1 = "step E 0 w" let ?w2 = "step E 0 ?w1"
  have t: "0 < run_threads 1" by simp
  have 1: "?w1 = goto 0 Loop_Top w" using m by (simp add: step_def missed_def schedule_spawned_def)
  note go = waiting_step [OF laws(1) _ t]
  have w1: "reachable E 1 ?w1 \<and> pool_of E (run_threads 1) ?w1 x = Some (p, Waiting)"
    using go [of w x p] m by (simp add: missed_def)
  have l1: "loc (threads ?w1 0) = Loop_Top" "cur_running (threads ?w1 0) = None"
    "bq_view E (global_queue ?w1) = [c]" "user ?w1 = st" "ctx (the (heap ?w1 c)) = Some (Body (L a))"
    using m by (simp_all add: 1 missed_def threads_goto)
  have "loc (threads ?w2 0) = Body (L a) \<and> bq_view E (global_queue ?w2) = [] \<and> user ?w2 = st"
    using step_effect [OF laws(1) reachable_inv [OF laws(1) conjunct1 [OF w1]] t]
  proof cases
    case (pop h q co' p')
    then show ?thesis using l1 by simp
  next
    case (pop_none q)
    then show ?thesis using pop_none_empty [OF laws(2) pop_none(2) l1(2) pop_none(1)] l1 by simp
  qed (use l1 in simp_all)
  moreover have "reachable E 1 ?w2 \<and> pool_of E (run_threads 1) ?w2 x = Some (p, Waiting)"
    using go [OF conjunct1 [OF w1] _ conjunct2 [OF w1]] l1 by simp
  ultimately show ?thesis by (simp add: attempt_def)
qed

lemma attempts_missed:
  assumes laws: "env_laws E" "capacity_laws E" "responsive E F" and code: "locking E i L G"
    and a: "attempt E L a st x p w" and flag: "lock_flag (st i)"
  shows "attempt E L 0 st x p ((step E 0 ^^ (4 * a)) w)"
  using a
proof (induction a arbitrary: w)
  case (Suc a)
  have "(step E 0 ^^ (4 * Suc a)) w = (step E 0 ^^ (4 * a)) (step E 0 (step E 0 (step E 0 (step E 0 w))))"
    by (simp add: funpow_swap1 eval_nat_numeral)
  then show ?case
    using Suc.IH attempt_missed [OF laws(1,2) code Suc.prems flag] missed_again [OF laws(1,3)] by metis
qed simp

text \<open>C14. A mutex held while its holder waits for I/O cannot be waited for on one thread: if the only
  coroutine that is ready calls \<open>lock\<close> while another has the mutex locked and waits for an event,
  then the event loop is not polled until \<open>lock\<close> has given up: after four steps for each of
  its \<open>POISON_RETRY_COUNT\<close> attempts it has none left and returns \<open>PoisonError\<close>, and the other
  still waits, even if its event came at once.\<close>

theorem lock_starves_holder:
  assumes "env_laws E" and "capacity_laws E" and "responsive E F" and "locking E i L G"
    and "reachable E 1 w" and "loc (threads w 0) = Body (L POISON_RETRY_COUNT)"
    and "bq_view E (global_queue w) = []" and "lock_flag (user w i)"
    and "pool_of E (run_threads 1) w x = Some (p, Waiting)"
  shows "let w' = (step E 0 ^^ (4 * POISON_RETRY_COUNT)) w in
    loc (threads w' 0) = Body (L 0) \<and> user w' = user w \<and>
    pool_of E (run_threads 1) w' x = Some (p, Waiting)"
proof -
  have "attempt E L POISON_RETRY_COUNT (user w) x p w" using assms by (simp add: attempt_def)
  from attempts_missed [OF assms(1-4) this assms(8)] show ?thesis by (simp add: attempt_def Let_def)
qed

text \<open>For the witness: a coroutine spawns one that locks the mutex 0 and waits, then locks it too.\<close>

datatype hold_point = Hold_Start | Hold_First | Hold_Wait | Hold_Done | Hold_Lock nat | Hold_Got guard

fun hold_run :: "hold_point \<Rightarrow> unit store \<Rightarrow> hold_point call \<times> unit store" where
  "hold_run Hold_Start st = (Call_Spawn Hold_First (options_new 64) (Hold_Lock POISON_RETRY_COUNT), st)"
| "hold_run Hold_First st = (Call_Tau Hold_Wait, snd (lock_round 0 st))"
| "hold_run Hold_Wait st = (Call_Wait 3 Readable (\<lambda>_. Hold_Done), st)"
| "hold_run Hold_Done st = (Call_Return, st)"
| "hold_run (Hold_Lock a) st = (if a = 0 then (Call_Return, st) else case lock_round 0 st of
     (Some g, st') \<Rightarrow> (Call_Tau (Hold_Got g), st') | (None, st') \<Rightarrow> (Call_Sched (Hold_Lock (a - 1)), st'))"
| "hold_run (Hold_Got g) st = (Call_Return, st)"

definition hold_world :: "(ptr list, (token \<times> ptr \<times> fd) list, token list, nat list, nat, hold_point, unit store) world" where
  "hold_world = (step (demo_with hold_run) 0 ^^ 11) (spawn_all (demo_with hold_run)
     [(Hold_Start, options_new 64)] (the (world_init (demo_with hold_run) (\<lambda>_. mutex_new ()))))"

theorem lock_starves_holder_witness:
  "loc (threads ((step (demo_with hold_run) 0 ^^ (4 * POISON_RETRY_COUNT)) hold_world) 0) = Body (Hold_Lock 0)"
proof -
  let ?E = "demo_with hold_run" and ?i = "\<lambda>_. mutex_new ()"
  have "world_init ?E ?i = Some (the (world_init ?E ?i))"
    by (simp add: world_init_def processor_new_def demo_with_def)
  then have "started ?E (spawn_all ?E [(Hold_Start, options_new 64)] (the (world_init ?E ?i)))"
    unfolding started_def by blast
  then have r: "reachable ?E 1 hold_world"
    unfolding hold_world_def by (intro reach_steps reach.reach_init) (simp_all add: run_threads_def)
  have code: "locking ?E 0 Hold_Lock Hold_Got" by (simp add: locking_def split: option.split prod.split)
  have at: "loc (threads hold_world 0) = Body (Hold_Lock POISON_RETRY_COUNT)"
    and q: "bq_view ?E (global_queue hold_world) = []" and flag: "lock_flag (user hold_world 0)"
    and x: "pool_of ?E (run_threads 1) hold_world 1 = Some (Hold_Done, Waiting)"
    by (simp_all add: hold_world_def demo_eval pool_of_def dying_def mode_of_def place_def body_of_def
        run_threads_def holds_def awaits_def slab_refs_def live_tokens_def lock_round_def
        compare_and_swap_def mutex_new_def)
  from lock_starves_holder [OF demo_with_laws demo_with_capacity_laws demo_with_responsive code r at q flag x]
  show ?thesis by (simp add: Let_def)
qed

end
