(* ===== verification/Simple_Example.thy ===== *)
theory Simple_Example
  imports Cooperative
begin

text \<open>
  \<open>examples/simple.rs\<close> as user code of the runtime: a coroutine that prints ten lines, under
  \<open>Scheduler::run(1)\<close>. The shared data is what has been printed.
\<close>

section \<open>The program\<close>

text \<open>The closure, with the iterations of its loop that are left.\<close>

fun simple_run :: "nat \<Rightarrow> string list \<Rightarrow> nat call \<times> string list" where
  "simple_run 0 out = (Call_Return, out)"
| "simple_run (Suc n) out = (Call_Tau n, out @ [''Heil Hydra''])"

definition simple_main ::
  "('q, 'sl, 'ev, 'pl, 'stk, nat, string list) env \<Rightarrow> usize \<Rightarrow>
   ('q, 'sl, 'ev, 'pl, 'stk, nat, string list) world option" where
  "simple_main E min_stack =
    map_option (scheduler_spawn min_stack E 0 10 Loop_Top) (world_init E [])"

lemma simple_main_spawn:
  "simple_main E min_stack =
    map_option (spawn_all E [(10, options_default min_stack)]) (world_init E [])"
  by (simp add: simple_main_def scheduler_spawn_def fun_eq_iff cong: option.map_cong)

section \<open>What it prints\<close>

definition hydra :: "string list \<Rightarrow> bool" where
  "hydra out \<longleftrightarrow> out = replicate (length out) ''Heil Hydra''"

lemma hydra_snoc: "hydra out \<Longrightarrow> hydra (out @ [''Heil Hydra''])"
  by (simp add: hydra_def) (metis replicate_append_same)

lemma hydra_length: "hydra out \<Longrightarrow> length out = n \<Longrightarrow> out = replicate n ''Heil Hydra''"
  unfolding hydra_def by metis

interpretation simple: cooperative simple_run "\<lambda>n. hydra" "\<lambda>n. True" hydra length id 10
proof
  fix n out assume "hydra out"
  then show "hands_over (\<lambda>n. hydra) (\<lambda>n. True) hydra length id n out (simple_run n out)"
    by (cases n) (auto simp: hands_over_def hydra_snoc)
qed

lemma simple_ends: "run E = simple_run \<Longrightarrow> ends E {} (\<lambda>n. True) Suc (\<lambda>n. 0) (\<lambda>out. 0)"
proof -
  assume "run E = simple_run"
  moreover have "call_ok {} (\<lambda>n. True) Suc (\<lambda>n. 0) (\<lambda>out. 0) n out (simple_run n out)" for n out
    by (cases n) (simp_all add: call_ok_def)
  ultimately show ?thesis by (simp add: ends_def)
qed

text \<open>C15. The example prints its line exactly ten times, and \<open>Scheduler::run(1)\<close> returns.\<close>

theorem simple_prints:
  assumes laws: "env_laws E" "capacity_laws E" "responsive E {}" and R: "run E = simple_run"
    and w: "simple_main E min_stack = Some w"
  shows "\<exists>k. run_returned 1 ((step E 0 ^^ k) w) \<and>
    user ((step E 0 ^^ k) w) = replicate 10 ''Heil Hydra''"
proof -
  obtain w0 where w0: "world_init E [] = Some w0"
    and w: "w = spawn_all E [(10, options_default min_stack)] w0"
    using assms(5) unfolding simple_main_spawn by blast
  have "fair (run_threads 1) (\<lambda>k. 0)" by (auto simp: fair_def run_threads_def)
  from run_ends [OF laws simple_ends [OF R] events_come_none w0 _ _ this, of 10 "options_default min_stack"]
  obtain k where k: "all_returned 1 ((step E 0 ^^ k) w)"
    unfolding w exec_same by (auto simp: GLOBAL_QUEUE_SIZE_def)
  have "reach (\<lambda>x. x = w) (sys_step E (Suc 0)) (exec (step E) (\<lambda>k. 0) k w)"
    by (rule exec_reach) simp
  from simple.returned [OF laws(1) R w0 _ _ _ this [unfolded w exec_same] k [unfolded w]]
  have "user ((step E 0 ^^ k) w) = replicate 10 ''Heil Hydra''"
    unfolding w by (intro hydra_length) (auto simp: hydra_def)
  moreover have "run_returned 1 ((step E 0 ^^ k) w)"
    using k by (simp add: all_returned_def run_returned_def list_all_iff)
  ultimately show ?thesis by blast
qed

theorem simple_prints_witness:
  "\<exists>k. user ((step (demo_with simple_run) 0 ^^ k) (the (simple_main (demo_with simple_run) 64)))
    = replicate 10 ''Heil Hydra''"
proof -
  have "responsive (demo_with simple_run) {}"
    using demo_with_responsive [of simple_run] by (simp add: responsive_def)
  moreover have "simple_main (demo_with simple_run) 64 = Some (the (simple_main (demo_with simple_run) 64))"
    by (simp add: simple_main_def world_init_def processor_new_def demo_with_def)
  ultimately show ?thesis
    using simple_prints [OF demo_with_laws demo_with_capacity_laws] demo_with_run by blast
qed

end
