(* ===== verification/Interleaved.thy ===== *)
theory Interleaved
  imports Run_Terminates
begin

text \<open>
  Invariants of user code under any interleaving: the locale \<open>interleaved\<close> takes a property of the
  points the coroutines are at and of the shared data, which one call of one coroutine keeps,
  and gives it for every state of every run, by the refinement of \<open>Coroutine_Spec\<close>.
\<close>

section \<open>The points of a pool\<close>

definition points :: "(ptr \<rightharpoonup> 'p \<times> mode) \<Rightarrow> ptr \<rightharpoonup> 'p" where
  "points P = map_option fst \<circ> P"

text \<open>Where the coroutines are after the coroutine \<open>c\<close> made the call \<open>q\<close>; a new one is \<open>d\<close>.\<close>

definition after_call :: "'p call \<Rightarrow> ptr \<Rightarrow> ptr \<Rightarrow> (ptr \<rightharpoonup> 'p) \<Rightarrow> (ptr \<rightharpoonup> 'p) \<Rightarrow> bool" where
  "after_call q c d P P' \<longleftrightarrow> (case q of
       Call_Tau p' \<Rightarrow> P' = P(c \<mapsto> p')
     | Call_Return \<Rightarrow> P' = P(c := None)
     | Call_Panic e \<Rightarrow> P' = P(c := None)
     | Call_Spawn f os p' \<Rightarrow> P' = P(c \<mapsto> p', d \<mapsto> f)
     | Call_Sched p' \<Rightarrow> P' = P(c \<mapsto> p')
     | Call_Block p' \<Rightarrow> P' = P(c \<mapsto> p')
     | Call_Wait fd i k \<Rightarrow> P' = P(c := None) \<or> (\<exists>r. P' = P(c \<mapsto> k r)))"

lemma points_upd [simp]:
  "points (P(c \<mapsto> (p, m))) = (points P)(c \<mapsto> p)" "points (P(c := None)) = (points P)(c := None)"
  by (auto simp: points_def fun_eq_iff)

lemma points_Some: "P c = Some (p, m) \<Longrightarrow> points P c = Some p"
  by (simp add: points_def)

lemma dom_points [simp]: "dom (points P) = dom P"
  by (auto simp: points_def)

lemma io_points: "io_change P P' \<Longrightarrow> points P' = points P"
proof
  fix c assume "io_change P P'"
  then have "P' c = P c \<or> (\<exists>p m. P c = Some (p, Waiting) \<and> P' c = Some (p, m))"
    by (simp add: io_change_def)
  then show "points P' c = points P c" by (auto simp: points_def)
qed

lemma spec_points:
  assumes "spec_step R a a'"
  shows "(points (pool a') = points (pool a) \<and> data a' = data a) \<or>
    (\<exists>c p q. points (pool a) c = Some p \<and> R p (data a) = (q, data a') \<and>
      after_call q c (fresh a) (points (pool a)) (points (pool a')))"
  using assms by cases (force simp: after_call_def io_points dest: points_Some)+

section \<open>Sums over a pool\<close>

definition tally :: "('p \<Rightarrow> nat) \<Rightarrow> (ptr \<rightharpoonup> 'p) \<Rightarrow> nat" where
  "tally g P = (\<Sum>c\<in>dom P. g (the (P c)))"

lemma tally_empty [simp]: "tally g Map.empty = 0"
  by (simp add: tally_def)

lemma tally_new: "finite (dom P) \<Longrightarrow> P d = None \<Longrightarrow> tally g (P(d \<mapsto> f)) = tally g P + g f"
proof -
  assume P: "finite (dom P)" "P d = None"
  have "(\<Sum>c\<in>dom P. g (the ((P(d \<mapsto> f)) c))) = (\<Sum>c\<in>dom P. g (the (P c)))"
    using P(2) by (intro sum.cong) auto
  then show ?thesis using P by (simp add: tally_def domIff)
qed

lemma tally_gone: "finite (dom P) \<Longrightarrow> P c = Some p \<Longrightarrow> tally g (P(c := None)) + g p = tally g P"
proof -
  assume P: "finite (dom P)" "P c = Some p"
  have "P = (P(c := None))(c \<mapsto> p)" using P(2) by auto
  then show ?thesis using tally_new [of "P(c := None)" c g p] P(1) by simp
qed

lemma tally_moved:
  "finite (dom P) \<Longrightarrow> P c = Some p \<Longrightarrow> tally g (P(c \<mapsto> p')) + g p = tally g P + g p'"
  using tally_gone [of P c p g] tally_new [of "P(c := None)" c g p'] by simp

section \<open>The rule\<close>

locale interleaved =
  fixes R :: "'p \<Rightarrow> 'u \<Rightarrow> 'p call \<times> 'u" and I :: "(ptr \<rightharpoonup> 'p) \<Rightarrow> 'u \<Rightarrow> bool"
  assumes call: "I P u \<Longrightarrow> finite (dom P) \<Longrightarrow> P c = Some p \<Longrightarrow> P d = None \<Longrightarrow>
    R p u = (q, u') \<Longrightarrow> after_call q c d P P' \<Longrightarrow> I P' u'"
begin

lemma step_keeps:
  assumes laws: "env_laws E" "run E = R" and w: "reachable E n w" and t: "t < run_threads n"
    and I: "I (points (pool_of E (run_threads n) w)) (user w)"
  shows "I (points (pool_of E (run_threads n) (step E t w))) (user (step E t w))"
proof -
  let ?a = "spec_of E (run_threads n) w" and ?a' = "spec_of E (run_threads n) (step E t w)"
  have inv: "inv E (run_threads n) {#} w" by (rule reachable_inv [OF laws(1) w])
  have sub: "dom (pool ?a) \<subseteq> dom (heap w)" by (auto simp: spec_of_def pool_of_def split: if_splits)
  have fin: "finite (dom (pool ?a))" by (rule finite_subset [OF sub heap_finite [OF inv]])
  have "next_ptr w \<notin> dom (heap w)" using inv by (auto simp: inv_def heap_ok_def)
  then have fresh: "points (pool ?a) (fresh ?a) = None" using sub by (auto simp: spec_of_def points_def)
  have "spec_step R ?a ?a'"
    using sim_step [OF laws(1) inv t body_new_spawned [OF laws(1) w t]] laws(2) by simp
  from spec_points [OF this] show ?thesis
    using I call [OF I] fin fresh by (auto simp: spec_of_def)
qed

lemma exec_keeps:
  assumes "env_laws E" and "run E = R" and "reachable E n w" and "fair (run_threads n) sch"
    and "I (points (pool_of E (run_threads n) w)) (user w)"
  shows "reachable E n (exec (step E) sch k w) \<and>
    I (points (pool_of E (run_threads n) (exec (step E) sch k w))) (user (exec (step E) sch k w))"
  using assms by (induction k) (auto intro: reach.reach_step sys_step.intros step_keeps fair_in)

lemma reach_keeps:
  assumes laws: "env_laws E" "run E = R" and w: "reachable E n w"
    and I: "I (points (pool_of E (run_threads n) w)) (user w)"
    and r: "reach (\<lambda>x. x = w) (sys_step E (run_threads n)) w'"
  shows "reachable E n w' \<and> I (points (pool_of E (run_threads n) w')) (user w')"
  using r
proof (rule reach_invariant)
  fix x x' assume "reachable E n x \<and> I (points (pool_of E (run_threads n) x)) (user x)"
    and st: "sys_step E (run_threads n) x x'"
  moreover obtain t where "t < run_threads n" "x' = step E t x" using st by (auto elim: sys_step.cases)
  ultimately show "reachable E n x' \<and> I (points (pool_of E (run_threads n) x')) (user x')"
    using step_keeps [OF laws] by (blast intro: reach.reach_step)
qed (use w I in simp)

text \<open>When the run has returned there is no coroutine any more.\<close>

lemma returned:
  assumes "env_laws E" and "run E = R" and "reachable E n w" and "fair (run_threads n) sch"
    and "I (points (pool_of E (run_threads n) w)) (user w)"
    and "all_returned n (exec (step E) sch k w)"
  shows "I Map.empty (user (exec (step E) sch k w))"
proof -
  have "points (pool_of E (run_threads n) (exec (step E) sch k w)) = Map.empty"
    using assms(6) by (simp add: points_def pool_of_def all_returned_def fun_eq_iff)
  then show ?thesis using exec_keeps [OF assms(1-5), of k] by simp
qed

end

end
