(* ===== verification/Mutex_Test_Runs.thy ===== *)
theory Mutex_Test_Runs
  imports Mutex_Test Interleaved
begin

text \<open>
  The unit test of the mutex on any number of threads: it always returns with the mutex free
  and at most 1000 counted, with one thread exactly 1000, and with ten perhaps fewer.
\<close>

section \<open>Its code ends\<close>

text \<open>The guards of the test are guards of \<open>num\<close>.\<close>

fun own_guard :: "test_point \<Rightarrow> bool" where
  "own_guard (Unwrapping k g) = (g = guard_new num num)"
| "own_guard (Reading k g) = (g = guard_new num num)"
| "own_guard (Writing k g v) = (g = guard_new num num)"
| "own_guard (Leaving k g) = (g = guard_new num num)"
| "own_guard _ = True"

text \<open>
  The calls left. A locked mutex is one more: unlocking it costs a round of the loop in \<open>drop\<close>
  without a change of the point.
\<close>

fun test_work :: "test_point \<Rightarrow> nat" where
  "test_work (Parent n) = n * (10 * (POISON_RETRY_COUNT + 10) + 4) + 1"
| "test_work (Printing n) = n * (10 * (POISON_RETRY_COUNT + 10) + 4) + 2"
| "test_work (Child k) = k * (POISON_RETRY_COUNT + 10) + 1"
| "test_work (Trying k a) = k * (POISON_RETRY_COUNT + 10) + a + 10"
| "test_work (Unwrapping k g) = 2"
| "test_work (Reading k g) = k * (POISON_RETRY_COUNT + 10) + 7"
| "test_work (Writing k g v) = k * (POISON_RETRY_COUNT + 10) + 6"
| "test_work (Leaving k g) = k * (POISON_RETRY_COUNT + 10) + 5"

fun test_kids :: "test_point \<Rightarrow> nat" where
  "test_kids (Parent n) = n"
| "test_kids (Printing n) = n"
| "test_kids _ = 0"

definition locked :: "test_store \<Rightarrow> nat" where
  "locked st = (if lock_flag (st num) then 1 else 0)"

lemma test_call_ok:
  assumes "own_guard p"
  shows "call_ok {} own_guard test_work test_kids locked p st (test_run min_stack p st)"
proof (cases p)
  case (Parent n)
  then show ?thesis by (cases n) (simp_all add: call_ok_def)
next
  case (Child k)
  then show ?thesis by (cases k) (simp_all add: call_ok_def)
next
  case (Trying k a)
  then show ?thesis by (cases a) (auto simp: call_ok_def mutex_defs locked_def)
qed (use assms in \<open>auto simp: call_ok_def mutex_defs locked_def\<close>)

lemma test_ends:
  "run E = test_run min_stack \<Longrightarrow> ends E {} own_guard test_work test_kids locked"
  by (simp add: ends_def test_call_ok)

section \<open>What holds under any interleaving\<close>

text \<open>Inside: between a lock and the end of the drop.\<close>

fun inside :: "test_point \<Rightarrow> bool" where
  "inside (Unwrapping k g) = True"
| "inside (Reading k g) = True"
| "inside (Writing k g v) = True"
| "inside (Leaving k g) = True"
| "inside _ = False"

text \<open>
  What can still be reached: the counter, or one more than a value some coroutine is about to
  write back, and the increments whose reading is still to come.
\<close>

fun unread :: "test_point \<Rightarrow> nat" where
  "unread (Writing k g v) = k"
| "unread p = todo p"

definition within :: "nat \<Rightarrow> (ptr \<rightharpoonup> test_point) \<Rightarrow> test_store \<Rightarrow> bool" where
  "within s P st \<longleftrightarrow> (\<exists>b. total st \<le> b \<and> (\<forall>c k g v. P c = Some (Writing k g v) \<longrightarrow> unat v < b) \<and>
    b + tally unread P \<le> s)"

definition tested :: "nat \<Rightarrow> (ptr \<rightharpoonup> test_point) \<Rightarrow> test_store \<Rightarrow> bool" where
  "tested s P st \<longleftrightarrow> s \<le> 1000 \<and> (\<forall>c p. P c = Some p \<longrightarrow> own_guard p) \<and>
    (lock_flag (st num) \<longrightarrow> (\<exists>c p. P c = Some p \<and> inside p)) \<and> within s P st"

lemma withinI:
  "total st \<le> b \<Longrightarrow> (\<And>c k g v. P c = Some (Writing k g v) \<Longrightarrow> unat v < b) \<Longrightarrow>
   b + tally unread P \<le> s \<Longrightarrow> within s P st"
  unfolding within_def by blast

lemma withinE:
  assumes "within s P st"
  obtains b where "total st \<le> b" "\<And>c k g v. P c = Some (Writing k g v) \<Longrightarrow> unat v < b"
    "b + tally unread P \<le> s"
  using assms unfolding within_def by blast

lemma within_move:
  assumes w: "within s P st" and fin: "finite (dom P)" and c: "P c = Some p"
    and u: "unread p' \<le> unread p" and v: "\<And>k g v. p' \<noteq> Writing k g v" and st: "total st' = total st"
  shows "within s (P(c \<mapsto> p')) st'"
proof -
  obtain b where b: "total st \<le> b" "\<And>c k g v. P c = Some (Writing k g v) \<Longrightarrow> unat v < b"
    "b + tally unread P \<le> s"
    using withinE [OF w] by blast
  have "b + tally unread (P(c \<mapsto> p')) \<le> s" using b(3) u tally_moved [OF fin c, of unread p'] by linarith
  then show ?thesis using b(1,2) v st by (intro withinI [of _ b]) (auto split: if_splits)
qed

lemma within_gone:
  assumes w: "within s P st" and fin: "finite (dom P)" and c: "P c = Some p" and st: "total st' = total st"
  shows "within s (P(c := None)) st'"
proof -
  obtain b where b: "total st \<le> b" "\<And>c k g v. P c = Some (Writing k g v) \<Longrightarrow> unat v < b"
    "b + tally unread P \<le> s"
    using withinE [OF w] by blast
  have "b + tally unread (P(c := None)) \<le> s" using b(3) tally_gone [OF fin c, of unread] by linarith
  then show ?thesis using b(1,2) st by (intro withinI [of _ b]) (auto split: if_splits)
qed

lemma within_spawn:
  assumes w: "within s P st" and fin: "finite (dom P)" and c: "P c = Some p" and d: "P d = None"
    and u: "unread p' + unread f \<le> unread p" and v: "\<And>k g v. p' \<noteq> Writing k g v \<and> f \<noteq> Writing k g v"
  shows "within s (P(c \<mapsto> p', d \<mapsto> f)) st"
proof -
  obtain b where b: "total st \<le> b" "\<And>c k g v. P c = Some (Writing k g v) \<Longrightarrow> unat v < b"
    "b + tally unread P \<le> s"
    using withinE [OF w] by blast
  have "d \<noteq> c" using c d by auto
  then have "tally unread (P(c \<mapsto> p', d \<mapsto> f)) = tally unread (P(c \<mapsto> p')) + unread f"
    using d fin by (intro tally_new) auto
  then have "b + tally unread (P(c \<mapsto> p', d \<mapsto> f)) \<le> s"
    using b(3) u tally_moved [OF fin c, of unread p'] by linarith
  then show ?thesis using b(1,2) v by (intro withinI [of _ b]) (auto split: if_splits)
qed

lemma within_read:
  assumes w: "within s P st" and fin: "finite (dom P)" and c: "P c = Some (Reading k g)"
  shows "within s (P(c \<mapsto> Writing k g' (mdata (st num)))) st"
proof -
  obtain b where b: "total st \<le> b" "\<And>c k g v. P c = Some (Writing k g v) \<Longrightarrow> unat v < b"
    "b + tally unread P \<le> s"
    using withinE [OF w] by blast
  have "Suc b + tally unread (P(c \<mapsto> Writing k g' (mdata (st num)))) \<le> s"
    using b(3) tally_moved [OF fin c, of unread "Writing k g' (mdata (st num))"] by simp
  then show ?thesis
    using b(1,2) by (intro withinI [of _ "Suc b"]) (auto simp: total_def less_Suc_eq split: if_splits)
qed

lemma within_write:
  assumes w: "within s P st" and s: "s \<le> 1000" and fin: "finite (dom P)"
    and c: "P c = Some (Writing k g v)" and st: "mdata (st' num) = v + 1"
  shows "within s (P(c \<mapsto> Leaving k g')) st'"
proof -
  obtain b where b: "total st \<le> b" "\<And>c k g v. P c = Some (Writing k g v) \<Longrightarrow> unat v < b"
    "b + tally unread P \<le> s"
    using withinE [OF w] by blast
  have "total st' \<le> b" using unat_next [of v] b(2) [OF c] b(3) s st by (simp add: total_def)
  moreover have "b + tally unread (P(c \<mapsto> Leaving k g')) \<le> s"
    using b(3) tally_moved [OF fin c, of unread "Leaving k g'"] by simp
  ultimately show ?thesis using b(2) by (intro withinI [of _ b]) (auto split: if_splits)
qed

lemma tested_move:
  assumes t: "tested s P st" and c: "P c = Some p" and w: "within s (P(c \<mapsto> p')) st'"
    and g: "own_guard p'"
    and l: "lock_flag (st' num) \<Longrightarrow> inside p' \<or> (lock_flag (st num) \<and> \<not> inside p)"
  shows "tested s (P(c \<mapsto> p')) st'"
proof -
  have "\<exists>d q. (P(c \<mapsto> p')) d = Some q \<and> inside q" if lock: "lock_flag (st' num)"
  proof (cases "inside p'")
    case False
    then have "lock_flag (st num)" "\<not> inside p" using l [OF lock] by simp_all
    moreover from this obtain d q where "P d = Some q" "inside q" using t unfolding tested_def by blast
    moreover have "d \<noteq> c" using calculation c by auto
    ultimately show ?thesis by (intro exI [of _ d] exI [of _ q]) simp
  qed auto
  then show ?thesis using t w g by (auto simp: tested_def)
qed

lemma tested_gone:
  assumes t: "tested s P st" and c: "P c = Some p" and w: "within s (P(c := None)) st'"
    and l: "lock_flag (st' num) \<Longrightarrow> lock_flag (st num) \<and> \<not> inside p"
  shows "tested s (P(c := None)) st'"
proof -
  have "\<exists>d q. (P(c := None)) d = Some q \<and> inside q" if lock: "lock_flag (st' num)"
  proof -
    obtain d q where "P d = Some q" "inside q" using t l [OF lock] unfolding tested_def by blast
    moreover have "d \<noteq> c" using calculation c l [OF lock] by auto
    ultimately show ?thesis by (intro exI [of _ d] exI [of _ q]) simp
  qed
  then show ?thesis using t w by (auto simp: tested_def)
qed

lemma tested_spawn:
  assumes t: "tested s P st" and c: "P c = Some p" and d: "P d = None"
    and w: "within s (P(c \<mapsto> p', d \<mapsto> f)) st" and g: "own_guard p'" "own_guard f" and p: "\<not> inside p"
  shows "tested s (P(c \<mapsto> p', d \<mapsto> f)) st"
proof -
  have "\<exists>e q. (P(c \<mapsto> p', d \<mapsto> f)) e = Some q \<and> inside q" if lock: "lock_flag (st num)"
  proof -
    obtain e q where "P e = Some q" "inside q" using t lock unfolding tested_def by blast
    moreover have "e \<noteq> c" "e \<noteq> d" using calculation c d p by auto
    ultimately show ?thesis by (intro exI [of _ e] exI [of _ q]) simp
  qed
  then show ?thesis using t w g by (auto simp: tested_def)
qed

interpretation tests: interleaved "test_run min_stack" "tested s" for min_stack s
proof
  fix P :: "ptr \<rightharpoonup> test_point" and st c p d q st' P'
  assume t: "tested s P st" and fin: "finite (dom P)" and c: "P c = Some p" and d: "P d = None"
    and r: "test_run min_stack p st = (q, st')" and a: "after_call q c d P P'"
  have own: "own_guard p" and w: "within s P st" and s: "s \<le> 1000" using t c by (auto simp: tested_def)
  note move = tested_move [OF t c] and moved = within_move [OF w fin c] and ac = after_call_def
  show "tested s P' st'"
  proof (cases p)
    case (Reading k g)
    have "P' = P(c \<mapsto> Writing k g (mdata (st num)))" "st' = st"
      using r a own Reading by (auto simp: ac mutex_defs)
    then show ?thesis
      using move [OF within_read [OF w fin c [unfolded Reading], of g]] own Reading by simp
  next
    case (Writing k g v)
    have "P' = P(c \<mapsto> Leaving k g)" "st' = deref_mut g (\<lambda>_. v + 1) st"
      using r a Writing by (auto simp: ac)
    then show ?thesis
      using move [OF within_write [OF w s fin c [unfolded Writing], of st' g]] own Writing
      by (simp add: mutex_defs)
  next
    case (Trying k n)
    note T = Trying and mv = move [OF moved, of _ st']
    consider "n = 0" | "n \<noteq> 0" "lock_flag (st num)" | "n \<noteq> 0" "\<not> lock_flag (st num)" by blast
    then show ?thesis
    proof cases
      case 1
      then have "P' = P(c \<mapsto> Unwrapping k (guard_new num num))" "st' = st"
        using r a by (auto simp: T trying_out ac simp del: test_run.simps)
      then show ?thesis using mv [of "Unwrapping k (guard_new num num)"] T by simp
    next
      case 2
      then have "P' = P(c \<mapsto> Trying k (n - 1))" "st' = st"
        using r a by (auto simp: T trying_missed ac simp del: test_run.simps)
      then show ?thesis using mv [of "Trying k (n - 1)"] T 2 by simp
    next
      case 3
      then have "P' = P(c \<mapsto> Reading k (guard_new num num))"
        "st' = st(num := (st num)\<lparr>lock_flag := True\<rparr>)"
        using r a by (auto simp: T trying_got ac simp del: test_run.simps)
      then show ?thesis using mv [of "Reading k (guard_new num num)"] T by (simp add: total_def)
    qed
  next
    case (Leaving k g)
    consider "lock_flag (st num)" "P' = P(c \<mapsto> Leaving k g)"
        "st' = st(num := (st num)\<lparr>lock_flag := False\<rparr>)"
      | "\<not> lock_flag (st num)" "P' = P(c \<mapsto> Child k)" "st' = st"
      using r a Leaving own by (auto simp: ac mutex_defs split: if_splits)
    then show ?thesis
      using move [OF moved, of _ st'] own Leaving by cases (simp_all add: total_def)
  next
    case (Unwrapping k g)
    consider "lock_flag (st num)" "P' = P(c \<mapsto> Unwrapping k g)"
        "st' = st(num := (st num)\<lparr>lock_flag := False\<rparr>)"
      | "\<not> lock_flag (st num)" "P' = P(c := None)" "st' = st"
      using r a Unwrapping own by (auto simp: ac mutex_defs split: if_splits)
    then show ?thesis
      using move [OF moved, of _ st'] tested_gone [OF t c within_gone [OF w fin c], of st'] own Unwrapping
      by cases (simp_all add: total_def)
  next
    case (Printing n)
    have "P' = P(c \<mapsto> Parent n)" "st' = st" using r a Printing by (auto simp: ac)
    then show ?thesis using move [OF moved, of _ st'] Printing by simp
  next
    case (Child k)
    have st: "st' = st" and "P' = (if k = 0 then P(c := None) else P(c \<mapsto> Trying (k - 1) POISON_RETRY_COUNT))"
      using r a Child by (auto simp: ac split: if_splits)
    then show ?thesis
      using move [OF moved, of _ st'] tested_gone [OF t c within_gone [OF w fin c], of st'] Child
      by (cases k) simp_all
  next
    case (Parent n)
    show ?thesis
    proof (cases n)
      case 0
      then have "P' = P(c := None)" "st' = st" using r a Parent by (auto simp: ac)
      then show ?thesis using tested_gone [OF t c within_gone [OF w fin c], of st'] Parent by simp
    next
      case (Suc m)
      then have "P' = P(c \<mapsto> Printing m, d \<mapsto> Child 10)" "st' = st" using r a Parent by (auto simp: ac)
      then show ?thesis using tested_spawn [OF t c d within_spawn [OF w fin c d]] Parent Suc by simp
    qed
  qed
qed

lemma tested_start:
  assumes laws: "env_laws E" and w: "test_main E min_stack = Some w"
  shows "tested 1000 (points (pool_of E (run_threads n) w)) (user w)" "reachable E n w"
proof -
  obtain w0 where w0: "world_init E test_store_new = Some w0"
    and eq: "w = spawn_all E [(Parent 100, options_default min_stack)] w0"
    using w unfolding test_main_spawn by blast
  have "spec_of E (run_threads n) w = \<lparr>pool = [0 \<mapsto> (Parent 100, Ready)], fresh = 1, data = test_store_new\<rparr>"
    unfolding eq by (rule spec_of_start [OF laws w0 run_threads_pos])
  then have "pool_of E (run_threads n) w = [0 \<mapsto> (Parent 100, Ready)]" "user w = test_store_new"
    by (simp_all add: spec_of_def)
  moreover have "within 1000 [0 \<mapsto> Parent 100] test_store_new"
    by (rule withinI [of _ 0])
      (simp_all add: total_def test_store_new_def mutex_new_def tally_def split: if_splits)
  ultimately show "tested 1000 (points (pool_of E (run_threads n) w)) (user w)"
    using points_upd(1) [of Map.empty]
    by (simp add: tested_def test_store_new_def mutex_new_def points_def split: if_splits)
  show "reachable E n w" by (rule reach_init) (unfold started_def, use w0 eq in blast)
qed

lemma test_underway:
  assumes laws: "env_laws E" "capacity_laws E" "responsive E {}" and R: "run E = test_run min_stack"
    and w: "test_main E min_stack = Some w"
  shows "underway (\<lambda>_. 0) E n {} own_guard test_work test_kids locked w"
proof -
  obtain w0 where w0: "world_init E test_store_new = Some w0"
    and eq: "w = spawn_all E [(Parent 100, options_default min_stack)] w0"
    using w unfolding test_main_spawn by blast
  have "orderly E (run_threads n) {} own_guard test_kids (Suc (test_kids (Parent 100))) w"
    unfolding eq by (rule orderly_start [OF laws(1) w0]) simp
  then have "orderly E (run_threads n) {} own_guard test_kids (unat GLOBAL_QUEUE_SIZE) w"
    by (rule orderly_mono) (simp add: GLOBAL_QUEUE_SIZE_def)
  then show ?thesis
    using laws test_ends [OF R] tested_start(2) [OF laws(1) w] by (simp add: underway_def)
qed

text \<open>What every fair run of the test ends in.\<close>

lemma test_returns:
  assumes laws: "env_laws E" "capacity_laws E" "responsive E {}" and R: "run E = test_run min_stack"
    and u: "underway (\<lambda>_. 0) E n {} own_guard test_work test_kids locked w"
    and t: "tested s (points (pool_of E (run_threads n) w)) (user w)"
    and fair: "fair (run_threads n) sch"
  shows "\<exists>k. all_returned n (exec (step E) sch k w) \<and>
    \<not> lock_flag (user (exec (step E) sch k w) num) \<and> total (user (exec (step E) sch k w)) \<le> s"
proof -
  obtain k where k: "all_returned n (exec (step E) sch k w)"
    using run.reaches_goal [OF fair u] by blast
  have "reachable E n w" using u by (simp add: underway_def)
  from tests.returned [OF laws(1) R this fair t k] show ?thesis
    using k by (auto simp: tested_def within_def)
qed

lemma returned_run: "all_returned n w \<Longrightarrow> run_returned n w"
  by (simp add: all_returned_def run_returned_def list_all_iff)

text \<open>C26. With any number of threads and under every fair schedule the test of the mutex gets to
  its assertion: \<open>run\<close> returns, the mutex is free, and at most 1000 has been counted, so the test
  passes iff no increment was lost.\<close>

theorem mutex_test_returns:
  assumes "env_laws E" and "capacity_laws E" and "responsive E {}" and "run E = test_run min_stack"
    and "test_main E min_stack = Some w" and "fair (run_threads n) sch"
  shows "\<exists>k. let st = user (exec (step E) sch k w) in run_returned n (exec (step E) sch k w) \<and>
    \<not> lock_flag (st num) \<and> unat (mdata (st num)) \<le> 1000 \<and> (test_passes st \<longleftrightarrow> mdata (st num) = 1000)"
proof -
  obtain k where "all_returned n (exec (step E) sch k w)"
    "\<not> lock_flag (user (exec (step E) sch k w) num)" "total (user (exec (step E) sch k w)) \<le> 1000"
    using test_returns [OF assms(1-4) test_underway [OF assms(1-5)] tested_start(1) [OF assms(1,5)] assms(6)]
    by blast
  then show ?thesis
    by (intro exI [of _ k]) (simp add: returned_run total_def test_passes_free Let_def)
qed

lemma test_demo_main:
  "test_main (demo_with (test_run 64)) 64 = Some (the (test_main (demo_with (test_run 64)) 64))"
  by (simp add: test_main_def world_init_def processor_new_def demo_with_def)

lemma test_demo_responsive: "responsive (demo_with r) {}"
  using demo_with_responsive [of r] by (simp add: responsive_def)

theorem mutex_test_returns_witness:
  "\<exists>k. run_returned 10 (exec (step (demo_with (test_run 64))) (\<lambda>j. j mod 10) k
     (the (test_main (demo_with (test_run 64)) 64)))"
proof -
  have "fair (run_threads 10) (\<lambda>j. j mod 10)" using round_robin_fair [of 10] by (simp add: run_threads_def)
  from mutex_test_returns [OF demo_with_laws demo_with_capacity_laws test_demo_responsive
      demo_with_run test_demo_main this] show ?thesis by (meson)
qed

text \<open>C27. With one thread no increment is lost: \<open>run(1)\<close> returns and the test passes.\<close>

theorem mutex_test_passes_alone:
  assumes "env_laws E" and "capacity_laws E" and "responsive E {}" and "run E = test_run min_stack"
    and "test_main E min_stack = Some w"
  shows "\<exists>k. run_returned 1 ((step E 0 ^^ k) w) \<and> test_passes (user ((step E 0 ^^ k) w))"
proof -
  obtain w0 where w0: "world_init E test_store_new = Some w0"
    and eq: "w = spawn_all E [(Parent 100, options_default min_stack)] w0"
    using assms(5) unfolding test_main_spawn by blast
  have fair: "fair (run_threads 1) (\<lambda>k. 0)" by (auto simp: fair_def run_threads_def)
  obtain k where k: "all_returned 1 ((step E 0 ^^ k) w)"
    using run.reaches_goal [OF fair test_underway [OF assms]] unfolding exec_same by blast
  have "reach (\<lambda>x. x = w) (sys_step E (Suc 0)) ((step E 0 ^^ k) w)"
    using exec_reach [of "\<lambda>k. 0" "Suc 0" w E k] by (simp add: exec_same)
  then have "free (user ((step E 0 ^^ k) w)) \<and> total (user ((step E 0 ^^ k) w)) = 1000"
    using test.returned [OF assms(1,4) w0 _ _ _ _ k, of "Parent 100" "options_default min_stack"]
    unfolding eq by (simp add: free_def total_def test_store_new_def mutex_new_def)
  then have "\<not> lock_flag (user ((step E 0 ^^ k) w) num)" "mdata (user ((step E 0 ^^ k) w) num) = 1000"
    by (auto simp: free_def total_def intro: word_unat_eq_iff [THEN iffD2])
  then show ?thesis using returned_run [OF k] by (auto simp: test_passes_free)
qed

theorem mutex_test_passes_alone_witness:
  "\<exists>k. test_passes (user ((step (demo_with (test_run 64)) 0 ^^ k)
     (the (test_main (demo_with (test_run 64)) 64))))"
  using mutex_test_passes_alone [OF demo_with_laws demo_with_capacity_laws test_demo_responsive
      demo_with_run test_demo_main] by blast

end
