(* ===== verification/Mutex_Test_Race.thy ===== *)
theory Mutex_Test_Race
  imports Mutex_Test_Runs
begin

text \<open>
  A schedule of ten threads, of which two get to run, under which the test of the mutex loses
  an increment, whatever comes after it.
\<close>

section \<open>The schedule\<close>

text \<open>
  Thread 0 runs the parent, which spawns a first child, which locks, counts and begins to drop
  its guard. Thread 1 takes the parent and runs a second child up to its lock. Thread 0
  unlocks; thread 1 locks; thread 0, still in the loop of \<open>drop\<close>, unlocks again, and locks for
  the next iteration of its child. Both read 1, and both write 2.
\<close>

definition race :: "tid list" where
  "race = [0, 0, 0, 0, 0, 0, 0, 0, 0, 0, 1, 1, 1, 1, 1, 1, 0, 1, 0, 0, 0, 0, 0, 1, 0, 1]"

text \<open>The packages of the demo, as rewrite rules that keep the rest of the record folded.\<close>

definition race_env ::
  "(ptr list, (token \<times> ptr \<times> fd) list, token list, nat list, nat, test_point, test_store) env" where
  "race_env = demo_with (test_run 64)"

definition race_main ::
  "(ptr list, (token \<times> ptr \<times> fd) list, token list, nat list, nat, test_point, test_store) world" where
  "race_main = the (test_main race_env 64)"

lemma race_ops:
  "bq_push race_env = (\<lambda>x q. if length q < 4096 then (Inr (), q @ [x]) else (Inl x, q))"
  "bq_pop race_env = (\<lambda>q. case q of [] \<Rightarrow> (None, []) | x # q' \<Rightarrow> (Some x, q'))"
  "slab_count race_env = (\<lambda>sl. length (remdups (map fst sl)))"
  "sp_take race_env = (\<lambda>n pool. case pool of [] \<Rightarrow> (unat n, []) | s # pool' \<Rightarrow> (s, pool'))"
  "run race_env = test_run 64" "el_new race_env = Inr []" "bq_new race_env = (\<lambda>n. [])"
  "slab_new race_env = (\<lambda>n. [])" "sp_new race_env = []" "bq_view race_env = (\<lambda>q. q)"
  by (simp_all add: race_env_def demo_with_def)

lemma retry_nonzero: "POISON_RETRY_COUNT \<noteq> 0"
  by (simp add: POISON_RETRY_COUNT_def)

lemmas race_eval = race_ops retry_nonzero race_main_def test_main_def scheduler_spawn_def
  options_default_def test_store_new_def world_init_def processor_new_def scheduler_queue_def
  io_handler_new_def processor.extend_def option_defs step_def upd_def goto_def enter_def
  sched_defs mutex_defs

text \<open>The world after it: both children in the \<open>drop\<close> of their guards, and 2 counted for three times.\<close>

definition race_thread ::
  "ptr option \<Rightarrow> test_point loc option \<Rightarrow> test_point loc \<Rightarrow>
   ((token \<times> ptr \<times> fd) list, token list, nat list, nat, test_point) thread" where
  "race_thread c k l =
    \<lparr>event_loop = [], slabs = [], main_coro = \<lparr>ctx = k, stack = None\<rparr>, cur_running = c,
     last_result = None, new_spawned = None, stack_pool = [], loc = l\<rparr>"

definition race_world ::
  "(ptr list, (token \<times> ptr \<times> fd) list, token list, nat list, nat, test_point, test_store) world" where
  "race_world = \<lparr>global_queue = [0], work_counts = 3,
     heap = [1 \<mapsto> \<lparr>ctx = Some (Body (Child 10)), stack = Some 64\<rparr>,
       Suc 1 \<mapsto> \<lparr>ctx = Some (Body (Child 10)), stack = Some 64\<rparr>,
       0 \<mapsto> \<lparr>ctx = Some (Body (Printing 98)), stack = Some 64\<rparr>],
     next_ptr = Suc (Suc 1),
     threads = (\<lambda>_. race_thread None None Loop_Top)
       (0 := race_thread (Some 1) (Some (After_Resume 1)) (Body (Leaving 8 (guard_new num num))),
        1 := race_thread (Some (Suc 1)) (Some (After_Resume (Suc 1))) (Body (Leaving 9 (guard_new num num)))),
     user = test_store_new(num := \<lparr>mdata = 2, lock_flag = True\<rparr>)\<rparr>"

lemma race_runs: "fold (step race_env) race race_main = race_world"
  unfolding race_def race_world_def race_thread_def
  by (simp add: race_eval)

lemma race_points:
  "points (pool_of race_env (run_threads 10) race_world) =
    [0 \<mapsto> Printing 98, 1 \<mapsto> Leaving 8 (guard_new num num), Suc 1 \<mapsto> Leaving 9 (guard_new num num)]"
proof
  fix c :: ptr
  have ts: "[0..<run_threads 10] = [0, 1, 2, 3, 4, 5, 6, 7, 8, 9]"
    by (simp add: run_threads_def upt_rec)
  have dy: "\<not> dying (run_threads 10) race_world c"
    by (auto simp: dying_def race_world_def race_thread_def split: if_splits)
  have pl: "place (run_threads 10) race_world c =
      (if c = 1 then Some (Leaving 8 (guard_new num num))
       else if c = Suc 1 then Some (Leaving 9 (guard_new num num))
       else if c = 0 then Some (Printing 98) else None)"
    unfolding place_def ts by (simp add: race_world_def race_thread_def)
  have h: "heap race_world c = None \<longleftrightarrow> c \<noteq> 0 \<and> c \<noteq> 1 \<and> c \<noteq> Suc 1"
    by (simp add: race_world_def)
  show "points (pool_of race_env (run_threads 10) race_world) c =
      [0 \<mapsto> Printing 98, 1 \<mapsto> Leaving 8 (guard_new num num), Suc 1 \<mapsto> Leaving 9 (guard_new num num)] c"
    unfolding points_def pool_of_def comp_apply using dy pl h by auto
qed

text \<open>One increment is lost for good: at most 999 can be counted.\<close>

lemma race_loses: "tested 999 (points (pool_of race_env (run_threads 10) race_world)) (user race_world)"
proof -
  let ?P = "[0 \<mapsto> Printing 98, 1 \<mapsto> Leaving 8 (guard_new num num), Suc 1 \<mapsto> Leaving 9 (guard_new num num)]
    :: ptr \<rightharpoonup> test_point"
  have "tally unread ?P = 997" by (simp add: tally_new)
  then have "within 999 ?P (user race_world)"
    by (intro withinI [of _ 2]) (auto simp: total_def race_world_def split: if_splits)
  moreover have "own_guard p" if "?P c = Some p" for c p using that by (auto split: if_splits)
  moreover have "?P 1 = Some (Leaving 8 (guard_new num num))" by simp
  then have "\<exists>c p. ?P c = Some p \<and> inside p" by (metis inside.simps(4))
  ultimately show ?thesis unfolding race_points tested_def by simp
qed

section \<open>Every continuation fails\<close>

lemma exec_fold:
  "(\<And>i. i < length xs \<Longrightarrow> sch i = xs ! i) \<Longrightarrow> exec f sch (length xs) s = fold f xs s"
  by (induction xs rule: rev_induct) (auto simp: nth_append)

lemma fair_after:
  assumes "fair n sch" and "set xs \<subseteq> {..<n}"
  shows "fair n (\<lambda>k. if k < length xs then xs ! k else sch k)"
  unfolding fair_def
proof (intro conjI allI impI)
  fix k show "(if k < length xs then xs ! k else sch k) < n"
    using fair_in [OF assms(1)] subsetD [OF assms(2) nth_mem] by auto
next
  fix t k assume "t < n"
  then obtain j where "max k (length xs) \<le> j" "sch j = t" using assms(1) unfolding fair_def by blast
  then show "\<exists>j\<ge>k. (if j < length xs then xs ! j else sch j) = t" by (intro exI [of _ j]) auto
qed

text \<open>C28. With ten threads, as the test is written, it can fail: there is a fair schedule under
  which \<open>run(10)\<close> returns and the assertion does not hold, because an increment is lost.\<close>

theorem mutex_test_can_fail:
  "\<exists>sch k. fair (run_threads 10) sch \<and> run_returned 10 (exec (step race_env) sch k race_main) \<and>
    \<not> test_passes (user (exec (step race_env) sch k race_main))"
proof -
  define sch where "sch = (\<lambda>k. if k < length race then race ! k else k mod 10)"
  have fair: "fair (run_threads 10) sch"
    unfolding sch_def by (rule fair_after)
      (use round_robin_fair [of 10] in \<open>auto simp: run_threads_def race_def\<close>)
  have laws: "env_laws race_env" "capacity_laws race_env" "responsive race_env {}"
    and R: "run race_env = test_run 64"
    by (simp_all add: race_env_def demo_with_laws demo_with_capacity_laws test_demo_responsive)
  have w: "test_main race_env 64 = Some race_main"
    using test_demo_main by (simp add: race_env_def race_main_def)
  have e: "exec (step race_env) sch (length race) race_main = race_world"
    using exec_fold [of race sch "step race_env" race_main] by (simp add: sch_def race_runs)
  have u: "underway (\<lambda>_. 0) race_env 10 {} own_guard test_work test_kids locked race_world"
    using underway_exec [OF test_underway [OF laws R w] fair, of "length race"] by (simp only: e)
  obtain k where k: "all_returned 10 (exec (step race_env) (\<lambda>j. sch (length race + j)) k race_world)"
    "\<not> lock_flag (user (exec (step race_env) (\<lambda>j. sch (length race + j)) k race_world) num)"
    "total (user (exec (step race_env) (\<lambda>j. sch (length race + j)) k race_world)) \<le> 999"
    using test_returns [OF laws R u race_loses fair_later [OF fair]] by blast
  then have "run_returned 10 (exec (step race_env) sch (length race + k) race_main)"
    "\<not> test_passes (user (exec (step race_env) sch (length race + k) race_main))"
    by (auto simp: exec_add e returned_run test_passes_free total_def)
  then show ?thesis using fair by blast
qed

end
