(* ===== verification/Looping.thy ===== *)
theory Looping
  imports Sched_Prelude
begin

text \<open>
  Loops that may not end. A loop of the crate is a \<open>partial_function (option)\<close>; its body says
  what one round does: go on in a new state (\<open>Inl\<close>), leave with a result (\<open>Inr\<close>), or never
  come back (\<open>None\<close>). The locale \<open>looping\<close> is the contract between the two, from which the
  number of rounds, invariants and termination follow once for all the loops.
\<close>

section \<open>Rounds of a loop\<close>

inductive runs :: "('s \<Rightarrow> ('s + 'r) option) \<Rightarrow> 's \<Rightarrow> 'r \<Rightarrow> bool" for body where
  leaves: "body s = Some (Inr r) \<Longrightarrow> runs body s r"
| goes_on: "body s = Some (Inl s') \<Longrightarrow> runs body s' r \<Longrightarrow> runs body s r"

text \<open>The state after \<open>n\<close> rounds that all went on.\<close>

primrec iterate :: "('s \<Rightarrow> ('s + 'r) option) \<Rightarrow> nat \<Rightarrow> 's \<Rightarrow> 's option" where
  "iterate body 0 s = Some s"
| "iterate body (Suc n) s =
    (case body s of Some (Inl s') \<Rightarrow> iterate body n s' | _ \<Rightarrow> None)"

lemma iterate_snoc:
  "iterate body n s = Some s' \<Longrightarrow>
   iterate body (Suc n) s = (case body s' of Some (Inl s'') \<Rightarrow> Some s'' | _ \<Rightarrow> None)"
proof (induction n arbitrary: s)
  case (Suc n)
  then obtain s1 where s1: "body s = Some (Inl s1)" "iterate body n s1 = Some s'"
    by (auto split: option.splits sum.splits)
  then have "iterate body (Suc (Suc n)) s = iterate body (Suc n) s1"
    by (simp only: iterate.simps option.case sum.case)
  then show ?case using Suc.IH [OF s1(2)] by simp
qed (simp split: option.split sum.split)

lemma iterate_None_mono: "iterate body n s = None \<Longrightarrow> iterate body (n + k) s = None"
  by (induction n arbitrary: s) (auto split: option.splits sum.splits)

lemma runs_iterate:
  "runs body s r \<longleftrightarrow> (\<exists>n s'. iterate body n s = Some s' \<and> body s' = Some (Inr r))"
proof
  assume "runs body s r"
  then show "\<exists>n s'. iterate body n s = Some s' \<and> body s' = Some (Inr r)"
  proof induction
    case (leaves s r)
    then show ?case by (intro exI [of _ 0]) simp
  next
    case (goes_on s s1 r)
    then obtain n s' where "iterate body n s1 = Some s'" "body s' = Some (Inr r)" by blast
    then show ?case using goes_on.hyps by (intro exI [of _ "Suc n"]) simp
  qed
next
  assume "\<exists>n s'. iterate body n s = Some s' \<and> body s' = Some (Inr r)"
  then obtain n s' where "iterate body n s = Some s'" "body s' = Some (Inr r)" by blast
  then show "runs body s r"
    by (induction n arbitrary: s) (auto intro: runs.intros split: option.splits sum.splits)
qed

lemma iterate_invariant:
  assumes "iterate body n s = Some s'" and "I s"
    and "\<And>s s'. I s \<Longrightarrow> body s = Some (Inl s') \<Longrightarrow> I s'"
  shows "I s'"
  using assms(1,2)
  by (induction n arbitrary: s) (auto intro: assms(3) split: option.splits sum.splits)

section \<open>The contract of a loop\<close>

locale looping =
  fixes loop :: "'s \<Rightarrow> 'r option"
    and body :: "'s \<Rightarrow> ('s + 'r) option"
  assumes stuck: "body s = None \<Longrightarrow> loop s = None"
    and continue: "body s = Some (Inl s') \<Longrightarrow> loop s = loop s'"
    and leave: "body s = Some (Inr r) \<Longrightarrow> loop s = Some r"
    and least: "loop s = Some r \<Longrightarrow> runs body s r"
begin

lemma loop_runs: "loop s = Some r \<longleftrightarrow> runs body s r"
proof
  assume "runs body s r"
  then show "loop s = Some r"
    by induction (simp_all add: continue leave)
qed (rule least)

lemma loop_iterate:
  "loop s = Some r \<longleftrightarrow> (\<exists>n s'. iterate body n s = Some s' \<and> body s' = Some (Inr r))"
  by (simp add: loop_runs runs_iterate)

lemma loop_iterate_eq: "iterate body n s = Some s' \<Longrightarrow> loop s = loop s'"
  by (induction n arbitrary: s) (auto simp: continue split: option.splits sum.splits)

text \<open>A loop does not return iff a round does not, or no round is the last.\<close>

lemma loop_None:
  "loop s = None \<longleftrightarrow>
    (\<exists>n s'. iterate body n s = Some s' \<and> body s' = None) \<or> (\<forall>n. iterate body n s \<noteq> None)"
proof
  assume none: "loop s = None"
  show "(\<exists>n s'. iterate body n s = Some s' \<and> body s' = None) \<or> (\<forall>n. iterate body n s \<noteq> None)"
  proof (rule disjCI)
    assume "\<not> (\<forall>n. iterate body n s \<noteq> None)"
    then obtain n where "iterate body n s = None" by blast
    then show "\<exists>n s'. iterate body n s = Some s' \<and> body s' = None"
    proof (induction n)
      case (Suc n)
      show ?case
      proof (cases "iterate body n s")
        case (Some s')
        then have "body s' = None \<or> (\<exists>r. body s' = Some (Inr r))"
          using Suc.prems iterate_snoc [OF Some] by (auto split: option.splits sum.splits)
        then show ?thesis using Some none loop_iterate [of s] by auto
      qed (rule Suc.IH)
    qed simp
  qed
next
  assume "(\<exists>n s'. iterate body n s = Some s' \<and> body s' = None) \<or> (\<forall>n. iterate body n s \<noteq> None)"
  then show "loop s = None"
  proof
    assume "\<exists>n s'. iterate body n s = Some s' \<and> body s' = None"
    then show ?thesis using loop_iterate_eq stuck by metis
  next
    assume all: "\<forall>n. iterate body n s \<noteq> None"
    show ?thesis
    proof (cases "loop s")
      case (Some r)
      then obtain n s' where "iterate body n s = Some s'" "body s' = Some (Inr r)"
        using loop_iterate by blast
      then have "iterate body (Suc n) s = None" using iterate_snoc [of body n s s'] by simp
      then show ?thesis using all by blast
    qed
  qed
qed

lemma loop_terminates:
  assumes "I s"
    and "\<And>s. I s \<Longrightarrow> body s \<noteq> None"
    and "\<And>s s'. I s \<Longrightarrow> body s = Some (Inl s') \<Longrightarrow> I s' \<and> m s' < (m s :: nat)"
  shows "\<exists>r. loop s = Some r"
  using assms(1)
proof (induction "m s" arbitrary: s rule: less_induct)
  case less
  show ?case
  proof (cases "body s")
    case None
    then show ?thesis using assms(2) less.prems by blast
  next
    case (Some x)
    then show ?thesis
      using less assms(3) [of s] by (cases x) (auto simp: continue leave)
  qed
qed

lemma loop_invariant:
  assumes "loop s = Some r" and "I s"
    and "\<And>s s'. I s \<Longrightarrow> body s = Some (Inl s') \<Longrightarrow> I s'"
    and "\<And>s r. I s \<Longrightarrow> body s = Some (Inr r) \<Longrightarrow> Q r"
  shows "Q r"
proof -
  from assms(1) have "runs body s r" by (rule least)
  then show ?thesis using assms(2) by induction (auto intro: assms(3,4))
qed

end

end
