(* ===== verification/Std_Write.thy ===== *)
theory Std_Write
  imports Looping "HOL-Library.Sublist"
begin

text \<open>
  The parts of \<open>std::io\<close> that the HTTP server and the echo servers run on: \<open>Write::write_all\<close>,
  the pieces of \<open>write!\<close>, and \<open>BufWriter\<close>. A writer is its \<open>write\<close> function, which takes the
  bytes and the state and may never return (\<open>None\<close>).
\<close>

section \<open>write_all\<close>

type_synonym byte = "8 word"

type_synonym 's writing = "byte list \<Rightarrow> 's \<Rightarrow> (usize io_result \<times> 's) option"

text \<open>Short writes and interrupted ones are repeated; a write of nothing is an error.\<close>

partial_function (option) write_all ::
  "'s writing \<Rightarrow> byte list \<Rightarrow> 's \<Rightarrow> (unit io_result \<times> 's) option" where
  "write_all wr buf s =
    (if buf = [] then Some (Inr (), s)
     else case wr buf s of
       None \<Rightarrow> None
     | Some (Inr n, s') \<Rightarrow>
         if n = 0 then Some (Inl (Io_Error WriteZero ''failed to write whole buffer''), s')
         else write_all wr (drop (unat n) buf) s'
     | Some (Inl e, s') \<Rightarrow>
         if kind e = Interrupted then write_all wr buf s' else Some (Inl e, s'))"

text \<open>\<open>write!\<close> writes the pieces of the format in turn and stops at the first error.\<close>

fun write_pieces ::
  "(byte list \<Rightarrow> 's \<Rightarrow> (unit io_result \<times> 's) option) \<Rightarrow> byte list list \<Rightarrow> 's \<Rightarrow>
   (unit io_result \<times> 's) option" where
  "write_pieces wa [] s = Some (Inr (), s)"
| "write_pieces wa (p # ps) s =
    (case wa p s of
       None \<Rightarrow> None
     | Some (Inl e, s') \<Rightarrow> Some (Inl e, s')
     | Some (Inr _, s') \<Rightarrow> write_pieces wa ps s')"

text \<open>A string literal is its bytes.\<close>

definition str_bytes :: "string \<Rightarrow> byte list" where
  "str_bytes s = map of_char s"

section \<open>BufWriter\<close>

text \<open>
  The state of a buffered writer is its buffer and the state of the writer inside; \<open>cap\<close> is
  its capacity. \<open>flush_buf\<close> drops what was written before an error.
\<close>

partial_function (option) flush_buf ::
  "'s writing \<Rightarrow> byte list \<times> 's \<Rightarrow> (unit io_result \<times> byte list \<times> 's) option" where
  "flush_buf wr bs =
    (if fst bs = [] then Some (Inr (), bs)
     else case wr (fst bs) (snd bs) of
       None \<Rightarrow> None
     | Some (Inr n, s') \<Rightarrow>
         if n = 0
         then Some (Inl (Io_Error WriteZero ''failed to write the buffered data''), fst bs, s')
         else flush_buf wr (drop (unat n) (fst bs), s')
     | Some (Inl e, s') \<Rightarrow>
         if kind e = Interrupted then flush_buf wr (fst bs, s') else Some (Inl e, fst bs, s'))"

definition buf_write :: "nat \<Rightarrow> 's writing \<Rightarrow> (byte list \<times> 's) writing" where
  "buf_write cap wr p bs =
    (case (if length (fst bs) + length p > cap then flush_buf wr bs else Some (Inr (), bs)) of
       None \<Rightarrow> None
     | Some (Inl e, bs') \<Rightarrow> Some (Inl e, bs')
     | Some (Inr _, b, s) \<Rightarrow>
         if length p \<ge> cap
         then (case wr p s of None \<Rightarrow> None | Some (r, s') \<Rightarrow> Some (r, b, s'))
         else Some (Inr (of_nat (length p)), b @ p, s))"

text \<open>Small numbers as words.\<close>

lemma unat_small: "k \<le> 4 \<Longrightarrow> unat (of_nat k :: usize) = k"
  by (simp add: unat_of_nat take_bit_nat_eq_self)

lemma of_nat_small: "k \<le> 4 \<Longrightarrow> (of_nat k :: usize) = 0 \<longleftrightarrow> k = 0"
  using unat_small [of k] by (cases "k = 0") auto

section \<open>A buffered writer with room keeps its bytes\<close>

lemma write_all_Nil [simp]: "write_all wr [] s = Some (Inr (), s)"
  by (simp add: write_all.simps)

lemma buf_write_room:
  "length b + length p \<le> cap \<Longrightarrow> length p < cap \<Longrightarrow>
   buf_write cap wr p (b, s) = Some (Inr (of_nat (length p)), b @ p, s)"
  by (simp add: buf_write_def)

lemma buf_write_all_room:
  assumes "length b + length p \<le> cap" and "length p < cap" and "cap < 2 ^ 64"
  shows "write_all (buf_write cap wr) p (b, s) = Some (Inr (), b @ p, s)"
proof (cases "p = []")
  case False
  have len: "unat (of_nat (length p) :: usize) = length p"
    using assms(2,3) by (simp add: unat_of_nat take_bit_nat_eq_self)
  then have "(of_nat (length p) :: usize) \<noteq> 0"
    using False by (metis length_0_conv unat_0)
  then show ?thesis
    using False assms(1,2) len by (subst write_all.simps) (simp add: buf_write_room)
qed simp

lemma write_pieces_room:
  assumes "length b + length (concat ps) \<le> cap" and "length (concat ps) < cap" and "cap < 2 ^ 64"
  shows "write_pieces (write_all (buf_write cap wr)) ps (b, s) = Some (Inr (), b @ concat ps, s)"
  using assms by (induction ps arbitrary: b) (simp_all add: buf_write_all_room)

section \<open>The loops under their contract\<close>

definition write_all_body ::
  "'s writing \<Rightarrow> byte list \<times> 's \<Rightarrow> ((byte list \<times> 's) + (unit io_result \<times> 's)) option" where
  "write_all_body wr bs =
    (if fst bs = [] then Some (Inr (Inr (), snd bs))
     else case wr (fst bs) (snd bs) of
       None \<Rightarrow> None
     | Some (Inr n, s') \<Rightarrow>
         if n = 0
         then Some (Inr (Inl (Io_Error WriteZero ''failed to write whole buffer''), s'))
         else Some (Inl (drop (unat n) (fst bs), s'))
     | Some (Inl e, s') \<Rightarrow>
         if kind e = Interrupted then Some (Inl (fst bs, s')) else Some (Inr (Inl e, s')))"

lemma write_all_runs:
  assumes "write_all wr p s = Some r"
  shows "runs (write_all_body wr) (p, s) r"
  by (rule write_all.raw_induct [OF _ assms, of "\<lambda>wr p s r. runs (write_all_body wr) (p, s) r"])
    (auto simp: write_all_body_def intro: runs.intros
      split: if_splits option.splits sum.splits prod.splits)

interpretation wa: looping "\<lambda>(p, s). write_all wr p s" "write_all_body wr" for wr
proof
  fix s :: "byte list \<times> 'a" and r
  assume "(case s of (p, s) \<Rightarrow> write_all wr p s) = Some r"
  then show "runs (write_all_body wr) s r" by (cases s) (simp add: write_all_runs)
qed (subst (asm) write_all_body_def; subst (1) write_all.simps;
  auto split: if_splits option.splits sum.splits prod.splits)+

definition flush_buf_body ::
  "'s writing \<Rightarrow> byte list \<times> 's \<Rightarrow> ((byte list \<times> 's) + (unit io_result \<times> byte list \<times> 's)) option" where
  "flush_buf_body wr bs =
    (if fst bs = [] then Some (Inr (Inr (), bs))
     else case wr (fst bs) (snd bs) of
       None \<Rightarrow> None
     | Some (Inr n, s') \<Rightarrow>
         if n = 0
         then Some (Inr (Inl (Io_Error WriteZero ''failed to write the buffered data''), fst bs, s'))
         else Some (Inl (drop (unat n) (fst bs), s'))
     | Some (Inl e, s') \<Rightarrow>
         if kind e = Interrupted then Some (Inl (fst bs, s')) else Some (Inr (Inl e, fst bs, s')))"

lemma flush_buf_runs:
  assumes "flush_buf wr bs = Some r"
  shows "runs (flush_buf_body wr) bs r"
  by (rule flush_buf.raw_induct [OF _ assms, of "\<lambda>wr bs r. runs (flush_buf_body wr) bs r"])
    (auto simp: flush_buf_body_def intro: runs.intros
      split: if_splits option.splits sum.splits prod.splits)

interpretation fb: looping "flush_buf wr" "flush_buf_body wr" for wr
proof
  fix s :: "byte list \<times> 'a" and r
  assume "flush_buf wr s = Some r"
  then show "runs (flush_buf_body wr) s r" by (rule flush_buf_runs)
qed (subst (asm) flush_buf_body_def; subst (1) flush_buf.simps;
  auto split: if_splits option.splits sum.splits prod.splits)+

section \<open>What a writer has been given\<close>

text \<open>
  \<open>delivers out wr\<close>: a write that returns a number has appended that many of its bytes to the
  output, at most all of them; one that fails has appended nothing.
\<close>

definition delivers :: "('s \<Rightarrow> byte list) \<Rightarrow> 's writing \<Rightarrow> bool" where
  "delivers out wr \<longleftrightarrow>
    (\<forall>p s n s'. wr p s = Some (Inr n, s') \<longrightarrow>
      unat n \<le> length p \<and> out s' = out s @ take (unat n) p) \<and>
    (\<forall>p s e s'. wr p s = Some (Inl e, s') \<longrightarrow> out s' = out s)"

lemma delivers_ok:
  "delivers out wr \<Longrightarrow> wr p s = Some (Inr n, s') \<Longrightarrow>
   unat n \<le> length p \<and> out s' = out s @ take (unat n) p"
  unfolding delivers_def by blast

lemma delivers_err: "delivers out wr \<Longrightarrow> wr p s = Some (Inl e, s') \<Longrightarrow> out s' = out s"
  unfolding delivers_def by blast

text \<open>What is still to write, after what has been written, is what there was to write.\<close>

lemma write_all_body_goes_on:
  assumes "delivers out wr" and "write_all_body wr (p, s) = Some (Inl (p', s'))"
  shows "out s' @ p' = out s @ p"
  using assms(2)
  by (auto simp: write_all_body_def dest!: delivers_ok [OF assms(1)] delivers_err [OF assms(1)]
      split: if_splits option.splits sum.splits prod.splits)

lemma write_all_body_leaves:
  assumes "delivers out wr" and "write_all_body wr (p, s) = Some (Inr (r, s'))"
  shows "\<exists>q. out s @ p = out s' @ q \<and> (r = Inr () \<longrightarrow> q = [])"
  using assms(2)
  by (auto simp: write_all_body_def dest!: delivers_ok [OF assms(1)] delivers_err [OF assms(1)]
      split: if_splits option.splits sum.splits prod.splits)

lemma write_all_delivers:
  assumes "delivers out wr" and "write_all wr p s = Some (r, s')"
  shows "\<exists>q. out s @ p = out s' @ q \<and> (r = Inr () \<longrightarrow> q = [])"
proof -
  let ?I = "\<lambda>(p', t). out t @ p' = out s @ p"
  let ?Q = "\<lambda>(r, t). \<exists>q. out s @ p = out t @ q \<and> (r = Inr () \<longrightarrow> q = [])"
  have "?Q (r, s')"
  proof (rule wa.loop_invariant [of wr "(p, s)" _ ?I])
    show "(case (p, s) of (p, s) \<Rightarrow> write_all wr p s) = Some (r, s')" using assms(2) by simp
    show "?I b'" if "?I b" "write_all_body wr b = Some (Inl b')" for b b'
      using that write_all_body_goes_on [OF assms(1), of "fst b" "snd b" "fst b'" "snd b'"]
      by (simp add: split_beta)
    show "?Q y" if "?I b" "write_all_body wr b = Some (Inr y)" for b y
      using that write_all_body_leaves [OF assms(1), of "fst b" "snd b" "fst y" "snd y"]
      by (simp add: split_beta)
  qed simp
  then show ?thesis by simp
qed

lemma write_all_extends:
  assumes "delivers out wr" and "write_all wr p s = Some (r, s')"
  shows "prefix (out s) (out s')"
proof -
  have on: "prefix (out s) (out (snd b'))"
    if "write_all_body wr b = Some (Inl b')" "prefix (out s) (out (snd b))" for b b'
    using that
    by (auto simp: write_all_body_def dest!: delivers_ok [OF assms(1)] delivers_err [OF assms(1)]
        split: if_splits option.splits sum.splits prod.splits)
  have "prefix (out s) (out (snd y))"
    if "write_all_body wr b = Some (Inr y)" "prefix (out s) (out (snd b))" for b y
    using that
    by (auto simp: write_all_body_def dest!: delivers_ok [OF assms(1)] delivers_err [OF assms(1)]
        split: if_splits option.splits sum.splits prod.splits)
  from wa.loop_invariant [of wr "(p, s)" "(r, s')" "\<lambda>b. prefix (out s) (out (snd b))"
      "\<lambda>y. prefix (out s) (out (snd y))", OF _ _ on this]
  show ?thesis using assms(2) by simp
qed

lemma flush_buf_body_goes_on:
  assumes "delivers out wr" and "flush_buf_body wr (p, s) = Some (Inl (p', s'))"
  shows "out s' @ p' = out s @ p"
  using assms(2)
  by (auto simp: flush_buf_body_def dest!: delivers_ok [OF assms(1)] delivers_err [OF assms(1)]
      split: if_splits option.splits sum.splits prod.splits)

lemma flush_buf_body_leaves:
  assumes "delivers out wr" and "flush_buf_body wr (p, s) = Some (Inr (r, q, s'))"
  shows "out s @ p = out s' @ q \<and> (r = Inr () \<longrightarrow> q = [])"
  using assms(2)
  by (auto simp: flush_buf_body_def dest!: delivers_ok [OF assms(1)] delivers_err [OF assms(1)]
      split: if_splits option.splits sum.splits prod.splits)

text \<open>A buffered writer loses nothing: the output followed by the buffer is what was given.\<close>

lemma flush_buf_delivers:
  assumes "delivers out wr" and "flush_buf wr (p, s) = Some (r, q, s')"
  shows "out s @ p = out s' @ q \<and> (r = Inr () \<longrightarrow> q = [])"
proof -
  let ?I = "\<lambda>(p', t). out t @ p' = out s @ p"
  let ?Q = "\<lambda>(r, q, t). out s @ p = out t @ q \<and> (r = Inr () \<longrightarrow> q = [])"
  have "?Q (r, q, s')"
  proof (rule fb.loop_invariant [OF assms(2), of ?I])
    show "?I b'" if "?I b" "flush_buf_body wr b = Some (Inl b')" for b b'
      using that flush_buf_body_goes_on [OF assms(1), of "fst b" "snd b" "fst b'" "snd b'"]
      by (simp add: split_beta)
    show "?Q y" if "?I b" "flush_buf_body wr b = Some (Inr y)" for b y
      using that flush_buf_body_leaves [OF assms(1), of "fst b" "snd b" "fst y" "fst (snd y)" "snd (snd y)"]
      by (simp add: split_beta)
  qed simp
  then show ?thesis by simp
qed

text \<open>So does the buffered writer itself, with the buffer counted as written.\<close>

definition buffered_out :: "('s \<Rightarrow> byte list) \<Rightarrow> byte list \<times> 's \<Rightarrow> byte list" where
  "buffered_out out bs = out (snd bs) @ fst bs"

lemma buf_write_flush:
  assumes "delivers out wr"
    and "(if length b + length p > cap then flush_buf wr (b, s) else Some (Inr (), b, s)) =
      Some (r1, b1, s1)"
  shows "out s1 @ b1 = out s @ b" and "r1 = Inr () \<Longrightarrow> cap \<le> length p \<Longrightarrow> b1 = []"
proof -
  show "out s1 @ b1 = out s @ b"
    using assms(2) flush_buf_delivers [OF assms(1), of b s r1 b1 s1] by (auto split: if_splits)
  assume r1: "r1 = Inr ()" and p: "cap \<le> length p"
  show "b1 = []"
  proof (cases "length b + length p > cap")
    case True
    then show ?thesis using assms(2) r1 flush_buf_delivers [OF assms(1), of b s r1 b1 s1] by simp
  next
    case False
    then have "length b = 0" using p by linarith
    then show ?thesis using False assms(2) by simp
  qed
qed

lemma buf_write_out:
  assumes "delivers out wr" and "cap < 2 ^ 64"
    and call: "buf_write cap wr p (b, s) = Some (r, bs')"
  shows "case r of
      Inr n \<Rightarrow> unat n \<le> length p \<and> buffered_out out bs' = out s @ b @ take (unat n) p
    | Inl e \<Rightarrow> buffered_out out bs' = out s @ b"
proof -
  obtain r1 b1 s1 where first: "(if length b + length p > cap then flush_buf wr (b, s)
      else Some (Inr (), b, s)) = Some (r1, b1, s1)"
    using call by (auto simp: buf_write_def split: option.splits prod.splits if_splits)
  note flushed = buf_write_flush [OF assms(1) first]
  show ?thesis
  proof (cases r1)
    case (Inl e)
    then show ?thesis
      using call flushed(1) unfolding buf_write_def fst_conv snd_conv first
      by (auto simp: buffered_out_def)
  next
    case (Inr u)
    then have direct: "(if length p \<ge> cap
        then (case wr p s1 of None \<Rightarrow> None | Some (r, s') \<Rightarrow> Some (r, b1, s'))
        else Some (Inr (of_nat (length p)), b1 @ p, s1)) = Some (r, bs')"
      using call unfolding buf_write_def fst_conv snd_conv first by simp
    show ?thesis
    proof (cases "length p \<ge> cap")
      case True
      then obtain s2 where "wr p s1 = Some (r, s2)" "bs' = (b1, s2)"
        using direct by (auto split: option.splits)
      then show ?thesis
        using True Inr flushed
        by (auto simp: buffered_out_def split: sum.split
            dest: delivers_ok [OF assms(1)] delivers_err [OF assms(1)])
    next
      case False
      then have "unat (of_nat (length p) :: usize) = length p"
        using assms(2) by (simp add: unat_of_nat take_bit_nat_eq_self)
      then show ?thesis using False direct flushed(1) by (auto simp: buffered_out_def)
    qed
  qed
qed

lemma buf_write_delivers:
  assumes "delivers out wr" and "cap < 2 ^ 64"
  shows "delivers (buffered_out out) (buf_write cap wr)"
  unfolding delivers_def using buf_write_out [OF assms] by (fastforce simp: buffered_out_def)

lemma write_pieces_delivers:
  assumes "delivers out wr" and "write_pieces (write_all wr) ps s = Some (r, s')"
  shows "\<exists>q. out s @ concat ps = out s' @ q \<and> (r = Inr () \<longrightarrow> q = [])"
  using assms(2)
proof (induction ps arbitrary: s)
  case (Cons p ps)
  then obtain r1 s1 where first: "write_all wr p s = Some (r1, s1)"
    by (auto split: option.splits)
  obtain q where q: "out s @ p = out s1 @ q" "r1 = Inr () \<longrightarrow> q = []"
    using write_all_delivers [OF assms(1) first] by blast
  show ?case
  proof (cases r1)
    case (Inl e)
    then show ?thesis using Cons.prems first q by (auto intro!: exI [of _ "q @ concat ps"])
  next
    case (Inr u)
    then have "write_pieces (write_all wr) ps s1 = Some (r, s')" "out s1 = out s @ p"
      using Cons.prems first q by auto
    then show ?thesis using Cons.IH [of s1] by simp
  qed
qed simp

section \<open>What writing leaves unchanged\<close>

definition preserves :: "('s \<Rightarrow> bool) \<Rightarrow> 's writing \<Rightarrow> bool" where
  "preserves P wr \<longleftrightarrow> (\<forall>p s r s'. wr p s = Some (r, s') \<longrightarrow> P s \<longrightarrow> P s')"

lemma preservesD: "preserves P wr \<Longrightarrow> wr p s = Some (r, s') \<Longrightarrow> P s \<Longrightarrow> P s'"
  unfolding preserves_def by blast

lemma write_all_preserves:
  assumes "preserves P wr" and "write_all wr p s = Some (r, s')" and "P s"
  shows "P s'"
proof -
  have on: "P (snd x')" if "write_all_body wr x = Some (Inl x')" "P (snd x)" for x x'
    using that by (auto simp: write_all_body_def dest: preservesD [OF assms(1)]
      split: if_splits option.splits sum.splits prod.splits)
  have "(\<lambda>x. P (snd x)) y" if "write_all_body wr x = Some (Inr y)" "P (snd x)" for x y
    using that by (auto simp: write_all_body_def dest: preservesD [OF assms(1)]
      split: if_splits option.splits sum.splits prod.splits)
  from wa.loop_invariant [of wr "(p, s)" "(r, s')" "\<lambda>x. P (snd x)" "\<lambda>x. P (snd x)", OF _ _ on this]
  show ?thesis using assms(2,3) by simp
qed

lemma flush_buf_preserves:
  assumes "preserves P wr" and "flush_buf wr (b, s) = Some (r, b', s')" and "P s"
  shows "P s'"
proof -
  have on: "P (snd x')" if "flush_buf_body wr x = Some (Inl x')" "P (snd x)" for x x'
    using that by (auto simp: flush_buf_body_def dest: preservesD [OF assms(1)]
      split: if_splits option.splits sum.splits prod.splits)
  have "(\<lambda>x. P (snd (snd x))) y" if "flush_buf_body wr x = Some (Inr y)" "P (snd x)" for x y
    using that by (auto simp: flush_buf_body_def dest: preservesD [OF assms(1)]
      split: if_splits option.splits sum.splits prod.splits)
  from fb.loop_invariant [of wr "(b, s)" "(r, b', s')" "\<lambda>x. P (snd x)" "\<lambda>x. P (snd (snd x))", OF _ _ on this]
  show ?thesis using assms(2,3) by simp
qed

lemma buf_write_preserves:
  "preserves P wr \<Longrightarrow> preserves (\<lambda>bs. P (snd bs)) (buf_write cap wr)"
  unfolding preserves_def [of _ "buf_write cap wr"]
  by (auto simp: buf_write_def dest: preservesD flush_buf_preserves
      split: if_splits option.splits sum.splits prod.splits)

lemma write_pieces_preserves:
  assumes "preserves P wr" and "write_pieces (write_all wr) ps s = Some (r, s')" and "P s"
  shows "P s'"
  using assms(2,3)
  by (induction ps arbitrary: s)
    (auto dest: write_all_preserves [OF assms(1)] split: option.splits sum.splits)

end
