(* ===== verification/Net_Model.thy ===== *)
theory Net_Model
  imports Runtime_State Std_Write
begin

text \<open>
  \<open>src/net/mod.rs\<close>, \<open>src/net/tcp.rs\<close> and \<open>src/net/udp.rs\<close>: blocking sockets made from the
  non-blocking ones of \<open>mio\<close>. The sockets of \<open>mio\<close> and the buffers of \<open>bytes\<close> are a record of
  operations over the state \<open>'w\<close> of the outside world. \<open>Processor::current().wait_event\<close> is
  the argument \<open>wait\<close>: as the calling coroutine sees it, it returns once, with an error or
  after an event, and the world has changed. An operation that may never return yields
  \<open>None\<close> when it does not.
\<close>

section \<open>Addresses\<close>

text \<open>\<open>std::net::SocketAddr\<close>: an IP address and a port.\<close>

datatype socket_addr = V4 "32 word" "16 word" | V6 "128 word" "16 word"

text \<open>\<open>addr.to_socket_addrs()\<close>, a lookup in the outside world.\<close>

type_synonym 'w addrs = "'w \<Rightarrow> socket_addr list io_result \<times> 'w"

text \<open>The loop of \<open>each_addr\<close>, with \<open>last_err\<close>.\<close>

fun each_addr_loop ::
  "(socket_addr \<Rightarrow> 'w \<Rightarrow> 't io_result \<times> 'w) \<Rightarrow> socket_addr list \<Rightarrow> io_error option \<Rightarrow>
   'w \<Rightarrow> 't io_result \<times> 'w" where
  "each_addr_loop f [] last_err w =
    (Inl (case last_err of
            Some e \<Rightarrow> e
          | None \<Rightarrow> Io_Error InvalidInput ''could not resolve to any addresses''), w)"
| "each_addr_loop f (addr # addrs) last_err w =
    (case f addr w of
       (Inr l, w') \<Rightarrow> (Inr l, w')
     | (Inl e, w') \<Rightarrow> each_addr_loop f addrs (Some e) w')"

definition each_addr ::
  "'w addrs \<Rightarrow> (socket_addr \<Rightarrow> 'w \<Rightarrow> 't io_result \<times> 'w) \<Rightarrow> 'w \<Rightarrow> 't io_result \<times> 'w" where
  "each_addr addr f w =
    (case addr w of
       (Inl e, w') \<Rightarrow> (Inl e, w')
     | (Inr addrs, w') \<Rightarrow> each_addr_loop f addrs None w')"

section \<open>The packages mio and bytes\<close>

datatype mio_shutdown = Mio_Read | Mio_Write | Mio_Both

text \<open>
  \<open>mio\<close>'s TCP sockets, listeners and streams and UDP sockets, and the two buffers of \<open>bytes\<close>
  (\<open>SliceBuf\<close> and \<open>MutSliceBuf\<close>). An operation that takes \<open>&mut buf\<close> returns the buffer.
\<close>

record ('w, 'sock, 'lst, 'str, 'udp, 'buf, 'mbuf) mio =
  sock_v4 :: "'w \<Rightarrow> 'sock io_result \<times> 'w"
  sock_v6 :: "'w \<Rightarrow> 'sock io_result \<times> 'w"
  sock_connect :: "'sock \<Rightarrow> socket_addr \<Rightarrow> 'w \<Rightarrow> ('str \<times> bool) io_result \<times> 'w"
  sock_listen :: "'sock \<Rightarrow> usize \<Rightarrow> 'w \<Rightarrow> 'lst io_result \<times> 'w"
  lst_bind :: "socket_addr \<Rightarrow> 'w \<Rightarrow> 'lst io_result \<times> 'w"
  lst_accept :: "'lst \<Rightarrow> 'w \<Rightarrow> 'str option io_result \<times> 'w"
  lst_try_clone :: "'lst \<Rightarrow> 'w \<Rightarrow> 'lst io_result \<times> 'w"
  lst_fd :: "'lst \<Rightarrow> fd"
  str_peer_addr :: "'str \<Rightarrow> 'w \<Rightarrow> socket_addr io_result \<times> 'w"
  str_local_addr :: "'str \<Rightarrow> 'w \<Rightarrow> socket_addr io_result \<times> 'w"
  str_try_clone :: "'str \<Rightarrow> 'w \<Rightarrow> 'str io_result \<times> 'w"
  str_shutdown :: "'str \<Rightarrow> mio_shutdown \<Rightarrow> 'w \<Rightarrow> unit io_result \<times> 'w"
  str_take_socket_error :: "'str \<Rightarrow> 'w \<Rightarrow> unit io_result \<times> 'w"
  str_try_read :: "'str \<Rightarrow> byte list \<times> 'w \<Rightarrow> usize option io_result \<times> byte list \<times> 'w"
  str_try_write :: "'str \<Rightarrow> byte list \<Rightarrow> 'w \<Rightarrow> usize option io_result \<times> 'w"
  str_fd :: "'str \<Rightarrow> fd"
  udp_v4 :: "'w \<Rightarrow> 'udp io_result \<times> 'w"
  udp_v6 :: "'w \<Rightarrow> 'udp io_result \<times> 'w"
  udp_bound :: "socket_addr \<Rightarrow> 'w \<Rightarrow> 'udp io_result \<times> 'w"
  udp_try_clone :: "'udp \<Rightarrow> 'w \<Rightarrow> 'udp io_result \<times> 'w"
  udp_send_to :: "'udp \<Rightarrow> socket_addr \<Rightarrow> 'buf \<times> 'w \<Rightarrow> unit option io_result \<times> 'buf \<times> 'w"
  udp_recv_from :: "'udp \<Rightarrow> 'mbuf \<times> 'w \<Rightarrow> socket_addr option io_result \<times> 'mbuf \<times> 'w"
  udp_fd :: "'udp \<Rightarrow> fd"
  slice_wrap :: "byte list \<Rightarrow> 'buf"
  slice_remaining :: "'buf \<Rightarrow> usize"
  mslice_wrap :: "byte list \<Rightarrow> 'mbuf"
  mslice_remaining :: "'mbuf \<Rightarrow> usize"
  mslice_contents :: "'mbuf \<Rightarrow> byte list"

type_synonym 'w waiter = "fd \<Rightarrow> interest \<Rightarrow> 'w \<Rightarrow> unit io_result \<times> 'w"

section \<open>TcpSocket\<close>

datatype 'sock tcp_socket = TcpSocket (tcp_socket_deref: 'sock)
datatype 'lst tcp_listener = TcpListener (tcp_listener_deref: 'lst)
datatype 'str tcp_stream = TcpStream (tcp_stream_deref: 'str)

definition tcp_socket_deref_mut :: "('sock \<Rightarrow> 'sock) \<Rightarrow> 'sock tcp_socket \<Rightarrow> 'sock tcp_socket" where
  "tcp_socket_deref_mut f self = TcpSocket (f (tcp_socket_deref self))"

definition tcp_listener_deref_mut :: "('lst \<Rightarrow> 'lst) \<Rightarrow> 'lst tcp_listener \<Rightarrow> 'lst tcp_listener" where
  "tcp_listener_deref_mut f self = TcpListener (f (tcp_listener_deref self))"

definition tcp_stream_deref_mut :: "('str \<Rightarrow> 'str) \<Rightarrow> 'str tcp_stream \<Rightarrow> 'str tcp_stream" where
  "tcp_stream_deref_mut f self = TcpStream (f (tcp_stream_deref self))"

definition tcp_socket_v4 ::
  "('w, 'sock, 'lst, 'str, 'udp, 'buf, 'mbuf) mio \<Rightarrow> 'w \<Rightarrow> 'sock tcp_socket io_result \<times> 'w" where
  "tcp_socket_v4 M w =
    (case sock_v4 M w of (Inl e, w') \<Rightarrow> (Inl e, w') | (Inr s, w') \<Rightarrow> (Inr (TcpSocket s), w'))"

definition tcp_socket_v6 ::
  "('w, 'sock, 'lst, 'str, 'udp, 'buf, 'mbuf) mio \<Rightarrow> 'w \<Rightarrow> 'sock tcp_socket io_result \<times> 'w" where
  "tcp_socket_v6 M w =
    (case sock_v6 M w of (Inl e, w') \<Rightarrow> (Inl e, w') | (Inr s, w') \<Rightarrow> (Inr (TcpSocket s), w'))"

text \<open>The closure that \<open>TcpSocket::connect\<close> tries on each address; its \<open>try!\<close> leaves the closure.\<close>

definition connect_addr ::
  "('w, 'sock, 'lst, 'str, 'udp, 'buf, 'mbuf) mio \<Rightarrow> socket_addr \<Rightarrow> 'w \<Rightarrow>
   ('str \<times> bool) io_result \<times> 'w" where
  "connect_addr M a w =
    (case (case a of V4 _ _ \<Rightarrow> tcp_socket_v4 M w | V6 _ _ \<Rightarrow> tcp_socket_v6 M w) of
       (Inl e, w') \<Rightarrow> (Inl e, w')
     | (Inr s, w') \<Rightarrow> sock_connect M (tcp_socket_deref s) a w')"

definition tcp_socket_connect ::
  "('w, 'sock, 'lst, 'str, 'udp, 'buf, 'mbuf) mio \<Rightarrow> 'w addrs \<Rightarrow> 'w \<Rightarrow>
   ('str tcp_stream \<times> bool) io_result \<times> 'w" where
  "tcp_socket_connect M addr w =
    (case each_addr addr (connect_addr M) w of
       (Inl e, w') \<Rightarrow> (Inl e, w')
     | (Inr (stream, complete), w') \<Rightarrow> (Inr (TcpStream stream, complete), w'))"

definition tcp_socket_listen ::
  "('w, 'sock, 'lst, 'str, 'udp, 'buf, 'mbuf) mio \<Rightarrow> 'sock tcp_socket \<Rightarrow> usize \<Rightarrow> 'w \<Rightarrow>
   'lst tcp_listener io_result \<times> 'w" where
  "tcp_socket_listen M self backlog w =
    (case sock_listen M (tcp_socket_deref self) backlog w of
       (Inl e, w') \<Rightarrow> (Inl e, w')
     | (Inr l, w') \<Rightarrow> (Inr (TcpListener l), w'))"

section \<open>TcpListener\<close>

definition tcp_bind ::
  "('w, 'sock, 'lst, 'str, 'udp, 'buf, 'mbuf) mio \<Rightarrow> 'w addrs \<Rightarrow> 'w \<Rightarrow>
   'lst tcp_listener io_result \<times> 'w" where
  "tcp_bind M addr w =
    (case each_addr addr (lst_bind M) w of
       (Inl e, w') \<Rightarrow> (Inl e, w')
     | (Inr l, w') \<Rightarrow> (Inr (TcpListener l), w'))"

text \<open>The loop of \<open>accept\<close>, then \<open>accept\<close>.\<close>

partial_function (option) accept_loop ::
  "('w, 'sock, 'lst, 'str, 'udp, 'buf, 'mbuf) mio \<Rightarrow> 'w waiter \<Rightarrow> 'lst tcp_listener \<Rightarrow> 'w \<Rightarrow>
   ('str tcp_stream io_result \<times> 'w) option" where
  "accept_loop M wait self w =
    (case wait (lst_fd M (tcp_listener_deref self)) Readable w of
       (Inl e, w1) \<Rightarrow> Some (Inl e, w1)
     | (Inr _, w1) \<Rightarrow>
         (case lst_accept M (tcp_listener_deref self) w1 of
            (Inr None, w2) \<Rightarrow> accept_loop M wait self w2
          | (Inr (Some stream), w2) \<Rightarrow> Some (Inr (TcpStream stream), w2)
          | (Inl err, w2) \<Rightarrow> Some (Inl err, w2)))"

definition accept ::
  "('w, 'sock, 'lst, 'str, 'udp, 'buf, 'mbuf) mio \<Rightarrow> 'w waiter \<Rightarrow> 'lst tcp_listener \<Rightarrow> 'w \<Rightarrow>
   ('str tcp_stream io_result \<times> 'w) option" where
  "accept M wait self w =
    (case lst_accept M (tcp_listener_deref self) w of
       (Inr None, w') \<Rightarrow> accept_loop M wait self w'
     | (Inr (Some stream), w') \<Rightarrow> Some (Inr (TcpStream stream), w')
     | (Inl err, w') \<Rightarrow> Some (Inl err, w'))"

definition tcp_listener_try_clone ::
  "('w, 'sock, 'lst, 'str, 'udp, 'buf, 'mbuf) mio \<Rightarrow> 'lst tcp_listener \<Rightarrow> 'w \<Rightarrow>
   'lst tcp_listener io_result \<times> 'w" where
  "tcp_listener_try_clone M self w =
    (case lst_try_clone M (tcp_listener_deref self) w of
       (Inl e, w') \<Rightarrow> (Inl e, w')
     | (Inr l, w') \<Rightarrow> (Inr (TcpListener l), w'))"

datatype 'lst incoming = Incoming "'lst tcp_listener"

definition tcp_incoming :: "'lst tcp_listener \<Rightarrow> 'lst incoming" where
  "tcp_incoming self = Incoming self"

text \<open>\<open>Incoming::next\<close> never ends the iteration: it returns \<open>Some\<close> of what \<open>accept\<close> returns.\<close>

fun incoming_next ::
  "('w, 'sock, 'lst, 'str, 'udp, 'buf, 'mbuf) mio \<Rightarrow> 'w waiter \<Rightarrow> 'lst incoming \<Rightarrow> 'w \<Rightarrow>
   ('str tcp_stream io_result option \<times> 'w) option" where
  "incoming_next M wait (Incoming l) w =
    (case accept M wait l w of None \<Rightarrow> None | Some (r, w') \<Rightarrow> Some (Some r, w'))"

section \<open>TcpStream\<close>

datatype shutdown = Shutdown_Read | Shutdown_Write | Shutdown_Both

fun shutdown_from :: "shutdown \<Rightarrow> mio_shutdown" where
  "shutdown_from Shutdown_Read = Mio_Read"
| "shutdown_from Shutdown_Write = Mio_Write"
| "shutdown_from Shutdown_Both = Mio_Both"

definition take_socket_error ::
  "('w, 'sock, 'lst, 'str, 'udp, 'buf, 'mbuf) mio \<Rightarrow> 'str tcp_stream \<Rightarrow> 'w \<Rightarrow>
   unit io_result \<times> 'w" where
  "take_socket_error M self w = str_take_socket_error M (tcp_stream_deref self) w"

definition tcp_connect ::
  "('w, 'sock, 'lst, 'str, 'udp, 'buf, 'mbuf) mio \<Rightarrow> 'w waiter \<Rightarrow> 'w addrs \<Rightarrow> 'w \<Rightarrow>
   'str tcp_stream io_result \<times> 'w" where
  "tcp_connect M wait addr w =
    (case tcp_socket_connect M addr w of
       (Inr (stream, completed), w1) \<Rightarrow>
         if \<not> completed
         then (case wait (str_fd M (tcp_stream_deref stream)) Writable w1 of
                 (Inl e, w2) \<Rightarrow> (Inl e, w2)
               | (Inr _, w2) \<Rightarrow>
                   (case take_socket_error M stream w2 of
                      (Inl e, w3) \<Rightarrow> (Inl e, w3)
                    | (Inr _, w3) \<Rightarrow> (Inr stream, w3)))
         else (Inr stream, w1)
     | (Inl err, w1) \<Rightarrow> (Inl err, w1))"

definition peer_addr ::
  "('w, 'sock, 'lst, 'str, 'udp, 'buf, 'mbuf) mio \<Rightarrow> 'str tcp_stream \<Rightarrow> 'w \<Rightarrow>
   socket_addr io_result \<times> 'w" where
  "peer_addr M self w = str_peer_addr M (tcp_stream_deref self) w"

definition local_addr ::
  "('w, 'sock, 'lst, 'str, 'udp, 'buf, 'mbuf) mio \<Rightarrow> 'str tcp_stream \<Rightarrow> 'w \<Rightarrow>
   socket_addr io_result \<times> 'w" where
  "local_addr M self w = str_local_addr M (tcp_stream_deref self) w"

definition tcp_stream_try_clone ::
  "('w, 'sock, 'lst, 'str, 'udp, 'buf, 'mbuf) mio \<Rightarrow> 'str tcp_stream \<Rightarrow> 'w \<Rightarrow>
   'str tcp_stream io_result \<times> 'w" where
  "tcp_stream_try_clone M self w =
    (case str_try_clone M (tcp_stream_deref self) w of
       (Inl e, w') \<Rightarrow> (Inl e, w')
     | (Inr s, w') \<Rightarrow> (Inr (TcpStream s), w'))"

definition tcp_shutdown ::
  "('w, 'sock, 'lst, 'str, 'udp, 'buf, 'mbuf) mio \<Rightarrow> 'str tcp_stream \<Rightarrow> shutdown \<Rightarrow> 'w \<Rightarrow>
   unit io_result \<times> 'w" where
  "tcp_shutdown M self how w = str_shutdown M (tcp_stream_deref self) (shutdown_from how) w"

text \<open>\<open>Read for TcpStream\<close>: the buffer and the world are passed together.\<close>

partial_function (option) read_loop ::
  "('w, 'sock, 'lst, 'str, 'udp, 'buf, 'mbuf) mio \<Rightarrow> 'w waiter \<Rightarrow> 'str tcp_stream \<Rightarrow>
   byte list \<times> 'w \<Rightarrow> (usize io_result \<times> byte list \<times> 'w) option" where
  "read_loop M wait self s =
    (case wait (str_fd M (tcp_stream_deref self)) Readable (snd s) of
       (Inl e, w1) \<Rightarrow> Some (Inl e, fst s, w1)
     | (Inr _, w1) \<Rightarrow>
         (case str_try_read M (tcp_stream_deref self) (fst s, w1) of
            (Inr None, s2) \<Rightarrow> read_loop M wait self s2
          | (Inr (Some len), s2) \<Rightarrow> Some (Inr len, s2)
          | (Inl err, s2) \<Rightarrow> Some (Inl err, s2)))"

definition tcp_read ::
  "('w, 'sock, 'lst, 'str, 'udp, 'buf, 'mbuf) mio \<Rightarrow> 'w waiter \<Rightarrow> 'str tcp_stream \<Rightarrow>
   byte list \<times> 'w \<Rightarrow> (usize io_result \<times> byte list \<times> 'w) option" where
  "tcp_read M wait self s =
    (case str_try_read M (tcp_stream_deref self) s of
       (Inr None, s1) \<Rightarrow> read_loop M wait self s1
     | (Inr (Some len), s1) \<Rightarrow> Some (Inr len, s1)
     | (Inl err, s1) \<Rightarrow> Some (Inl err, s1))"

text \<open>\<open>Write for TcpStream\<close>.\<close>

partial_function (option) write_loop ::
  "('w, 'sock, 'lst, 'str, 'udp, 'buf, 'mbuf) mio \<Rightarrow> 'w waiter \<Rightarrow> 'str tcp_stream \<Rightarrow>
   byte list \<Rightarrow> 'w \<Rightarrow> (usize io_result \<times> 'w) option" where
  "write_loop M wait self buf w =
    (case wait (str_fd M (tcp_stream_deref self)) Writable w of
       (Inl e, w1) \<Rightarrow> Some (Inl e, w1)
     | (Inr _, w1) \<Rightarrow>
         (case str_try_write M (tcp_stream_deref self) buf w1 of
            (Inr None, w2) \<Rightarrow> write_loop M wait self buf w2
          | (Inr (Some len), w2) \<Rightarrow> Some (Inr len, w2)
          | (Inl err, w2) \<Rightarrow> Some (Inl err, w2)))"

definition tcp_write ::
  "('w, 'sock, 'lst, 'str, 'udp, 'buf, 'mbuf) mio \<Rightarrow> 'w waiter \<Rightarrow> 'str tcp_stream \<Rightarrow>
   byte list \<Rightarrow> 'w \<Rightarrow> (usize io_result \<times> 'w) option" where
  "tcp_write M wait self buf w =
    (case str_try_write M (tcp_stream_deref self) buf w of
       (Inr None, w1) \<Rightarrow> write_loop M wait self buf w1
     | (Inr (Some len), w1) \<Rightarrow> Some (Inr len, w1)
     | (Inl err, w1) \<Rightarrow> Some (Inl err, w1))"

definition tcp_flush :: "'w \<Rightarrow> unit io_result \<times> 'w" where
  "tcp_flush w = (Inr (), w)"

section \<open>UdpSocket\<close>

datatype 'udp udp_socket = UdpSocket (udp_socket_deref: 'udp)

definition udp_socket_deref_mut :: "('udp \<Rightarrow> 'udp) \<Rightarrow> 'udp udp_socket \<Rightarrow> 'udp udp_socket" where
  "udp_socket_deref_mut f self = UdpSocket (f (udp_socket_deref self))"

definition udp_socket_v4 ::
  "('w, 'sock, 'lst, 'str, 'udp, 'buf, 'mbuf) mio \<Rightarrow> 'w \<Rightarrow> 'udp udp_socket io_result \<times> 'w" where
  "udp_socket_v4 M w =
    (case udp_v4 M w of (Inl e, w') \<Rightarrow> (Inl e, w') | (Inr s, w') \<Rightarrow> (Inr (UdpSocket s), w'))"

definition udp_socket_v6 ::
  "('w, 'sock, 'lst, 'str, 'udp, 'buf, 'mbuf) mio \<Rightarrow> 'w \<Rightarrow> 'udp udp_socket io_result \<times> 'w" where
  "udp_socket_v6 M w =
    (case udp_v6 M w of (Inl e, w') \<Rightarrow> (Inl e, w') | (Inr s, w') \<Rightarrow> (Inr (UdpSocket s), w'))"

definition udp_bind ::
  "('w, 'sock, 'lst, 'str, 'udp, 'buf, 'mbuf) mio \<Rightarrow> 'w addrs \<Rightarrow> 'w \<Rightarrow>
   'udp udp_socket io_result \<times> 'w" where
  "udp_bind M addr w =
    (case each_addr addr (udp_bound M) w of
       (Inl e, w') \<Rightarrow> (Inl e, w')
     | (Inr s, w') \<Rightarrow> (Inr (UdpSocket s), w'))"

definition udp_socket_try_clone ::
  "('w, 'sock, 'lst, 'str, 'udp, 'buf, 'mbuf) mio \<Rightarrow> 'udp udp_socket \<Rightarrow> 'w \<Rightarrow>
   'udp udp_socket io_result \<times> 'w" where
  "udp_socket_try_clone M self w =
    (case udp_try_clone M (udp_socket_deref self) w of
       (Inl e, w') \<Rightarrow> (Inl e, w')
     | (Inr s, w') \<Rightarrow> (Inr (UdpSocket s), w'))"

text \<open>
  \<open>send_to\<close>: the inner loop for one address, the loop over the addresses with \<open>last_err\<close>, and
  the whole. \<open>n\<close> is \<open>slice_buf.len()\<close>; the buffer is shared by all the attempts.
\<close>

partial_function (option) send_to_wait ::
  "('w, 'sock, 'lst, 'str, 'udp, 'buf, 'mbuf) mio \<Rightarrow> 'w waiter \<Rightarrow> 'udp udp_socket \<Rightarrow> usize \<Rightarrow>
   socket_addr \<Rightarrow> 'buf \<times> 'w \<Rightarrow> (usize io_result \<times> 'buf \<times> 'w) option" where
  "send_to_wait M wait self n addr s =
    (case wait (udp_fd M (udp_socket_deref self)) Writable (snd s) of
       (Inl e, w1) \<Rightarrow> Some (Inl e, fst s, w1)
     | (Inr _, w1) \<Rightarrow>
         (case udp_send_to M (udp_socket_deref self) addr (fst s, w1) of
            (Inr None, s2) \<Rightarrow> send_to_wait M wait self n addr s2
          | (Inr (Some _), s2) \<Rightarrow> Some (Inr (n - slice_remaining M (fst s2)), s2)
          | (Inl err, s2) \<Rightarrow> Some (Inl err, s2)))"

fun send_to_addrs ::
  "('w, 'sock, 'lst, 'str, 'udp, 'buf, 'mbuf) mio \<Rightarrow> 'w waiter \<Rightarrow> 'udp udp_socket \<Rightarrow> usize \<Rightarrow>
   socket_addr list \<Rightarrow> usize io_result \<Rightarrow> 'buf \<times> 'w \<Rightarrow>
   (usize io_result \<times> 'buf \<times> 'w) option" where
  "send_to_addrs M wait self n [] last_err s = Some (last_err, s)"
| "send_to_addrs M wait self n (addr # addrs) last_err s =
    (case udp_send_to M (udp_socket_deref self) addr s of
       (Inr None, s1) \<Rightarrow> send_to_wait M wait self n addr s1
     | (Inr (Some _), s1) \<Rightarrow> Some (Inr (n - slice_remaining M (fst s1)), s1)
     | (Inl err, s1) \<Rightarrow> send_to_addrs M wait self n addrs (Inl err) s1)"

definition send_to ::
  "('w, 'sock, 'lst, 'str, 'udp, 'buf, 'mbuf) mio \<Rightarrow> 'w waiter \<Rightarrow> 'udp udp_socket \<Rightarrow>
   byte list \<Rightarrow> 'w addrs \<Rightarrow> 'w \<Rightarrow> (usize io_result \<times> 'buf \<times> 'w) option" where
  "send_to M wait self slice_buf target w =
    (case target w of
       (Inl e, w') \<Rightarrow> Some (Inl e, slice_wrap M slice_buf, w')
     | (Inr addrs, w') \<Rightarrow>
         send_to_addrs M wait self (of_nat (length slice_buf)) addrs (Inr 0)
           (slice_wrap M slice_buf, w'))"

text \<open>\<open>recv_from\<close>; the result comes with the buffer, which holds what was received.\<close>

partial_function (option) recv_from_loop ::
  "('w, 'sock, 'lst, 'str, 'udp, 'buf, 'mbuf) mio \<Rightarrow> 'w waiter \<Rightarrow> 'udp udp_socket \<Rightarrow> usize \<Rightarrow>
   'mbuf \<times> 'w \<Rightarrow> ((usize \<times> socket_addr) io_result \<times> 'mbuf \<times> 'w) option" where
  "recv_from_loop M wait self total_len s =
    (case wait (udp_fd M (udp_socket_deref self)) Readable (snd s) of
       (Inl e, w1) \<Rightarrow> Some (Inl e, fst s, w1)
     | (Inr _, w1) \<Rightarrow>
         (case udp_recv_from M (udp_socket_deref self) (fst s, w1) of
            (Inr None, s2) \<Rightarrow> recv_from_loop M wait self total_len s2
          | (Inr (Some addr), s2) \<Rightarrow>
              Some (Inr (total_len - mslice_remaining M (fst s2), addr), s2)
          | (Inl err, s2) \<Rightarrow> Some (Inl err, s2)))"

definition recv_from_buf ::
  "('w, 'sock, 'lst, 'str, 'udp, 'buf, 'mbuf) mio \<Rightarrow> 'w waiter \<Rightarrow> 'udp udp_socket \<Rightarrow> usize \<Rightarrow>
   'mbuf \<times> 'w \<Rightarrow> ((usize \<times> socket_addr) io_result \<times> 'mbuf \<times> 'w) option" where
  "recv_from_buf M wait self total_len s =
    (case udp_recv_from M (udp_socket_deref self) s of
       (Inr None, s1) \<Rightarrow> recv_from_loop M wait self total_len s1
     | (Inr (Some addr), s1) \<Rightarrow> Some (Inr (total_len - mslice_remaining M (fst s1), addr), s1)
     | (Inl err, s1) \<Rightarrow> Some (Inl err, s1))"

definition recv_from ::
  "('w, 'sock, 'lst, 'str, 'udp, 'buf, 'mbuf) mio \<Rightarrow> 'w waiter \<Rightarrow> 'udp udp_socket \<Rightarrow>
   byte list \<Rightarrow> 'w \<Rightarrow> ((usize \<times> socket_addr) io_result \<times> 'mbuf \<times> 'w) option" where
  "recv_from M wait self slice_buf w =
    recv_from_buf M wait self (of_nat (length slice_buf)) (mslice_wrap M slice_buf, w)"

end
