(* ===== verification/Echo_Model.thy ===== *)
theory Echo_Model
  imports Net_Model
begin

text \<open>
  The echo servers \<open>examples/tcp-echo-server.rs\<close> and \<open>examples/udp-echo-server.rs\<close>, clients of
  the crate's sockets. A closure that runs in a coroutine either returns, panics, or never
  returns (\<open>None\<close>). \<open>info\<close> tells whether the log prints \<open>info!\<close> messages, whose arguments are
  evaluated only then.
\<close>

section \<open>The TCP echo server\<close>

datatype echo_panic = Unwrap_Io io_error | Read_Error io_error | Slice_Out_Of_Range

text \<open>
  The coroutine of one connection; the state is the buffer and the world. The bytes read stay
  in the buffer for the next round.
\<close>

partial_function (option) tcp_echo_loop ::
  "('w, 'sock, 'lst, 'str, 'udp, 'buf, 'mbuf) mio \<Rightarrow> 'w waiter \<Rightarrow> 'str tcp_stream \<Rightarrow>
   byte list \<times> 'w \<Rightarrow> ((echo_panic + unit) \<times> 'w) option" where
  "tcp_echo_loop M wait stream s =
    (case tcp_read M wait stream s of
       None \<Rightarrow> None
     | Some (Inl err, b1, w1) \<Rightarrow> Some (Inl (Read_Error err), w1)
     | Some (Inr len, b1, w1) \<Rightarrow>
         if len = 0 then Some (Inr (), w1)
         else if length b1 < unat len then Some (Inl Slice_Out_Of_Range, w1)
         else (case write_all (tcp_write M wait stream) (take (unat len) b1) w1 of
                 None \<Rightarrow> None
               | Some (Inl e, w2) \<Rightarrow> Some (Inl (Unwrap_Io e), w2)
               | Some (Inr _, w2) \<Rightarrow> tcp_echo_loop M wait stream (b1, w2)))"

definition tcp_echo_worker ::
  "('w, 'sock, 'lst, 'str, 'udp, 'buf, 'mbuf) mio \<Rightarrow> 'w waiter \<Rightarrow> bool \<Rightarrow> 'str tcp_stream \<Rightarrow>
   'w \<Rightarrow> ((echo_panic + unit) \<times> 'w) option" where
  "tcp_echo_worker M wait info stream w =
    (case tcp_echo_loop M wait stream (replicate 10240 0, w) of
       None \<Rightarrow> None
     | Some (Inl p, w1) \<Rightarrow> Some (Inl p, w1)
     | Some (Inr _, w1) \<Rightarrow>
         if info
         then (case peer_addr M stream w1 of
                 (Inl e, w2) \<Rightarrow> Some (Inl (Unwrap_Io e), w2) | (Inr _, w2) \<Rightarrow> Some (Inr (), w2))
         else Some (Inr (), w1))"

text \<open>
  The loop over \<open>server.incoming()\<close>, its first \<open>n\<close> rounds: the streams handed to a worker, in
  order, and how the rounds ended: \<open>Some (Inr ())\<close> still accepting, \<open>Some (Inl p)\<close> panicked,
  \<open>None\<close> an accept that never returned. \<open>spawn\<close> is \<open>Scheduler::spawn\<close> of the worker as this
  coroutine sees it.
\<close>

fun tcp_echo_accept ::
  "('w, 'sock, 'lst, 'str, 'udp, 'buf, 'mbuf) mio \<Rightarrow> 'w waiter \<Rightarrow> bool \<Rightarrow>
   ('str tcp_stream \<Rightarrow> 'w \<Rightarrow> 'w) \<Rightarrow> 'lst incoming \<Rightarrow> nat \<Rightarrow> 'w \<Rightarrow>
   'str tcp_stream list \<times> (echo_panic + unit) option \<times> 'w" where
  "tcp_echo_accept M wait info spawn inc 0 w = ([], Some (Inr ()), w)"
| "tcp_echo_accept M wait info spawn inc (Suc n) w =
    (case incoming_next M wait inc w of
       None \<Rightarrow> ([], None, w)
     | Some (None, w1) \<Rightarrow> ([], Some (Inr ()), w1)
     | Some (Some (Inl e), w1) \<Rightarrow> ([], Some (Inl (Unwrap_Io e)), w1)
     | Some (Some (Inr stream), w1) \<Rightarrow>
         (case (if info then peer_addr M stream w1 else (Inr (V4 0 0), w1)) of
            (Inl e, w2) \<Rightarrow> ([], Some (Inl (Unwrap_Io e)), w2)
          | (Inr _, w2) \<Rightarrow>
              (case tcp_echo_accept M wait info spawn inc n (spawn stream w2) of
                 (ss, r, w3) \<Rightarrow> (stream # ss, r, w3))))"

text \<open>
  The setup of the server. \<open>set_reuseaddr\<close> and \<open>bind\<close> are those of \<open>mio\<close>'s socket, through
  \<open>Deref\<close>; \<open>lst_local_addr\<close> is that of its listener.
\<close>

definition tcp_echo_setup ::
  "('w, 'sock, 'lst, 'str, 'udp, 'buf, 'mbuf) mio \<Rightarrow> ('sock \<Rightarrow> bool \<Rightarrow> 'w \<Rightarrow> unit io_result \<times> 'w) \<Rightarrow>
   ('sock \<Rightarrow> socket_addr \<Rightarrow> 'w \<Rightarrow> unit io_result \<times> 'w) \<Rightarrow>
   ('lst \<Rightarrow> 'w \<Rightarrow> socket_addr io_result \<times> 'w) \<Rightarrow> bool \<Rightarrow> socket_addr \<Rightarrow> 'w \<Rightarrow>
   (echo_panic + 'lst incoming) \<times> 'w" where
  "tcp_echo_setup M set_reuseaddr sock_bind lst_local_addr info addr w =
    (case (case addr of V4 _ _ \<Rightarrow> tcp_socket_v4 M w | V6 _ _ \<Rightarrow> tcp_socket_v6 M w) of
       (Inl e, w1) \<Rightarrow> (Inl (Unwrap_Io e), w1)
     | (Inr server, w1) \<Rightarrow>
     (case set_reuseaddr (tcp_socket_deref server) True w1 of
        (Inl e, w2) \<Rightarrow> (Inl (Unwrap_Io e), w2)
      | (Inr _, w2) \<Rightarrow>
      (case sock_bind (tcp_socket_deref server) addr w2 of
         (Inl e, w3) \<Rightarrow> (Inl (Unwrap_Io e), w3)
       | (Inr _, w3) \<Rightarrow>
       (case tcp_socket_listen M server 64 w3 of
          (Inl e, w4) \<Rightarrow> (Inl (Unwrap_Io e), w4)
        | (Inr listener, w4) \<Rightarrow>
        (case (if info then lst_local_addr (tcp_listener_deref listener) w4 else (Inr addr, w4)) of
           (Inl e, w5) \<Rightarrow> (Inl (Unwrap_Io e), w5)
         | (Inr _, w5) \<Rightarrow> (Inr (tcp_incoming listener), w5))))))"

section \<open>The UDP echo server\<close>

text \<open>
  Its loop ends only by a panic. A \<open>SocketAddr\<close> resolves to itself; the buffer of the next
  round is the one \<open>recv_from\<close> filled.
\<close>

definition udp_echo_round ::
  "('w, 'sock, 'lst, 'str, 'udp, 'buf, 'mbuf) mio \<Rightarrow> 'w waiter \<Rightarrow> 'udp udp_socket \<Rightarrow>
   byte list \<times> 'w \<Rightarrow> ((byte list \<times> 'w) + (echo_panic \<times> 'w)) option" where
  "udp_echo_round M wait server s =
    (case recv_from M wait server (fst s) (snd s) of
       None \<Rightarrow> None
     | Some (Inl e, b1, w1) \<Rightarrow> Some (Inr (Unwrap_Io e, w1))
     | Some (Inr (len, peer), b1, w1) \<Rightarrow>
         (let buf = mslice_contents M b1
          in if length buf < unat len then Some (Inr (Slice_Out_Of_Range, w1))
             else case send_to M wait server (take (unat len) buf) (\<lambda>w. (Inr [peer], w)) w1 of
                    None \<Rightarrow> None
                  | Some (Inl e, _, w2) \<Rightarrow> Some (Inr (Unwrap_Io e, w2))
                  | Some (Inr _, _, w2) \<Rightarrow> Some (Inl (buf, w2))))"

partial_function (option) udp_echo_loop ::
  "('w, 'sock, 'lst, 'str, 'udp, 'buf, 'mbuf) mio \<Rightarrow> 'w waiter \<Rightarrow> 'udp udp_socket \<Rightarrow>
   byte list \<times> 'w \<Rightarrow> (echo_panic \<times> 'w) option" where
  "udp_echo_loop M wait server s =
    (case udp_echo_round M wait server s of
       None \<Rightarrow> None
     | Some (Inl s') \<Rightarrow> udp_echo_loop M wait server s'
     | Some (Inr r) \<Rightarrow> Some r)"

definition udp_echo_server ::
  "('w, 'sock, 'lst, 'str, 'udp, 'buf, 'mbuf) mio \<Rightarrow> 'w waiter \<Rightarrow>
   ('udp \<Rightarrow> 'w \<Rightarrow> socket_addr io_result \<times> 'w) \<Rightarrow> bool \<Rightarrow> socket_addr \<Rightarrow> 'w \<Rightarrow>
   (echo_panic \<times> 'w) option" where
  "udp_echo_server M wait udp_local_addr info addr w =
    (case udp_bind M (\<lambda>w. (Inr [addr], w)) w of
       (Inl e, w1) \<Rightarrow> Some (Unwrap_Io e, w1)
     | (Inr server, w1) \<Rightarrow>
         (case (if info then udp_local_addr (udp_socket_deref server) w1 else (Inr addr, w1)) of
            (Inl e, w2) \<Rightarrow> Some (Unwrap_Io e, w2)
          | (Inr _, w2) \<Rightarrow> udp_echo_loop M wait server (replicate 1024 0, w2)))"

end
