(* ===== verification/Net_Blocking.thy ===== *)
theory Net_Blocking
  imports Net_Model
begin

text \<open>
  The retry loops of \<open>accept\<close>, \<open>read\<close>, \<open>write\<close>, \<open>recv_from\<close> and \<open>send_to\<close> share one contract,
  the locale \<open>blocking\<close>: a blocking operation made from a non-blocking attempt and a wait.
\<close>

section \<open>The contract of a blocking operation\<close>

text \<open>
  Big-step semantics of an operation made blocking: attempts that would block alternate with
  waits that succeed, until an attempt succeeds or fails or a wait fails.
\<close>

inductive settles ::
  "('s \<Rightarrow> 'a option io_result \<times> 's) \<Rightarrow> ('s \<Rightarrow> unit io_result \<times> 's) \<Rightarrow> 's \<Rightarrow> 'a io_result \<times> 's \<Rightarrow> bool"
  for attempt wait where
  done_at_once: "attempt s = (Inr (Some x), s') \<Longrightarrow> settles attempt wait s (Inr x, s')"
| failed_at_once: "attempt s = (Inl e, s') \<Longrightarrow> settles attempt wait s (Inl e, s')"
| wait_refused: "attempt s = (Inr None, s1) \<Longrightarrow> wait s1 = (Inl e, s2) \<Longrightarrow>
    settles attempt wait s (Inl e, s2)"
| waited: "attempt s = (Inr None, s1) \<Longrightarrow> wait s1 = (Inr u, s2) \<Longrightarrow> settles attempt wait s2 r \<Longrightarrow>
    settles attempt wait s r"

text \<open>The same from inside the retry loop, which waits first.\<close>

definition settles_waiting ::
  "('s \<Rightarrow> 'a option io_result \<times> 's) \<Rightarrow> ('s \<Rightarrow> unit io_result \<times> 's) \<Rightarrow> 's \<Rightarrow> 'a io_result \<times> 's \<Rightarrow> bool" where
  "settles_waiting attempt wait s r \<longleftrightarrow>
    (case wait s of (Inl e, s') \<Rightarrow> r = (Inl e, s') | (Inr _, s') \<Rightarrow> settles attempt wait s' r)"

lemma settles_blocked:
  "attempt s = (Inr None, s1) \<Longrightarrow> settles_waiting attempt wait s1 r \<Longrightarrow> settles attempt wait s r"
  by (auto simp: settles_waiting_def intro: settles.wait_refused settles.waited
      split: prod.splits sum.splits)

text \<open>An attempt that would block, followed by a successful wait; and \<open>n\<close> of them.\<close>

definition blocked_round ::
  "('s \<Rightarrow> 'a option io_result \<times> 's) \<Rightarrow> ('s \<Rightarrow> unit io_result \<times> 's) \<Rightarrow> 's \<Rightarrow> 's option" where
  "blocked_round attempt wait s =
    (case attempt s of
       (Inr None, s1) \<Rightarrow> (case wait s1 of (Inr _, s2) \<Rightarrow> Some s2 | _ \<Rightarrow> None)
     | _ \<Rightarrow> None)"

primrec rounds ::
  "('s \<Rightarrow> 'a option io_result \<times> 's) \<Rightarrow> ('s \<Rightarrow> unit io_result \<times> 's) \<Rightarrow> nat \<Rightarrow> 's \<Rightarrow> 's option" where
  "rounds attempt wait 0 s = Some s"
| "rounds attempt wait (Suc n) s = Option.bind (blocked_round attempt wait s) (rounds attempt wait n)"

text \<open>The result of a round that ends the operation.\<close>

definition last_round ::
  "('s \<Rightarrow> 'a option io_result \<times> 's) \<Rightarrow> ('s \<Rightarrow> unit io_result \<times> 's) \<Rightarrow> 's \<Rightarrow> ('a io_result \<times> 's) option" where
  "last_round attempt wait s =
    (case attempt s of
       (Inl e, s') \<Rightarrow> Some (Inl e, s')
     | (Inr (Some x), s') \<Rightarrow> Some (Inr x, s')
     | (Inr None, s1) \<Rightarrow> (case wait s1 of (Inl e, s2) \<Rightarrow> Some (Inl e, s2) | (Inr _, s2) \<Rightarrow> None))"

lemma last_round_None: "last_round attempt wait s = None \<longleftrightarrow> blocked_round attempt wait s \<noteq> None"
  by (auto simp: last_round_def blocked_round_def split: prod.splits sum.splits option.splits)

lemma rounds_Suc:
  "rounds attempt wait (Suc n) s = Option.bind (rounds attempt wait n s) (blocked_round attempt wait)"
proof (induction n arbitrary: s)
  case (Suc n)
  have IH: "rounds attempt wait (Suc n) =
      (\<lambda>s. Option.bind (rounds attempt wait n s) (blocked_round attempt wait))"
    using Suc.IH by (rule ext)
  have "rounds attempt wait (Suc (Suc n)) s = Option.bind (blocked_round attempt wait s)
      (\<lambda>s. Option.bind (rounds attempt wait n s) (blocked_round attempt wait))"
    by (simp only: rounds.simps(2) [of attempt wait "Suc n"] IH)
  also have "\<dots> = Option.bind (rounds attempt wait (Suc n) s) (blocked_round attempt wait)"
    by (cases "blocked_round attempt wait s") simp_all
  finally show ?case .
qed (simp split: bind_split)

lemma settles_step:
  "blocked_round attempt wait s = Some s' \<Longrightarrow>
   settles attempt wait s r \<longleftrightarrow> settles attempt wait s' r"
  by (subst settles.simps)
    (auto simp: blocked_round_def split: prod.splits sum.splits option.splits)

lemma settles_last:
  "last_round attempt wait s = Some r' \<Longrightarrow> settles attempt wait s r \<longleftrightarrow> r = r'"
  by (subst settles.simps)
    (auto simp: last_round_def split: prod.splits sum.splits option.splits)

lemma settles_rounds:
  "settles attempt wait s r \<longleftrightarrow>
    (\<exists>n s'. rounds attempt wait n s = Some s' \<and> last_round attempt wait s' = Some r)"
proof
  assume "settles attempt wait s r"
  then show "\<exists>n s'. rounds attempt wait n s = Some s' \<and> last_round attempt wait s' = Some r"
  proof induction
    case (waited s s1 u s2 r)
    then obtain n s' where "rounds attempt wait n s2 = Some s'" "last_round attempt wait s' = Some r"
      by blast
    then have "rounds attempt wait (Suc n) s = Some s'"
      using waited.hyps by (simp add: blocked_round_def)
    then show ?case using \<open>last_round attempt wait s' = Some r\<close> by blast
  qed (auto simp: last_round_def intro!: exI [of _ 0])
next
  assume "\<exists>n s'. rounds attempt wait n s = Some s' \<and> last_round attempt wait s' = Some r"
  then obtain n s' where "rounds attempt wait n s = Some s'" "last_round attempt wait s' = Some r"
    by blast
  then show "settles attempt wait s r"
    by (induction n arbitrary: s) (auto simp: settles_last settles_step split: bind_splits)
qed

text \<open>
  What a client of a blocking operation relies on; \<open>attempt\<close> is the non-blocking operation and
  \<open>wait\<close> waits for its descriptor. \<open>call\<close> yields \<open>None\<close> where it never returns.
\<close>

locale blocking =
  fixes call :: "'s \<Rightarrow> ('a io_result \<times> 's) option"
    and attempt :: "'s \<Rightarrow> 'a option io_result \<times> 's"
    and wait :: "'s \<Rightarrow> unit io_result \<times> 's"
  assumes ready: "attempt s = (Inr (Some x), s') \<Longrightarrow> call s = Some (Inr x, s')"
    and failed: "attempt s = (Inl e, s') \<Longrightarrow> call s = Some (Inl e, s')"
    and refused: "attempt s = (Inr None, s1) \<Longrightarrow> wait s1 = (Inl e, s2) \<Longrightarrow> call s = Some (Inl e, s2)"
    and again: "attempt s = (Inr None, s1) \<Longrightarrow> wait s1 = (Inr u, s2) \<Longrightarrow> call s = call s2"
    and returns: "call s = Some r \<Longrightarrow> settles attempt wait s r"
begin

lemma call_iff: "call s = Some r \<longleftrightarrow> settles attempt wait s r"
proof
  assume "settles attempt wait s r"
  then show "call s = Some r"
    by induction (simp_all add: ready failed refused again)
qed (rule returns)

lemma call_rounds:
  "call s = Some r \<longleftrightarrow>
    (\<exists>n s'. rounds attempt wait n s = Some s' \<and> last_round attempt wait s' = Some r)"
  by (simp add: call_iff settles_rounds)

text \<open>The only way not to return is to be woken for ever without being able to go on.\<close>

lemma never_returns: "call s = None \<longleftrightarrow> (\<forall>n. rounds attempt wait n s \<noteq> None)"
proof
  assume none: "call s = None"
  show "\<forall>n. rounds attempt wait n s \<noteq> None"
  proof
    fix n show "rounds attempt wait n s \<noteq> None"
    proof (induction n)
      case (Suc n)
      then obtain s' where s': "rounds attempt wait n s = Some s'" by blast
      then have "last_round attempt wait s' = None"
        using none call_rounds [of s] by (cases "last_round attempt wait s'") auto
      then show ?case using s' unfolding rounds_Suc last_round_None by simp
    qed simp
  qed
next
  assume all: "\<forall>n. rounds attempt wait n s \<noteq> None"
  show "call s = None"
  proof (cases "call s")
    case (Some r)
    then obtain n s' where "rounds attempt wait n s = Some s'" "last_round attempt wait s' = Some r"
      using call_rounds by blast
    then have "rounds attempt wait (Suc n) s = None"
      using last_round_None [of attempt wait s'] unfolding rounds_Suc by simp
    then show ?thesis using all by blast
  qed
qed

end

section \<open>The blocking operations of the crate\<close>

text \<open>The world is the second component of the state of an operation with a buffer.\<close>

definition on_snd :: "('w \<Rightarrow> unit io_result \<times> 'w) \<Rightarrow> 'b \<times> 'w \<Rightarrow> unit io_result \<times> 'b \<times> 'w" where
  "on_snd f s = (case f (snd s) of (r, w) \<Rightarrow> (r, fst s, w))"

text \<open>Turning what \<open>mio\<close> returns into what the crate returns.\<close>

definition map_attempt ::
  "('s \<Rightarrow> 'x \<Rightarrow> 'y) \<Rightarrow> ('s \<Rightarrow> 'x option io_result \<times> 's) \<Rightarrow> 's \<Rightarrow> 'y option io_result \<times> 's" where
  "map_attempt f attempt s = (case attempt s of (r, s') \<Rightarrow> (map_sum id (map_option (f s')) r, s'))"

lemma map_attempt_eq:
  "map_attempt f a s = (Inr None, s') \<longleftrightarrow> a s = (Inr None, s')"
  "map_attempt f a s = (Inr (Some y), s') \<longleftrightarrow> (\<exists>x. a s = (Inr (Some x), s') \<and> y = f s' x)"
  "map_attempt f a s = (Inl e, s') \<longleftrightarrow> a s = (Inl e, s')"
  by (cases "a s"; cases "fst (a s)"; auto simp: map_attempt_def)+

abbreviation "accept_attempt M self \<equiv>
  map_attempt (\<lambda>_. TcpStream) (lst_accept M (tcp_listener_deref self))"
abbreviation "accept_wait M wait self \<equiv> wait (lst_fd M (tcp_listener_deref self)) Readable"

lemma accept_loop_settles:
  assumes "accept_loop M wait self w = Some r"
  shows "settles_waiting (accept_attempt M self) (accept_wait M wait self) w r"
  by (rule accept_loop.raw_induct [OF _ assms, of "\<lambda>M wait self w r.
      settles_waiting (accept_attempt M self) (accept_wait M wait self) w r"])
    (auto simp: settles_waiting_def map_attempt_def split: prod.splits sum.splits option.splits
      intro: settles.intros settles_blocked)

lemma accept_loop_eq:
  "accept_loop M wait self w =
    (case accept_wait M wait self w of
       (Inl e, w1) \<Rightarrow> Some (Inl e, w1)
     | (Inr _, w1) \<Rightarrow> accept M wait self w1)"
  unfolding accept_def by (subst accept_loop.simps) (rule refl)

interpretation accept: blocking "accept M wait self" "accept_attempt M self"
  "accept_wait M wait self" for M wait self
proof unfold_locales
  show "accept M wait self w = Some r \<Longrightarrow>
      settles (accept_attempt M self) (accept_wait M wait self) w r" for w r
    by (auto simp: accept_def map_attempt_def split: prod.splits sum.splits option.splits
        intro: settles.intros settles_blocked dest!: accept_loop_settles)
qed (auto simp: accept_def map_attempt_eq accept_loop_eq)


abbreviation "read_attempt M self \<equiv> str_try_read M (tcp_stream_deref self)"
abbreviation "read_wait M wait self \<equiv> on_snd (wait (str_fd M (tcp_stream_deref self)) Readable)"

lemma read_loop_settles:
  assumes "read_loop M wait self s = Some r"
  shows "settles_waiting (read_attempt M self) (read_wait M wait self) s r"
  by (rule read_loop.raw_induct [OF _ assms, of "\<lambda>M wait self s r.
      settles_waiting (read_attempt M self) (read_wait M wait self) s r"])
    (auto simp: settles_waiting_def on_snd_def split: prod.splits sum.splits option.splits
      intro: settles.intros settles_blocked)

lemma read_loop_eq:
  "read_loop M wait self s =
    (case read_wait M wait self s of
       (Inl e, s1) \<Rightarrow> Some (Inl e, s1)
     | (Inr _, s1) \<Rightarrow> tcp_read M wait self s1)"
  by (subst read_loop.simps) (auto simp: tcp_read_def on_snd_def split: prod.split sum.split)

interpretation stream_read: blocking "tcp_read M wait self" "read_attempt M self"
  "read_wait M wait self" for M wait self
proof unfold_locales
  show "tcp_read M wait self s = Some r \<Longrightarrow>
      settles (read_attempt M self) (read_wait M wait self) s r" for s r
    by (auto simp: tcp_read_def split: prod.splits sum.splits option.splits
        intro: settles.intros settles_blocked dest!: read_loop_settles)
qed (auto simp: tcp_read_def read_loop_eq)

abbreviation "write_attempt M self buf \<equiv> str_try_write M (tcp_stream_deref self) buf"
abbreviation "write_wait M wait self \<equiv> wait (str_fd M (tcp_stream_deref self)) Writable"

lemma write_loop_settles:
  assumes "write_loop M wait self buf w = Some r"
  shows "settles_waiting (write_attempt M self buf) (write_wait M wait self) w r"
  by (rule write_loop.raw_induct [OF _ assms, of "\<lambda>M wait self buf w r.
      settles_waiting (write_attempt M self buf) (write_wait M wait self) w r"])
    (auto simp: settles_waiting_def split: prod.splits sum.splits option.splits
      intro: settles.intros settles_blocked)

lemma write_loop_eq:
  "write_loop M wait self buf w =
    (case write_wait M wait self w of
       (Inl e, w1) \<Rightarrow> Some (Inl e, w1)
     | (Inr _, w1) \<Rightarrow> tcp_write M wait self buf w1)"
  unfolding tcp_write_def by (subst write_loop.simps) (rule refl)

interpretation stream_write: blocking "tcp_write M wait self buf" "write_attempt M self buf"
  "write_wait M wait self" for M wait self buf
proof unfold_locales
  show "tcp_write M wait self buf w = Some r \<Longrightarrow>
      settles (write_attempt M self buf) (write_wait M wait self) w r" for w r
    by (auto simp: tcp_write_def split: prod.splits sum.splits option.splits
        intro: settles.intros settles_blocked dest!: write_loop_settles)
qed (auto simp: tcp_write_def write_loop_eq)

abbreviation "udp_wait M wait self i \<equiv> on_snd (wait (udp_fd M (udp_socket_deref self)) i)"
abbreviation "recv_attempt M self n \<equiv>
  map_attempt (\<lambda>s addr. (n - mslice_remaining M (fst s), addr)) (udp_recv_from M (udp_socket_deref self))"

lemma recv_from_loop_settles:
  assumes "recv_from_loop M wait self n s = Some r"
  shows "settles_waiting (recv_attempt M self n) (udp_wait M wait self Readable) s r"
  by (rule recv_from_loop.raw_induct [OF _ assms, of "\<lambda>M wait self n s r.
      settles_waiting (recv_attempt M self n) (udp_wait M wait self Readable) s r"])
    (auto simp: settles_waiting_def on_snd_def map_attempt_def
      split: prod.splits sum.splits option.splits intro: settles.intros settles_blocked)

lemma recv_from_loop_eq:
  "recv_from_loop M wait self n s =
    (case udp_wait M wait self Readable s of
       (Inl e, s1) \<Rightarrow> Some (Inl e, s1)
     | (Inr _, s1) \<Rightarrow> recv_from_buf M wait self n s1)"
  by (subst recv_from_loop.simps) (auto simp: recv_from_buf_def on_snd_def split: prod.split sum.split)

interpretation recv: blocking "recv_from_buf M wait self n" "recv_attempt M self n"
  "udp_wait M wait self Readable" for M wait self n
proof unfold_locales
  show "recv_from_buf M wait self n s = Some r \<Longrightarrow>
      settles (recv_attempt M self n) (udp_wait M wait self Readable) s r" for s r
    by (auto simp: recv_from_buf_def map_attempt_def split: prod.splits sum.splits option.splits
        intro: settles.intros settles_blocked dest!: recv_from_loop_settles)
qed (auto simp: recv_from_buf_def map_attempt_eq recv_from_loop_eq)

text \<open>\<open>send_to\<close> with one address.\<close>

abbreviation "send_attempt M self n addr \<equiv>
  map_attempt (\<lambda>s _. n - slice_remaining M (fst s)) (udp_send_to M (udp_socket_deref self) addr)"

lemma send_to_wait_settles:
  assumes "send_to_wait M wait self n addr s = Some r"
  shows "settles_waiting (send_attempt M self n addr) (udp_wait M wait self Writable) s r"
  by (rule send_to_wait.raw_induct [OF _ assms, of "\<lambda>M wait self n addr s r.
      settles_waiting (send_attempt M self n addr) (udp_wait M wait self Writable) s r"])
    (auto simp: settles_waiting_def on_snd_def map_attempt_def
      split: prod.splits sum.splits option.splits intro: settles.intros settles_blocked)

lemma send_to_wait_eq:
  "send_to_wait M wait self n addr s =
    (case udp_wait M wait self Writable s of
       (Inl e, s1) \<Rightarrow> Some (Inl e, s1)
     | (Inr _, s1) \<Rightarrow> send_to_addrs M wait self n [addr] last_err s1)"
  by (subst send_to_wait.simps) (auto simp: on_snd_def split: prod.split sum.split)

interpretation send: blocking "send_to_addrs M wait self n [addr] last_err"
  "send_attempt M self n addr" "udp_wait M wait self Writable" for M wait self n addr last_err
proof unfold_locales
  show "send_to_addrs M wait self n [addr] last_err s = Some r \<Longrightarrow>
      settles (send_attempt M self n addr) (udp_wait M wait self Writable) s r" for s r
    by (auto simp: map_attempt_def split: prod.splits sum.splits option.splits
        intro: settles.intros settles_blocked dest!: send_to_wait_settles)
qed (auto simp: map_attempt_eq send_to_wait_eq [where last_err = last_err])

end
