(* ===== verification/Net_Properties.thy ===== *)
theory Net_Properties
  imports Net_Blocking
begin

text \<open>
  What the sockets of the crate do, for every behaviour of \<open>mio\<close> and every way of waiting; the
  operations with a retry loop through the interpretations of \<open>Net_Blocking\<close>.
\<close>

section \<open>A concrete network\<close>

text \<open>
  An instance of the parameters for the witnesses. The world is a number: while it is
  positive, operations would block; waiting counts it down, and fails at 100. Buffers are
  what is left to send or room left to fill. Connecting to port 0 is refused at once.
\<close>

type_synonym demo_mio = "(int, nat, nat, int, nat, byte list, byte list) mio"

definition refused :: io_error where
  "refused = Io_Error ConnectionRefused ''refused''"

definition demo_mio :: demo_mio where
  "demo_mio = \<lparr>
     sock_v4 = (\<lambda>w. (Inr 4, w)), sock_v6 = (\<lambda>w. (Inr 6, w)),
     sock_connect = (\<lambda>s a w. if a = V4 0 0 then (Inl refused, w) else (Inr (w, w \<le> 0), w)),
     sock_listen = (\<lambda>s n w. (Inr s, w)),
     lst_bind = (\<lambda>a w. if a = V4 0 0 then (Inl refused, w) else (Inr 1, w)),
     lst_accept = (\<lambda>l w. if 0 < w then (Inr None, w) else (Inr (Some 7), w)),
     lst_try_clone = (\<lambda>l w. (Inr l, w)), lst_fd = int,
     str_peer_addr = (\<lambda>s w. (Inr (V4 1 2), w)), str_local_addr = (\<lambda>s w. (Inr (V4 3 4), w)),
     str_try_clone = (\<lambda>s w. (Inr s, w)), str_shutdown = (\<lambda>s h w. (Inr (), w)),
     str_take_socket_error = (\<lambda>s w. if s = 50 then (Inl refused, w) else (Inr (), w)),
     str_try_read = (\<lambda>s (b, w). if 0 < w then (Inr None, b, w) else (Inr (Some 1), 9 # tl b, w)),
     str_try_write = (\<lambda>s b w. if 0 < w then (Inr None, w) else (Inr (Some (of_nat (length b))), w)),
     str_fd = id,
     udp_v4 = (\<lambda>w. (Inr 4, w)), udp_v6 = (\<lambda>w. (Inr 6, w)), udp_bound = (\<lambda>a w. (Inr 1, w)),
     udp_try_clone = (\<lambda>u w. (Inr u, w)),
     udp_send_to = (\<lambda>u a (b, w). if a = V4 0 0 then (Inl refused, b, w)
       else if 0 < w then (Inr None, b, w)
       else if a = V4 5 5 then (Inl refused, b, w) else (Inr (Some ()), [], w)),
     udp_recv_from = (\<lambda>u (b, w). if 0 < w then (Inr None, b, w) else (Inr (Some (V4 1 2)), tl b, w)),
     udp_fd = int, slice_wrap = id, slice_remaining = (\<lambda>b. of_nat (length b)),
     mslice_wrap = id, mslice_remaining = (\<lambda>b. of_nat (length b)), mslice_contents = id\<rparr>"

definition demo_wait :: "int waiter" where
  "demo_wait f i w = (if w = 100 then (Inl refused, w) else (Inr (), w - 1))"

section \<open>Addresses\<close>

text \<open>Trying \<open>f\<close> on every address of a list fails each time, with these errors.\<close>

fun fails ::
  "(socket_addr \<Rightarrow> 'w \<Rightarrow> 't io_result \<times> 'w) \<Rightarrow> socket_addr list \<Rightarrow> 'w \<Rightarrow> io_error list \<Rightarrow> 'w \<Rightarrow> bool" where
  "fails f [] w es v \<longleftrightarrow> es = [] \<and> v = w"
| "fails f (a # as) w es v \<longleftrightarrow>
    (\<exists>e w' es'. f a w = (Inl e, w') \<and> es = e # es' \<and> fails f as w' es' v)"

lemma each_addr_loop_Inl:
  "each_addr_loop f as le w = (Inl e, v) \<longleftrightarrow>
    (\<exists>es. fails f as w es v \<and> e =
      (if es = [] then (case le of Some e' \<Rightarrow> e'
         | None \<Rightarrow> Io_Error InvalidInput ''could not resolve to any addresses'') else last es))"
proof (induction as arbitrary: le w)
  case (Cons a as)
  obtain r w' where fa: "f a w = (r, w')" by fastforce
  show ?case
  proof (cases r)
    case (Inl e')
    have "(\<exists>es. fails f (a # as) w es v \<and> P es) \<longleftrightarrow> (\<exists>es. fails f as w' es v \<and> P (e' # es))" for P
      using fa Inl by auto
    then show ?thesis using fa Inl Cons.IH [of "Some e'" w'] by simp
  qed (use fa in simp)
qed auto

lemma each_addr_loop_Inr:
  "each_addr_loop f as le w = (Inr x, v) \<longleftrightarrow>
    (\<exists>pre a post es w'. as = pre @ a # post \<and> fails f pre w es w' \<and> f a w' = (Inr x, v))"
proof (induction as arbitrary: le w)
  case (Cons a as)
  obtain r w' where fa: "f a w = (r, w')" by fastforce
  show ?case
  proof (cases r)
    case (Inl e')
    have "(\<exists>pre b post es u. a # as = pre @ b # post \<and> fails f pre w es u \<and> f b u = (Inr x, v)) \<longleftrightarrow>
        (\<exists>pre b post es u. as = pre @ b # post \<and> fails f pre w' es u \<and> f b u = (Inr x, v))"
      (is "?L \<longleftrightarrow> ?R")
    proof
      assume ?L
      then obtain pre b post es u where *: "a # as = pre @ b # post" "fails f pre w es u"
        "f b u = (Inr x, v)" by blast
      then show ?R using fa Inl by (cases pre) auto
    next
      assume ?R
      then obtain pre b post es u where "as = pre @ b # post" "fails f pre w' es u"
        "f b u = (Inr x, v)" by blast
      then have "a # as = (a # pre) @ b # post" "fails f (a # pre) w (e' # es) u"
        using fa Inl by auto
      then show ?L using \<open>f b u = (Inr x, v)\<close> by blast
    qed
    then show ?thesis using fa Inl Cons.IH by simp
  next
    case (Inr y)
    then have "pre = []" if "a # as = pre @ b # post" "fails f pre w es u" for pre b post es u
      using that fa by (cases pre) auto
    then show ?thesis using fa Inr by (auto intro!: exI [of _ "[]"]) fastforce+
  qed
qed simp

text \<open>C31. Resolving an address and trying it: the first address that works decides, after those
  before it have each been tried once, in order, and failed; when all fail the error is the
  last one, and without any address it is \<open>InvalidInput\<close>.\<close>

theorem each_addr_spec:
  assumes "addr w = (Inr as, w0)"
  shows "(each_addr addr f w = (Inr x, v) \<longleftrightarrow>
      (\<exists>pre a post es w'. as = pre @ a # post \<and> fails f pre w0 es w' \<and> f a w' = (Inr x, v))) \<and>
    (each_addr addr f w = (Inl e, v) \<longleftrightarrow>
      (\<exists>es. fails f as w0 es v \<and> e = (if es = []
         then Io_Error InvalidInput ''could not resolve to any addresses'' else last es)))"
  using assms by (simp add: each_addr_def each_addr_loop_Inl each_addr_loop_Inr)

theorem each_addr_spec_witness:
  "each_addr (\<lambda>w. (Inr [V4 0 0, V4 1 80], w)) (lst_bind demo_mio) 3 = (Inr 1, 3) \<and>
   (\<exists>pre a post es w'. [V4 0 0, V4 1 80] = pre @ a # post \<and>
      fails (lst_bind demo_mio) pre 3 es w' \<and> lst_bind demo_mio a w' = (Inr 1, 3))"
proof -
  have "each_addr (\<lambda>w. (Inr [V4 0 0, V4 1 80], w)) (lst_bind demo_mio) 3 = (Inr 1, 3)"
    by (simp add: each_addr_def demo_mio_def)
  then show ?thesis
    using each_addr_spec [of "\<lambda>w. (Inr [V4 0 0, V4 1 80], w)" 3 "[V4 0 0, V4 1 80]" 3
        "lst_bind demo_mio" 1 3] by simp
qed

section \<open>Blocking operations\<close>

text \<open>\<open>accept\<close> returns exactly what some round of the retry loop ends with: before it, each
  attempt would have blocked and was followed by exactly one successful wait for the listener
  to be readable; \<open>WouldBlock\<close> never reaches the caller, every error does.\<close>

lemma accept_returns:
  "accept M wait self w = Some r \<longleftrightarrow>
    (\<exists>n w'. rounds (accept_attempt M self) (accept_wait M wait self) n w = Some w' \<and>
       last_round (accept_attempt M self) (accept_wait M wait self) w' = Some r)"
  by (rule accept.call_rounds)

text \<open>\<open>read\<close> of a stream returns exactly what some round ends with, with the buffer threaded
  through every attempt, and it never returns only when every wait succeeds and every attempt
  after it would block again.\<close>

lemma read_returns:
  "(tcp_read M wait self s = Some r \<longleftrightarrow>
     (\<exists>n s'. rounds (read_attempt M self) (read_wait M wait self) n s = Some s' \<and>
        last_round (read_attempt M self) (read_wait M wait self) s' = Some r)) \<and>
   (tcp_read M wait self s = None \<longleftrightarrow>
     (\<forall>n. rounds (read_attempt M self) (read_wait M wait self) n s \<noteq> None))"
  by (simp add: stream_read.call_rounds stream_read.never_returns)

text \<open>The same for \<open>write\<close>, which waits for the stream to be writable.\<close>

lemma write_returns:
  "(tcp_write M wait self buf w = Some r \<longleftrightarrow>
     (\<exists>n w'. rounds (write_attempt M self buf) (write_wait M wait self) n w = Some w' \<and>
        last_round (write_attempt M self buf) (write_wait M wait self) w' = Some r)) \<and>
   (tcp_write M wait self buf w = None \<longleftrightarrow>
     (\<forall>n. rounds (write_attempt M self buf) (write_wait M wait self) n w \<noteq> None))"
  by (simp add: stream_write.call_rounds stream_write.never_returns)

text \<open>\<open>recv_from\<close> returns what the last round ends with; the length it reports is that of the
  slice less what the receiving attempt left of it.\<close>

lemma recv_from_returns:
  "recv_from M wait self bytes w = Some r \<longleftrightarrow>
    (let n = of_nat (length bytes) in
      \<exists>k s'. rounds (recv_attempt M self n) (udp_wait M wait self Readable) k
          (mslice_wrap M bytes, w) = Some s' \<and>
        last_round (recv_attempt M self n) (udp_wait M wait self Readable) s' = Some r)"
  by (simp add: recv_from_def recv.call_rounds Let_def)

section \<open>Sending to several addresses\<close>

text \<open>
  The address that decides: those before it have failed at once, one after the other, and it
  does not.
\<close>

definition decides ::
  "(socket_addr \<Rightarrow> 's \<Rightarrow> 't io_result \<times> 's) \<Rightarrow> socket_addr list \<Rightarrow> 's \<Rightarrow> socket_addr \<Rightarrow> 's \<Rightarrow> bool" where
  "decides f as s a s' \<longleftrightarrow> (\<exists>pre post es. as = pre @ a # post \<and> fails f pre s es s') \<and>
    \<not> isl (fst (f a s'))"

lemma decides_Cons_failed:
  assumes "f a s = (Inl e, s1)"
  shows "decides f (a # as) s b s' \<longleftrightarrow> decides f as s1 b s'"
proof
  assume d: "decides f (a # as) s b s'"
  then obtain pre post es where *: "a # as = pre @ b # post" "fails f pre s es s'"
    unfolding decides_def by blast
  then show "decides f as s1 b s'" using d assms by (cases pre) (auto simp: decides_def)
next
  assume d: "decides f as s1 b s'"
  then obtain pre post es where "as = pre @ b # post" "fails f pre s1 es s'"
    unfolding decides_def by blast
  then have "a # as = (a # pre) @ b # post" "fails f (a # pre) s (e # es) s'" using assms by auto
  then show "decides f (a # as) s b s'" using d unfolding decides_def by blast
qed

lemma decides_Cons:
  assumes "\<not> isl (fst (f a s))"
  shows "decides f (a # as) s b s' \<longleftrightarrow> b = a \<and> s' = s"
proof
  assume d: "decides f (a # as) s b s'"
  then obtain pre post es where *: "a # as = pre @ b # post" "fails f pre s es s'"
    unfolding decides_def by blast
  then show "b = a \<and> s' = s" using assms by (cases pre) auto
next
  assume "b = a \<and> s' = s"
  then show "decides f (a # as) s b s'"
    using assms unfolding decides_def by (intro conjI exI [of _ "[]"] exI [of _ as]) auto
qed

lemma fails_Cons_Inl:
  "f a s = (Inl e, s1) \<Longrightarrow> fails f (a # as) s es v \<longleftrightarrow> (\<exists>es'. es = e # es' \<and> fails f as s1 es' v)"
  by auto

text \<open>With any error kept from earlier addresses.\<close>

lemma send_to_addrs_returns:
  fixes M wait self n
  assumes att: "att = udp_send_to M (udp_socket_deref self)"
  shows "send_to_addrs M wait self n as le s = Some (r, v) \<longleftrightarrow>
    (\<exists>es. fails att as s es v \<and> r = (if es = [] then le else Inl (last es))) \<or>
    (\<exists>a s'. decides att as s a s' \<and>
      settles (send_attempt M self n a) (udp_wait M wait self Writable) s' (r, v))"
proof (induction as arbitrary: le s)
  case Nil
  show ?case by (auto simp: decides_def)
next
  case (Cons a as)
  show ?case
  proof -
    obtain x s1 where Pair: "att a s = (x, s1)" by (cases "att a s")
    show ?thesis
    proof (cases x)
      case (Inl e)
      then have a: "att a s = (Inl e, s1)" using Pair by simp
      then have "send_to_addrs M wait self n (a # as) le s = send_to_addrs M wait self n as (Inl e) s1"
        by (simp add: att)
      then show ?thesis using Cons.IH [of "Inl e" s1] a
        by (auto simp: decides_Cons_failed [of att, OF a])
    next
      case (Inr y)
      then have ok: "\<not> isl (fst (att a s))" using Pair by simp
      have "send_to_addrs M wait self n (a # as) le s = send_to_addrs M wait self n [a] le s"
        using Pair Inr by (simp add: att split: option.split)
      then show ?thesis
        using ok Pair Inr by (auto simp: decides_Cons [of att, OF ok] send.call_iff simp del: send_to_addrs.simps)
    qed
  qed
qed

lemma send_to_addrs_hangs:
  fixes M wait self n
  assumes att: "att = udp_send_to M (udp_socket_deref self)"
  shows "send_to_addrs M wait self n as le s = None \<longleftrightarrow>
    (\<exists>a s'. decides att as s a s' \<and>
      (\<forall>k. rounds (send_attempt M self n a) (udp_wait M wait self Writable) k s' \<noteq> None))"
proof (induction as arbitrary: le s)
  case Nil
  show ?case by (auto simp: decides_def)
next
  case (Cons a as)
  show ?case
  proof -
    obtain x s1 where Pair: "att a s = (x, s1)" by (cases "att a s")
    show ?thesis
    proof (cases x)
      case (Inl e)
      then have a: "att a s = (Inl e, s1)" using Pair by simp
      then have "send_to_addrs M wait self n (a # as) le s = send_to_addrs M wait self n as (Inl e) s1"
        by (simp add: att)
      then show ?thesis using Cons.IH [of "Inl e" s1]
        by (auto simp: decides_Cons_failed [of att, OF a])
    next
      case (Inr y)
      then have ok: "\<not> isl (fst (att a s))" using Pair by simp
      have "send_to_addrs M wait self n (a # as) le s = send_to_addrs M wait self n [a] le s"
        using Pair Inr by (simp add: att split: option.split)
      then show ?thesis
        by (auto simp: decides_Cons [of att, OF ok] send.never_returns simp del: send_to_addrs.simps)
    qed
  qed
qed

text \<open>C33. Exactly what \<open>send_to\<close> does with the addresses the target resolves to. An address that
  fails at once passes the turn to the next one; when all do, the result is the last error, and
  \<open>Ok(0)\<close> when there is no address. The first address that does not fail at once decides alone:
  the result is what the retries of that one address end with, after any number of attempts that
  would block and waits, be it an error, so the addresses after it are never tried; and
  \<open>send_to\<close> never returns iff they do not end.\<close>

theorem send_to_spec:
  assumes "target w = (Inr as, w0)"
  shows "(send_to M wait self bytes target w = Some (r, v) \<longleftrightarrow>
      (\<exists>es. fails (udp_send_to M (udp_socket_deref self)) as (slice_wrap M bytes, w0) es v \<and>
        r = (if es = [] then Inr 0 else Inl (last es))) \<or>
      (\<exists>a s k s'. decides (udp_send_to M (udp_socket_deref self)) as (slice_wrap M bytes, w0) a s \<and>
        rounds (send_attempt M self (of_nat (length bytes)) a) (udp_wait M wait self Writable) k s = Some s' \<and>
        last_round (send_attempt M self (of_nat (length bytes)) a) (udp_wait M wait self Writable) s' =
          Some (r, v))) \<and>
    (send_to M wait self bytes target w = None \<longleftrightarrow>
      (\<exists>a s. decides (udp_send_to M (udp_socket_deref self)) as (slice_wrap M bytes, w0) a s \<and>
        (\<forall>k. rounds (send_attempt M self (of_nat (length bytes)) a) (udp_wait M wait self Writable) k s \<noteq> None)))"
  using assms by (simp add: send_to_def send_to_addrs_returns [OF refl] send_to_addrs_hangs [OF refl]
      settles_rounds)

theorem send_to_spec_witness:
  "send_to demo_mio demo_wait (UdpSocket 1) [1, 2] (\<lambda>w. (Inr [V4 0 0, V4 5 5, V4 1 80], w)) 2
     = Some (Inl refused, [1, 2], 0)"
proof -
  let ?att = "udp_send_to demo_mio (udp_socket_deref (UdpSocket 1))"
  have "decides ?att [V4 0 0, V4 5 5, V4 1 80] ([1, 2], 2) (V4 5 5) ([1, 2], 2)"
    unfolding decides_def
    by (intro conjI exI [of _ "[V4 0 0]"] exI [of _ "[V4 1 80]"] exI [of _ "[refused]"])
      (simp_all add: demo_mio_def)
  moreover have "rounds (send_attempt demo_mio (UdpSocket 1) 2 (V4 5 5))
      (udp_wait demo_mio demo_wait (UdpSocket 1) Writable) (Suc (Suc 0)) ([1, 2], 2) = Some ([1, 2], 0)"
    by (simp add: blocked_round_def map_attempt_def on_snd_def demo_mio_def demo_wait_def)
  moreover have "last_round (send_attempt demo_mio (UdpSocket 1) 2 (V4 5 5))
      (udp_wait demo_mio demo_wait (UdpSocket 1) Writable) ([1, 2], 0) = Some (Inl refused, [1, 2], 0)"
    by (simp add: last_round_def map_attempt_def demo_mio_def)
  moreover have "slice_wrap demo_mio [1, 2] = [1, 2]" "(of_nat (length [1 :: byte, 2]) :: usize) = 2"
    by (simp_all add: demo_mio_def)
  ultimately show ?thesis
    using send_to_spec [of "\<lambda>w. (Inr [V4 0 0, V4 5 5, V4 1 80], w)" 2 "[V4 0 0, V4 5 5, V4 1 80]" 2
        demo_mio demo_wait "UdpSocket 1" "[1, 2]" "Inl refused" "([1, 2], 0)", OF refl]
    by (simp only:) blast
qed

section \<open>Connecting\<close>

text \<open>C32. \<open>TcpStream::connect\<close> returns \<open>Ok\<close> for exactly the first address whose connection could
  be started, when it completed at once, or the wait for it succeeded and the socket then has
  no error.\<close>

theorem connect_spec:
  assumes "addr w = (Inr as, w0)"
  shows "tcp_connect M wait addr w = (Inr (TcpStream s), v) \<longleftrightarrow>
    (\<exists>pre a post es w1 w2 complete.
       as = pre @ a # post \<and> fails (connect_addr M) pre w0 es w1 \<and>
       connect_addr M a w1 = (Inr (s, complete), w2) \<and>
       (if complete then v = w2
        else \<exists>u w3 u'. wait (str_fd M s) Writable w2 = (Inr u, w3) \<and>
          str_take_socket_error M s w3 = (Inr u', v)))"
proof -
  have "tcp_connect M wait addr w = (Inr (TcpStream s), v) \<longleftrightarrow>
      (\<exists>complete w2. each_addr addr (connect_addr M) w = (Inr (s, complete), w2) \<and>
        (if complete then v = w2
         else \<exists>u w3 u'. wait (str_fd M s) Writable w2 = (Inr u, w3) \<and>
          str_take_socket_error M s w3 = (Inr u', v)))"
    by (auto simp: tcp_connect_def tcp_socket_connect_def take_socket_error_def
        split: prod.splits sum.splits if_splits)
  then show ?thesis
    using assms by (auto simp: each_addr_def each_addr_loop_Inr) blast+
qed

theorem connect_spec_witness:
  "tcp_connect demo_mio demo_wait (\<lambda>w. (Inr [V4 0 0, V4 1 80], w)) 3 = (Inr (TcpStream 3), 2) \<and>
   (\<exists>pre a post es w1 w2 complete. [V4 0 0, V4 1 80] = pre @ a # post \<and>
      fails (connect_addr demo_mio) pre 3 es w1 \<and>
      connect_addr demo_mio a w1 = (Inr (3, complete), w2))"
proof -
  have "tcp_connect demo_mio demo_wait (\<lambda>w. (Inr [V4 0 0, V4 1 80], w)) 3 = (Inr (TcpStream 3), 2)"
    by (simp add: tcp_connect_def tcp_socket_connect_def take_socket_error_def each_addr_def
        connect_addr_def tcp_socket_v4_def demo_mio_def demo_wait_def)
  then show ?thesis
    using connect_spec [of "\<lambda>w. (Inr [V4 0 0, V4 1 80], w)" 3 "[V4 0 0, V4 1 80]" 3 demo_mio
        demo_wait 3 2] by blast
qed

text \<open>An address whose connection is only started decides alone: when it turns out to fail,
  its error is returned and the other addresses are never tried.\<close>

lemma connect_no_fallback:
  assumes "addr w = (Inr (a # as), w0)" and "connect_addr M a w0 = (Inr (s, False), w1)"
    and "wait (str_fd M s) Writable w1 = (Inr u, w2)"
    and "str_take_socket_error M s w2 = (Inl e, w3)"
  shows "tcp_connect M wait addr w = (Inl e, w3)"
  using assms
  by (simp add: tcp_connect_def tcp_socket_connect_def each_addr_def take_socket_error_def)

end
