(* ===== verification/Echo_Properties.thy ===== *)
theory Echo_Properties
  imports Echo_Model Net_Properties "HOL-Library.Sublist"
begin

text \<open>
  The echo servers send back what they receive: from what \<open>mio\<close> promises of one attempt to read
  or write, through the retry loops of the crate's streams (the contract \<open>blocking\<close>),
  \<open>write_all\<close> and the loop of the server (the contract \<open>looping\<close>).
\<close>

section \<open>Streams\<close>

text \<open>
  What \<open>mio\<close> promises of the attempts on one stream, with ghost observations of the world:
  \<open>rcv\<close> is what has been received from the stream and \<open>out\<close> what has been sent. An attempt
  that would block or fails moves nothing, and waiting does neither.
\<close>

definition stream_contract ::
  "('w, 'sock, 'lst, 'str, 'udp, 'buf, 'mbuf) mio \<Rightarrow> 'w waiter \<Rightarrow> 'str tcp_stream \<Rightarrow>
   ('w \<Rightarrow> byte list) \<Rightarrow> ('w \<Rightarrow> byte list) \<Rightarrow> bool" where
  "stream_contract M wait self rcv out \<longleftrightarrow>
    (\<forall>b w r b' w'. str_try_read M (tcp_stream_deref self) (b, w) = (r, b', w') \<longrightarrow>
      length b' = length b \<and> out w' = out w \<and>
      (case r of Inr (Some n) \<Rightarrow> unat n \<le> length b \<and> rcv w' = rcv w @ take (unat n) b'
       | _ \<Rightarrow> rcv w' = rcv w)) \<and>
    (\<forall>p w r w'. str_try_write M (tcp_stream_deref self) p w = (r, w') \<longrightarrow>
      rcv w' = rcv w \<and>
      (case r of Inr (Some n) \<Rightarrow> unat n \<le> length p \<and> out w' = out w @ take (unat n) p
       | _ \<Rightarrow> out w' = out w)) \<and>
    (\<forall>w r w'. str_peer_addr M (tcp_stream_deref self) w = (r, w') \<longrightarrow>
      rcv w' = rcv w \<and> out w' = out w) \<and>
    (\<forall>f i w r w'. wait f i w = (r, w') \<longrightarrow> rcv w' = rcv w \<and> out w' = out w)"

text \<open>What an operation that would block keeps, up to the attempt or the wait that ends it.\<close>

lemma settles_keeps:
  assumes "settles attempt wait s (r, s')" and "P s"
    and "\<And>s s'. attempt s = (Inr None, s') \<Longrightarrow> P s \<Longrightarrow> P s'"
    and "\<And>s r s'. wait s = (r, s') \<Longrightarrow> P s \<Longrightarrow> P s'"
    and "\<And>s e s'. attempt s = (Inl e, s') \<Longrightarrow> P s \<Longrightarrow> Q (Inl e) s'"
    and "\<And>s x s'. attempt s = (Inr (Some x), s') \<Longrightarrow> P s \<Longrightarrow> Q (Inr x) s'"
    and "\<And>e s. P s \<Longrightarrow> Q (Inl e) s"
  shows "Q r s'"
  using assms(1,2)
proof (induction s "(r, s')" arbitrary: r s')
  case (waited s s1 u s2)
  then show ?case using assms(3,4) by blast
qed (use assms(3-7) in blast)+

lemma contract_try_read:
  "stream_contract M wait self rcv out \<Longrightarrow>
   str_try_read M (tcp_stream_deref self) (b, w) = (r, b', w') \<Longrightarrow>
   length b' = length b \<and> out w' = out w \<and>
   (case r of Inr (Some n) \<Rightarrow> unat n \<le> length b \<and> rcv w' = rcv w @ take (unat n) b'
    | _ \<Rightarrow> rcv w' = rcv w)"
  unfolding stream_contract_def by blast

lemma contract_try_write:
  "stream_contract M wait self rcv out \<Longrightarrow>
   str_try_write M (tcp_stream_deref self) p w = (r, w') \<Longrightarrow>
   rcv w' = rcv w \<and>
   (case r of Inr (Some n) \<Rightarrow> unat n \<le> length p \<and> out w' = out w @ take (unat n) p
    | _ \<Rightarrow> out w' = out w)"
  unfolding stream_contract_def by blast

lemma contract_peer_addr:
  "stream_contract M wait self rcv out \<Longrightarrow> peer_addr M self w = (r, w') \<Longrightarrow>
   rcv w' = rcv w \<and> out w' = out w"
  unfolding stream_contract_def peer_addr_def by blast

lemma contract_wait:
  "stream_contract M wait self rcv out \<Longrightarrow> wait f i w = (r, w') \<Longrightarrow>
   rcv w' = rcv w \<and> out w' = out w"
  unfolding stream_contract_def by blast

text \<open>The blocking operations keep the promise; only the results that would block are gone.\<close>

lemma contract_read:
  assumes c: "stream_contract M wait self rcv out"
    and "tcp_read M wait self (b, w) = Some (r, b', w')"
  shows "length b' = length b \<and> out w' = out w \<and>
    (case r of Inr n \<Rightarrow> unat n \<le> length b \<and> rcv w' = rcv w @ take (unat n) b'
     | Inl _ \<Rightarrow> rcv w' = rcv w)"
proof -
  let ?P = "\<lambda>(b1, w1). length b1 = length b \<and> out w1 = out w \<and> rcv w1 = rcv w"
  let ?Q = "\<lambda>r (b', w'). length b' = length b \<and> out w' = out w \<and>
      (case r of Inr n \<Rightarrow> unat n \<le> length b \<and> rcv w' = rcv w @ take (unat n) b'
       | Inl _ \<Rightarrow> rcv w' = rcv w)"
  have "?Q r (b', w')"
  proof (rule settles_keeps [OF stream_read.returns [OF assms(2)], of ?P])
    show "?P t" if "read_wait M wait self s = (x, t)" "?P s" for s x t
      using that contract_wait [OF c] by (auto simp: on_snd_def split: prod.splits)
  qed (auto dest!: contract_try_read [OF c])
  then show ?thesis by simp
qed

lemma contract_write:
  assumes c: "stream_contract M wait self rcv out"
    and "tcp_write M wait self p w = Some (r, w')"
  shows "rcv w' = rcv w \<and>
    (case r of Inr n \<Rightarrow> unat n \<le> length p \<and> out w' = out w @ take (unat n) p
     | Inl _ \<Rightarrow> out w' = out w)"
proof (rule settles_keeps [OF stream_write.returns [OF assms(2)],
    of "\<lambda>v. out v = out w \<and> rcv v = rcv w"])
  show "out t = out w \<and> rcv t = rcv w"
    if "write_wait M wait self s = (x, t)" "out s = out w \<and> rcv s = rcv w" for s x t
    using that contract_wait [OF c] by auto
qed (auto dest!: contract_try_write [OF c])

lemma contract_delivers:
  assumes "stream_contract M wait self rcv out"
  shows "delivers out (tcp_write M wait self)"
  unfolding delivers_def using contract_write [OF assms] by (force split: sum.splits)

lemma contract_preserves:
  assumes "stream_contract M wait self rcv out"
  shows "preserves (\<lambda>w. rcv w = x) (tcp_write M wait self)"
  unfolding preserves_def using contract_write [OF assms] by force

section \<open>The TCP echo server\<close>

definition tcp_echo_body ::
  "('w, 'sock, 'lst, 'str, 'udp, 'buf, 'mbuf) mio \<Rightarrow> 'w waiter \<Rightarrow> 'str tcp_stream \<Rightarrow>
   byte list \<times> 'w \<Rightarrow> ((byte list \<times> 'w) + ((echo_panic + unit) \<times> 'w)) option" where
  "tcp_echo_body M wait stream s =
    (case tcp_read M wait stream s of
       None \<Rightarrow> None
     | Some (Inl err, b1, w1) \<Rightarrow> Some (Inr (Inl (Read_Error err), w1))
     | Some (Inr len, b1, w1) \<Rightarrow>
         if len = 0 then Some (Inr (Inr (), w1))
         else if length b1 < unat len then Some (Inr (Inl Slice_Out_Of_Range, w1))
         else (case write_all (tcp_write M wait stream) (take (unat len) b1) w1 of
                 None \<Rightarrow> None
               | Some (Inl e, w2) \<Rightarrow> Some (Inr (Inl (Unwrap_Io e), w2))
               | Some (Inr _, w2) \<Rightarrow> Some (Inl (b1, w2))))"

lemma tcp_echo_loop_body:
  "tcp_echo_loop M wait stream s =
    (case tcp_echo_body M wait stream s of
       None \<Rightarrow> None | Some (Inl s') \<Rightarrow> tcp_echo_loop M wait stream s' | Some (Inr r) \<Rightarrow> Some r)"
  by (subst tcp_echo_loop.simps)
    (auto simp: tcp_echo_body_def split: option.splits sum.splits prod.splits)

lemma tcp_echo_loop_runs:
  assumes "tcp_echo_loop M wait stream s = Some r"
  shows "runs (tcp_echo_body M wait stream) s r"
  by (rule tcp_echo_loop.raw_induct [OF _ assms,
        of "\<lambda>M wait stream s r. runs (tcp_echo_body M wait stream) s r"])
    (auto simp: tcp_echo_body_def intro: runs.intros
      split: if_splits option.splits sum.splits prod.splits)

interpretation te: looping "tcp_echo_loop M wait stream" "tcp_echo_body M wait stream"
  for M wait stream
  by unfold_locales (simp_all add: tcp_echo_loop_body tcp_echo_loop_runs)

text \<open>What a round has echoed when it goes on, and when it ends the loop.\<close>

lemma tcp_echo_round:
  assumes c: "stream_contract M wait stream rcv out"
    and "tcp_echo_body M wait stream (b, w) = Some x"
  shows "case x of
      Inl (b', w') \<Rightarrow> length b' = length b \<and> (\<exists>d. rcv w' = rcv w @ d \<and> out w' = out w @ d)
    | Inr (r, w') \<Rightarrow> r \<noteq> Inl Slice_Out_Of_Range \<and>
        (\<exists>d q. rcv w' = rcv w @ d @ q \<and> out w' = out w @ d \<and> (r = Inr () \<longrightarrow> q = []))"
proof -
  obtain r1 b1 w1 where read: "tcp_read M wait stream (b, w) = Some (r1, b1, w1)"
    using assms(2) by (auto simp: tcp_echo_body_def split: option.splits)
  note r = contract_read [OF c read]
  show ?thesis
  proof (cases "\<exists>len. r1 = Inr len \<and> len \<noteq> 0")
    case False
    then show ?thesis using assms(2) read r by (auto simp: tcp_echo_body_def split: sum.splits)
  next
    case True
    then obtain len where len: "r1 = Inr len" "len \<noteq> 0" by blast
    then have got: "unat len \<le> length b1" "rcv w1 = rcv w @ take (unat len) b1" using r by auto
    then obtain r2 w2 where wrote:
      "write_all (tcp_write M wait stream) (take (unat len) b1) w1 = Some (r2, w2)"
      using assms(2) read len by (auto simp: tcp_echo_body_def split: option.splits)
    obtain q where q: "out w1 @ take (unat len) b1 = out w2 @ q" "r2 = Inr () \<longrightarrow> q = []"
      using write_all_delivers [OF contract_delivers [OF c] wrote] by blast
    have "prefix (out w1) (out w2)"
      using write_all_extends [OF contract_delivers [OF c] wrote] .
    then obtain d where d: "out w2 = out w1 @ d" by (auto simp: prefix_def)
    have "rcv w2 = rcv w1"
      using write_all_preserves [OF contract_preserves [OF c] wrote] by simp
    then show ?thesis
      using assms(2) read len got wrote q d r by (auto simp: tcp_echo_body_def split: sum.splits)
  qed
qed

text \<open>C35. A connection of the TCP echo server sends back exactly what it has received, in order,
  when the peer closes it; when it panics on an error, what it has sent is a prefix of what
  it has received. Slicing the buffer never panics.\<close>

theorem tcp_echo_correct:
  assumes "stream_contract M wait stream rcv out"
    and "tcp_echo_worker M wait info stream w = Some (r, w')"
  shows "\<exists>d q. rcv w' = rcv w @ d @ q \<and> out w' = out w @ d \<and>
    (r \<noteq> Inl Slice_Out_Of_Range) \<and> (r = Inr () \<longrightarrow> q = [])"
proof -
  let ?I = "\<lambda>(b, v). \<exists>d. rcv v = rcv w @ d \<and> out v = out w @ d"
  let ?Q = "\<lambda>(r, v). r \<noteq> Inl Slice_Out_Of_Range \<and>
      (\<exists>d q. rcv v = rcv w @ d @ q \<and> out v = out w @ d \<and> (r = Inr () \<longrightarrow> q = []))"
  obtain r1 w1 where loop: "tcp_echo_loop M wait stream (replicate 10240 0, w) = Some (r1, w1)"
    using assms(2) by (auto simp: tcp_echo_worker_def split: option.splits)
  have "?Q (r1, w1)"
  proof (rule te.loop_invariant [OF loop, of ?I])
    show "?I t" if "?I s" "tcp_echo_body M wait stream s = Some (Inl t)" for s t
      using that tcp_echo_round [OF assms(1), of "fst s" "snd s" "Inl t"] by auto
    show "?Q y" if "?I s" "tcp_echo_body M wait stream s = Some (Inr y)" for s y
      using that tcp_echo_round [OF assms(1), of "fst s" "snd s" "Inr y"]
      by (auto split: prod.splits)
  qed simp
  then show ?thesis
    using assms(2) loop contract_peer_addr [OF assms(1), of w1]
    by (auto simp: tcp_echo_worker_def split: option.splits sum.splits prod.splits if_splits)
qed

text \<open>
  A network for the witnesses, over any world: nothing is ever refused, and nothing moves. On
  top of it, a stream that reads and writes at most four bytes at once; the world is the
  bytes to come, those received and those sent.
\<close>

definition null_mio :: "('w, nat, nat, nat, nat, byte list, byte list \<times> usize) mio" where
  "null_mio = \<lparr>
     sock_v4 = (\<lambda>w. (Inr 4, w)), sock_v6 = (\<lambda>w. (Inr 6, w)),
     sock_connect = (\<lambda>s a w. (Inr (0, True), w)), sock_listen = (\<lambda>s n w. (Inr s, w)),
     lst_bind = (\<lambda>a w. (Inr 1, w)), lst_accept = (\<lambda>l w. (Inr (Some 7), w)),
     lst_try_clone = (\<lambda>l w. (Inr l, w)), lst_fd = int,
     str_peer_addr = (\<lambda>s w. (Inr (V4 1 2), w)), str_local_addr = (\<lambda>s w. (Inr (V4 3 4), w)),
     str_try_clone = (\<lambda>s w. (Inr s, w)), str_shutdown = (\<lambda>s h w. (Inr (), w)),
     str_take_socket_error = (\<lambda>s w. (Inr (), w)),
     str_try_read = (\<lambda>s (b, w). (Inr None, b, w)), str_try_write = (\<lambda>s p w. (Inr None, w)),
     str_fd = int,
     udp_v4 = (\<lambda>w. (Inr 4, w)), udp_v6 = (\<lambda>w. (Inr 6, w)), udp_bound = (\<lambda>a w. (Inr 1, w)),
     udp_try_clone = (\<lambda>u w. (Inr u, w)),
     udp_send_to = (\<lambda>u a (b, w). (Inr None, b, w)), udp_recv_from = (\<lambda>u (b, w). (Inr None, b, w)),
     udp_fd = int, slice_wrap = id, slice_remaining = (\<lambda>b. of_nat (length b)),
     mslice_wrap = (\<lambda>b. (b, of_nat (length b))), mslice_remaining = snd, mslice_contents = fst\<rparr>"

type_synonym echo_world = "byte list \<times> byte list \<times> byte list"

definition echo_mio :: "(echo_world, nat, nat, nat, nat, byte list, byte list \<times> usize) mio" where
  "echo_mio = null_mio\<lparr>
     str_try_read := \<lambda>s (b, i, r, out). let k = min (min (length i) (length b)) 4 in
       (Inr (Some (of_nat k)), take k i @ drop k b, drop k i, r @ take k i, out),
     str_try_write := \<lambda>s p (i, r, out). let k = min (length p) 4 in
       (Inr (Some (of_nat k)), i, r, out @ take k p)\<rparr>"

definition no_wait :: "'w waiter" where
  "no_wait f i w = (Inr (), w)"

lemma echo_contract:
  "stream_contract echo_mio no_wait (TcpStream 7) (\<lambda>w. fst (snd w)) (\<lambda>w. snd (snd w))"
  by (auto simp: stream_contract_def echo_mio_def null_mio_def no_wait_def Let_def unat_small)

theorem tcp_echo_correct_witness:
  "\<exists>r w'. tcp_echo_worker echo_mio no_wait True (TcpStream 7) ([1, 2, 3, 4, 5], [], []) =
      Some (r, w') \<and> r = Inr () \<and> snd (snd w') = [1, 2, 3, 4, 5]"
proof -
  have "tcp_echo_worker echo_mio no_wait True (TcpStream 7) ([1, 2, 3, 4, 5], [], []) =
      Some (Inr (), [], [1, 2, 3, 4, 5], [1, 2, 3, 4, 5])"
    by (simp add: tcp_echo_worker_def tcp_echo_loop_body tcp_echo_body_def tcp_read_def
        tcp_write_def write_all.simps peer_addr_def echo_mio_def null_mio_def Let_def)
  then show ?thesis
    using tcp_echo_correct [OF echo_contract, of True "([1, 2, 3, 4, 5], [], [])"] by auto
qed

section \<open>The UDP echo server\<close>

text \<open>
  What \<open>mio\<close> promises of one socket. \<open>rcv\<close> and \<open>out\<close> are the datagrams it took from the network
  and sent, whole, with the address of the other end; \<open>view\<close> is what a send buffer holds. A
  receive into a buffer nothing was written to yet stores what fits of the next datagram,
  counts it off \<open>remaining\<close>, and drops the rest of the datagram.
\<close>

definition udp_contract ::
  "('w, 'sock, 'lst, 'str, 'udp, 'buf, 'mbuf) mio \<Rightarrow> 'w waiter \<Rightarrow> 'udp udp_socket \<Rightarrow>
   ('buf \<Rightarrow> byte list) \<Rightarrow> ('w \<Rightarrow> (socket_addr \<times> byte list) list) \<Rightarrow>
   ('w \<Rightarrow> (socket_addr \<times> byte list) list) \<Rightarrow> bool" where
  "udp_contract M wait self view rcv out \<longleftrightarrow>
    (\<forall>p. mslice_contents M (mslice_wrap M p) = p \<and> view (slice_wrap M p) = p \<and>
      mslice_remaining M (mslice_wrap M p) = of_nat (length p)) \<and>
    (\<forall>b w r b' w'. udp_recv_from M (udp_socket_deref self) (b, w) = (r, b', w') \<longrightarrow>
      length (mslice_contents M b') = length (mslice_contents M b) \<and> out w' = out w \<and>
      (case r of
         Inr (Some a) \<Rightarrow> unat (mslice_remaining M b) = length (mslice_contents M b) \<longrightarrow>
           (\<exists>d. rcv w' = rcv w @ [(a, d)] \<and>
             unat (mslice_remaining M b') = length (mslice_contents M b) - length d \<and>
             take (length d) (mslice_contents M b') = take (length (mslice_contents M b)) d)
       | _ \<Rightarrow> rcv w' = rcv w \<and> mslice_remaining M b' = mslice_remaining M b)) \<and>
    (\<forall>a b w r b' w'. udp_send_to M (udp_socket_deref self) a (b, w) = (r, b', w') \<longrightarrow>
      rcv w' = rcv w \<and>
      (case r of Inr (Some _) \<Rightarrow> out w' = out w @ [(a, view b)]
       | _ \<Rightarrow> view b' = view b \<and> out w' = out w)) \<and>
    (\<forall>f i w r w'. wait f i w = (r, w') \<longrightarrow> rcv w' = rcv w \<and> out w' = out w)"

lemma udp_contract_recv:
  "udp_contract M wait self view rcv out \<Longrightarrow>
   udp_recv_from M (udp_socket_deref self) (b, w) = (r, b', w') \<Longrightarrow>
   length (mslice_contents M b') = length (mslice_contents M b) \<and> out w' = out w \<and>
   (case r of
      Inr (Some a) \<Rightarrow> unat (mslice_remaining M b) = length (mslice_contents M b) \<longrightarrow>
        (\<exists>d. rcv w' = rcv w @ [(a, d)] \<and>
          unat (mslice_remaining M b') = length (mslice_contents M b) - length d \<and>
          take (length d) (mslice_contents M b') = take (length (mslice_contents M b)) d)
    | _ \<Rightarrow> rcv w' = rcv w \<and> mslice_remaining M b' = mslice_remaining M b)"
  unfolding udp_contract_def by blast

lemma udp_contract_send:
  "udp_contract M wait self view rcv out \<Longrightarrow>
   udp_send_to M (udp_socket_deref self) a (b, w) = (r, b', w') \<Longrightarrow>
   rcv w' = rcv w \<and>
   (case r of Inr (Some _) \<Rightarrow> out w' = out w @ [(a, view b)]
    | _ \<Rightarrow> view b' = view b \<and> out w' = out w)"
  unfolding udp_contract_def by blast

lemma udp_contract_wait:
  "udp_contract M wait self view rcv out \<Longrightarrow> wait f i w = (r, w') \<Longrightarrow>
   rcv w' = rcv w \<and> out w' = out w"
  unfolding udp_contract_def by blast

lemma udp_contract_wrap:
  assumes "udp_contract M wait self view rcv out"
  shows "mslice_contents M (mslice_wrap M p) = p" and "view (slice_wrap M p) = p"
    and "mslice_remaining M (mslice_wrap M p) = of_nat (length p)"
  using assms unfolding udp_contract_def by blast+

lemma contract_recv_from:
  assumes c: "udp_contract M wait self view rcv out" and len: "length p < 2 ^ 64"
    and "recv_from M wait self p w = Some (r, b', w')"
  shows "length (mslice_contents M b') = length p \<and> out w' = out w \<and>
    (case r of
       Inr (n, a) \<Rightarrow> unat n \<le> length p \<and>
         (\<exists>d. rcv w' = rcv w @ [(a, d)] \<and> take (unat n) (mslice_contents M b') = take (length p) d)
     | Inl _ \<Rightarrow> rcv w' = rcv w)"
proof -
  let ?n = "of_nat (length p) :: usize"
  let ?P = "\<lambda>(b1, w1). length (mslice_contents M b1) = length p \<and> mslice_remaining M b1 = ?n \<and>
    out w1 = out w \<and> rcv w1 = rcv w"
  let ?Q = "\<lambda>r (b', w'). length (mslice_contents M b') = length p \<and> out w' = out w \<and>
    (case r of
       Inr (n, a) \<Rightarrow> unat n \<le> length p \<and>
         (\<exists>d. rcv w' = rcv w @ [(a, d)] \<and> take (unat n) (mslice_contents M b') = take (length p) d)
     | Inl _ \<Rightarrow> rcv w' = rcv w)"
  have n: "unat (?n - x) = length p - unat x" if "unat x \<le> length p" for x :: usize
    using that len by (simp add: unat_sub word_le_nat_alt unat_of_nat take_bit_nat_eq_self)
  have full: "unat ?n = length p" using len by (simp add: unat_of_nat take_bit_nat_eq_self)
  have "?Q r (b', w')"
  proof (rule settles_keeps [OF recv.returns [OF assms(3) [unfolded recv_from_def]], of ?P])
    show "?P (mslice_wrap M p, w)" using udp_contract_wrap [OF c] by simp
    show "?P t" if "udp_wait M wait self Readable s = (x, t)" "?P s" for s x t
      using that udp_contract_wait [OF c] by (auto simp: on_snd_def split: prod.splits)
    show "?Q (Inr x) t" if "recv_attempt M self ?n s = (Inr (Some x), t)" "?P s" for s x t
    proof -
      note prems = that
      obtain b1 w1 b2 w2 where s: "s = (b1, w1)" "t = (b2, w2)" by (cases s; cases t)
      then obtain a where "udp_recv_from M (udp_socket_deref self) (b1, w1) = (Inr (Some a), b2, w2)"
        and x: "x = (?n - mslice_remaining M b2, a)"
        using prems(1) by (auto simp: map_attempt_eq)
      with udp_contract_recv [OF c this(1)] prems(2) s full obtain d
        where d: "length (mslice_contents M b2) = length p" "out w2 = out w" "rcv w2 = rcv w @ [(a, d)]"
          "unat (mslice_remaining M b2) = length p - length d"
          "take (length d) (mslice_contents M b2) = take (length p) d"
        by auto
      then have "take (length p - unat (mslice_remaining M b2)) (mslice_contents M b2) = take (length p) d"
        by (cases "length d \<le> length p") auto
      then show ?thesis using d s x n by auto
    qed
  qed (auto simp: map_attempt_eq dest!: udp_contract_recv [OF c])
  then show ?thesis by simp
qed

lemma contract_send_to:
  assumes c: "udp_contract M wait self view rcv out"
    and "send_to M wait self p (\<lambda>w. (Inr [a], w)) w = Some (r, b', w')"
  shows "rcv w' = rcv w \<and>
    (case r of Inr _ \<Rightarrow> out w' = out w @ [(a, p)] | Inl _ \<Rightarrow> out w' = out w)"
proof -
  let ?n = "of_nat (length p) :: usize"
  let ?P = "\<lambda>(b1, w1). view b1 = p \<and> out w1 = out w \<and> rcv w1 = rcv w"
  let ?Q = "\<lambda>r (b', w'). rcv w' = rcv w \<and>
    (case r of Inr _ \<Rightarrow> out w' = out w @ [(a, p)] | Inl _ \<Rightarrow> out w' = out w)"
  have call: "send_to_addrs M wait self ?n [a] (Inr 0) (slice_wrap M p, w) = Some (r, b', w')"
    using assms(2) by (simp add: send_to_def)
  have "?Q r (b', w')"
  proof (rule settles_keeps [OF send.returns [OF call], of ?P])
    show "?P (slice_wrap M p, w)" using udp_contract_wrap [OF c] by simp
    show "?P t" if "udp_wait M wait self Writable s = (x, t)" "?P s" for s x t
      using that udp_contract_wait [OF c] by (auto simp: on_snd_def split: prod.splits)
  qed (auto simp: map_attempt_eq dest!: udp_contract_send [OF c])
  then show ?thesis by simp
qed

lemma udp_echo_loop_runs:
  assumes "udp_echo_loop M wait server s = Some r"
  shows "runs (udp_echo_round M wait server) s r"
  by (rule udp_echo_loop.raw_induct [OF _ assms,
        of "\<lambda>M wait server s r. runs (udp_echo_round M wait server) s r"])
    (auto intro: runs.intros split: option.splits sum.splits)

interpretation ue: looping "udp_echo_loop M wait server" "udp_echo_round M wait server"
  for M wait server
  by unfold_locales (simp_all add: udp_echo_loop.simps udp_echo_loop_runs)

lemma udp_echo_round_step:
  assumes c: "udp_contract M wait server view rcv out" and len: "length b < 2 ^ 64"
    and "udp_echo_round M wait server (b, w) = Some x"
  shows "case x of
      Inl (b', w') \<Rightarrow> length b' = length b \<and>
        (\<exists>d. rcv w' = rcv w @ [d] \<and> out w' = out w @ [apsnd (take (length b)) d])
    | Inr (p, w') \<Rightarrow> p \<noteq> Slice_Out_Of_Range \<and> out w' = out w \<and>
        (rcv w' = rcv w \<or> (\<exists>d. rcv w' = rcv w @ [d]))"
proof -
  obtain r1 b1 w1 where got: "recv_from M wait server b w = Some (r1, b1, w1)"
    using assms(3) by (auto simp: udp_echo_round_def split: option.splits)
  note r = contract_recv_from [OF c len got]
  show ?thesis
  proof (cases r1)
    case (Inl e)
    then show ?thesis using assms(3) got r by (auto simp: udp_echo_round_def)
  next
    case (Inr y)
    obtain n peer where y: "y = (n, peer)" by fastforce
    let ?d = "take (unat n) (mslice_contents M b1)"
    have fits: "\<not> length (mslice_contents M b1) < unat n" using r Inr y by auto
    then obtain r2 b2 w2 where
      sent: "send_to M wait server ?d (\<lambda>w. (Inr [peer], w)) w1 = Some (r2, b2, w2)"
      using assms(3) got Inr y by (auto simp: udp_echo_round_def Let_def split: option.splits)
    show ?thesis
      using assms(3) got Inr y fits sent r contract_send_to [OF c sent]
      by (auto simp: udp_echo_round_def Let_def split: sum.splits)
  qed
qed

lemma udp_echo_iterate:
  assumes "udp_contract M wait server view rcv out" and "length b < 2 ^ 64"
    and "iterate (udp_echo_round M wait server) n (b, w) = Some (b', w')"
  shows "\<exists>ds. length ds = n \<and> rcv w' = rcv w @ ds \<and>
    out w' = out w @ map (apsnd (take (length b))) ds"
  using assms(2,3)
proof (induction n arbitrary: b w)
  case (Suc n)
  obtain b1 w1 where one: "udp_echo_round M wait server (b, w) = Some (Inl (b1, w1))"
    and rest: "iterate (udp_echo_round M wait server) n (b1, w1) = Some (b', w')"
    using Suc.prems by (auto split: option.splits sum.splits)
  obtain d where d: "length b1 = length b" "rcv w1 = rcv w @ [d]"
    "out w1 = out w @ [apsnd (take (length b)) d]"
    using udp_echo_round_step [OF assms(1) Suc.prems(1) one] by auto
  obtain ds where "length ds = n" "rcv w' = rcv w1 @ ds"
    "out w' = out w1 @ map (apsnd (take (length b))) ds"
    using Suc.IH [OF _ rest] Suc.prems(1) d by auto
  then show ?case using d by (intro exI [of _ "d # ds"]) simp
qed simp

text \<open>C36. The UDP echo server answers every datagram, in order, to its sender, with the first 1024
  bytes of its contents, so with exactly its contents iff it has at most 1024 bytes: after \<open>n\<close>
  rounds it has taken \<open>n\<close> datagrams and sent their \<open>n\<close> answers, and when it panics at most the
  last datagram has not been answered. The rest of a longer datagram is lost without an error.\<close>

theorem udp_echo_correct:
  assumes "udp_contract M wait server view rcv out" and "length b = 1024"
  shows "(iterate (udp_echo_round M wait server) n (b, w) = Some (b', w') \<longrightarrow>
      (\<exists>ds. length ds = n \<and> rcv w' = rcv w @ ds \<and> out w' = out w @ map (apsnd (take 1024)) ds)) \<and>
    (udp_echo_loop M wait server (b, w) = Some (p, v) \<longrightarrow> p \<noteq> Slice_Out_Of_Range \<and>
      (\<exists>ds last. rcv v = rcv w @ ds @ last \<and> length last \<le> 1 \<and>
        out v = out w @ map (apsnd (take 1024)) ds))"
proof -
  have len: "length b < 2 ^ 64" using assms(2) by simp
  let ?I = "\<lambda>(b1, v). length b1 = length b \<and>
    (\<exists>ds. rcv v = rcv w @ ds \<and> out v = out w @ map (apsnd (take 1024)) ds)"
  let ?Q = "\<lambda>(p, v). p \<noteq> Slice_Out_Of_Range \<and> (\<exists>ds last. rcv v = rcv w @ ds @ last \<and>
      length last \<le> 1 \<and> out v = out w @ map (apsnd (take 1024)) ds)"
  have on: "?I t" if I: "?I s" and r: "udp_echo_round M wait server s = Some (Inl t)" for s t
  proof -
    obtain ds where ds: "rcv (snd s) = rcv w @ ds" "out (snd s) = out w @ map (apsnd (take 1024)) ds"
      and l: "length (fst s) = 1024"
      using I assms(2) by (auto split: prod.splits)
    then obtain d where "length (fst t) = 1024" "rcv (snd t) = rcv w @ ds @ [d]"
      "out (snd t) = out w @ map (apsnd (take 1024)) (ds @ [d])"
      using udp_echo_round_step [OF assms(1), of "fst s" "snd s" "Inl t"] r
      by (auto split: prod.splits)
    then show ?thesis using assms(2) by (auto split: prod.splits simp del: map_append)
  qed
  have leave: "?Q y" if I: "?I s" and r: "udp_echo_round M wait server s = Some (Inr y)" for s y
  proof -
    obtain ds where ds: "rcv (snd s) = rcv w @ ds" "out (snd s) = out w @ map (apsnd (take 1024)) ds"
      and l: "length (fst s) = 1024"
      using I assms(2) by (auto split: prod.splits)
    then obtain last where "rcv (snd y) = rcv w @ ds @ last" "length last \<le> 1" "fst y \<noteq> Slice_Out_Of_Range"
      "out (snd y) = out w @ map (apsnd (take 1024)) ds"
      using udp_echo_round_step [OF assms(1), of "fst s" "snd s" "Inr y"] r
      by (fastforce split: prod.splits)
    then show ?thesis by (cases y) (simp, blast)
  qed
  have "?Q (p, v)" if "udp_echo_loop M wait server (b, w) = Some (p, v)"
    by (rule ue.loop_invariant [OF that, of ?I]) (use on leave in auto)
  then show ?thesis using udp_echo_iterate [OF assms(1) len] assms(2) by auto
qed

text \<open>Datagrams to come, received and sent.\<close>

type_synonym datagrams = "(socket_addr \<times> byte list) list"

definition datagram_mio ::
  "(datagrams \<times> datagrams \<times> datagrams, nat, nat, nat, nat, byte list, byte list \<times> usize) mio" where
  "datagram_mio = null_mio\<lparr>
     udp_recv_from := \<lambda>u (b, i, r, out). (case i of
         [] \<Rightarrow> (Inl refused, b, i, r, out)
       | (a, p) # i' \<Rightarrow>
           let k = min (length p) (length (fst b))
           in (Inr (Some a), (take k p @ drop k (fst b), of_nat (length (fst b) - k)),
               i', r @ [(a, p)], out)),
     udp_send_to := \<lambda>u a (b, i, r, out). (Inr (Some ()), [], i, r, out @ [(a, b)])\<rparr>"

lemma datagram_contract:
  "udp_contract datagram_mio no_wait (UdpSocket 1) id (\<lambda>w. fst (snd w)) (\<lambda>w. snd (snd w))"
proof -
  have "unat (of_nat (l - k) :: usize) = l - k" if "unat (m :: usize) = l" for l k :: nat and m
    using that unsigned_less [of m, where ?'a = nat] by (simp add: unat_of_nat take_bit_nat_eq_self del: of_nat_diff)
  then show ?thesis
    by (auto simp: udp_contract_def datagram_mio_def null_mio_def no_wait_def Let_def min_def
        simp del: of_nat_diff split: list.splits)
qed

theorem udp_echo_correct_witness:
  "\<exists>v. udp_echo_loop datagram_mio no_wait (UdpSocket 1)
      (replicate 1024 0, [(V4 1 1, [5]), (V4 2 2, replicate 1025 7)], [], []) = Some (Unwrap_Io refused, v) \<and>
    snd (snd v) = [(V4 1 1, [5]), (V4 2 2, replicate 1024 7)] \<and>
    (\<exists>ds last. fst (snd v) = ds @ last \<and> length last \<le> 1 \<and>
      snd (snd v) = map (apsnd (take 1024)) ds)"
proof -
  have "udp_echo_loop datagram_mio no_wait (UdpSocket 1)
      (replicate 1024 0, [(V4 1 1, [5]), (V4 2 2, replicate 1025 7)], [], []) = Some (Unwrap_Io refused,
        [], [(V4 1 1, [5]), (V4 2 2, replicate 1025 7)], [(V4 1 1, [5]), (V4 2 2, replicate 1024 7)])"
    by (simp add: udp_echo_loop.simps udp_echo_round_def recv_from_def recv_from_buf_def
        send_to_def datagram_mio_def null_mio_def Let_def)
  then show ?thesis
    using udp_echo_correct [OF datagram_contract, of "replicate 1024 0" 0
        "([(V4 1 1, [5]), (V4 2 2, replicate 1025 7)], [], [])"] by fastforce
qed

end
