(* ===== verification/Echo_Code.thy ===== *)
theory Echo_Code
  imports Echo_Properties Coroutine_Spec
begin

text \<open>
  The TCP echo server as user code of the runtime: where its coroutines are between two calls of
  the crate, and what each piece of code does. Its blocking operations are those of
  \<open>Net_Model\<close> with every \<open>wait_event\<close> a call of its own; that they are the same is the
  interpretation of the contract \<open>looping\<close> at the end.
\<close>

section \<open>The program\<close>

text \<open>
  Points of the code, at the grain of one attempt on a socket:
  \<^item> \<open>Starting\<close>, \<open>Accepting l\<close>, \<open>Accept_Woken l r\<close>, \<open>Accepted l s\<close>: the server before its set-up, at an
    attempt to accept, back from \<open>wait_event\<close> with \<open>r\<close>, with a new stream;
  \<^item> \<open>Reading s b\<close>, \<open>Read_Woken s b r\<close>: a connection at an attempt to read into \<open>b\<close>, back from
    \<open>wait_event\<close>; \<open>Writing s b p\<close>, \<open>Write_Woken s b p r\<close>: in \<open>write_all\<close> with \<open>p\<close> left; \<open>Closing s\<close>:
    after its loop.
\<close>

datatype ('lst, 'str) echo_point =
    Starting
  | Accepting "'lst tcp_listener"
  | Accept_Woken "'lst tcp_listener" "unit io_result"
  | Accepted "'lst tcp_listener" "'str tcp_stream"
  | Reading "'str tcp_stream" "byte list"
  | Read_Woken "'str tcp_stream" "byte list" "unit io_result"
  | Writing "'str tcp_stream" "byte list" "byte list"
  | Write_Woken "'str tcp_stream" "byte list" "byte list" "unit io_result"
  | Closing "'str tcp_stream"

text \<open>
  \<open>setup\<close> is \<open>tcp_echo_setup\<close>, \<open>msg\<close> the message of a panic; \<open>info\<close> tells whether \<open>info!\<close> prints.
\<close>

fun echo_run ::
  "('w, 'sock, 'lst, 'str, 'udp, 'buf, 'mbuf) mio \<Rightarrow> bool \<Rightarrow> (echo_panic \<Rightarrow> payload) \<Rightarrow> usize \<Rightarrow>
   ('w \<Rightarrow> (echo_panic + 'lst incoming) \<times> 'w) \<Rightarrow> ('lst, 'str) echo_point \<Rightarrow> 'w \<Rightarrow>
   ('lst, 'str) echo_point call \<times> 'w" where
  "echo_run M info msg min_stack setup Starting w =
    (case setup w of
       (Inl p, w1) \<Rightarrow> (Call_Panic (msg p), w1)
     | (Inr (Incoming l), w1) \<Rightarrow> (Call_Tau (Accepting l), w1))"
| "echo_run M info msg min_stack setup (Accepting l) w =
    (case lst_accept M (tcp_listener_deref l) w of
       (Inr None, w1) \<Rightarrow> (Call_Wait (lst_fd M (tcp_listener_deref l)) Readable (Accept_Woken l), w1)
     | (Inr (Some s), w1) \<Rightarrow> (Call_Tau (Accepted l (TcpStream s)), w1)
     | (Inl e, w1) \<Rightarrow> (Call_Panic (msg (Unwrap_Io e)), w1))"
| "echo_run M info msg min_stack setup (Accept_Woken l r) w =
    (case r of
       Inl e \<Rightarrow> (Call_Panic (msg (Unwrap_Io e)), w)
     | Inr _ \<Rightarrow> (Call_Tau (Accepting l), w))"
| "echo_run M info msg min_stack setup (Accepted l s) w =
    (case (if info then peer_addr M s w else (Inr (V4 0 0), w)) of
       (Inl e, w1) \<Rightarrow> (Call_Panic (msg (Unwrap_Io e)), w1)
     | (Inr _, w1) \<Rightarrow>
         (Call_Spawn (Reading s (replicate 10240 0)) (options_default min_stack) (Accepting l), w1))"
| "echo_run M info msg min_stack setup (Reading s b) w =
    (case str_try_read M (tcp_stream_deref s) (b, w) of
       (Inr None, b1, w1) \<Rightarrow>
         (Call_Wait (str_fd M (tcp_stream_deref s)) Readable (Read_Woken s b1), w1)
     | (Inr (Some len), b1, w1) \<Rightarrow>
         if len = 0 then (Call_Tau (Closing s), w1)
         else if length b1 < unat len then (Call_Panic (msg Slice_Out_Of_Range), w1)
         else (Call_Tau (Writing s b1 (take (unat len) b1)), w1)
     | (Inl err, b1, w1) \<Rightarrow> (Call_Panic (msg (Read_Error err)), w1))"
| "echo_run M info msg min_stack setup (Read_Woken s b r) w =
    (case r of
       Inl e \<Rightarrow> (Call_Panic (msg (Read_Error e)), w)
     | Inr _ \<Rightarrow> (Call_Tau (Reading s b), w))"
| "echo_run M info msg min_stack setup (Writing s b p) w =
    (if p = [] then (Call_Tau (Reading s b), w)
     else case str_try_write M (tcp_stream_deref s) p w of
       (Inr None, w1) \<Rightarrow>
         (Call_Wait (str_fd M (tcp_stream_deref s)) Writable (Write_Woken s b p), w1)
     | (Inr (Some n), w1) \<Rightarrow>
         if n = 0
         then (Call_Panic (msg (Unwrap_Io (Io_Error WriteZero ''failed to write whole buffer''))), w1)
         else (Call_Tau (Writing s b (drop (unat n) p)), w1)
     | (Inl e, w1) \<Rightarrow>
         if kind e = Interrupted then (Call_Tau (Writing s b p), w1)
         else (Call_Panic (msg (Unwrap_Io e)), w1))"
| "echo_run M info msg min_stack setup (Write_Woken s b p r) w =
    (case r of
       Inl e \<Rightarrow>
         if kind e = Interrupted then (Call_Tau (Writing s b p), w)
         else (Call_Panic (msg (Unwrap_Io e)), w)
     | Inr _ \<Rightarrow> (Call_Tau (Writing s b p), w))"
| "echo_run M info msg min_stack setup (Closing s) w =
    (case (if info then peer_addr M s w else (Inr (V4 0 0), w)) of
       (Inl e, w1) \<Rightarrow> (Call_Panic (msg (Unwrap_Io e)), w1)
     | (Inr _, w1) \<Rightarrow> (Call_Return, w1))"

section \<open>The same program in big steps\<close>

text \<open>
  A coroutine as it sees itself: it makes its calls one after the other, and \<open>wait\<close> answers a
  \<open>wait_event\<close>. This is for code that makes no other call.
\<close>

definition solo ::
  "('p \<Rightarrow> 'w \<Rightarrow> 'p call \<times> 'w) \<Rightarrow> 'w waiter \<Rightarrow> 'p \<times> 'w \<Rightarrow>
   (('p \<times> 'w) + ((payload + unit) \<times> 'w)) option" where
  "solo R wait x =
    (case R (fst x) (snd x) of
       (Call_Tau p, w) \<Rightarrow> Some (Inl (p, w))
     | (Call_Return, w) \<Rightarrow> Some (Inr (Inr (), w))
     | (Call_Panic e, w) \<Rightarrow> Some (Inr (Inl e, w))
     | (Call_Wait fd i k, w) \<Rightarrow> (case wait fd i w of (r, w') \<Rightarrow> Some (Inl (k r, w')))
     | _ \<Rightarrow> None)"

text \<open>What a connection does from a point on, by the functions of \<open>Net_Model\<close> and \<open>Echo_Model\<close>.\<close>

definition echo_closing ::
  "('w, 'sock, 'lst, 'str, 'udp, 'buf, 'mbuf) mio \<Rightarrow> bool \<Rightarrow> 'str tcp_stream \<Rightarrow> 'w \<Rightarrow>
   (echo_panic + unit) \<times> 'w" where
  "echo_closing M info s w =
    (if info
     then (case peer_addr M s w of (Inl e, w1) \<Rightarrow> (Inl (Unwrap_Io e), w1) | (Inr _, w1) \<Rightarrow> (Inr (), w1))
     else (Inr (), w))"

definition meaning_read ::
  "('w, 'sock, 'lst, 'str, 'udp, 'buf, 'mbuf) mio \<Rightarrow> 'w waiter \<Rightarrow> bool \<Rightarrow> 'str tcp_stream \<Rightarrow>
   byte list \<times> 'w \<Rightarrow> ((echo_panic + unit) \<times> 'w) option" where
  "meaning_read M wait info s x =
    (case tcp_echo_loop M wait s x of
       None \<Rightarrow> None
     | Some (Inl p, w1) \<Rightarrow> Some (Inl p, w1)
     | Some (Inr _, w1) \<Rightarrow> Some (echo_closing M info s w1))"

definition meaning_write ::
  "('w, 'sock, 'lst, 'str, 'udp, 'buf, 'mbuf) mio \<Rightarrow> 'w waiter \<Rightarrow> bool \<Rightarrow> 'str tcp_stream \<Rightarrow>
   byte list \<Rightarrow> byte list \<Rightarrow> 'w \<Rightarrow> ((echo_panic + unit) \<times> 'w) option" where
  "meaning_write M wait info s b p w =
    (case write_all (tcp_write M wait s) p w of
       None \<Rightarrow> None
     | Some (Inl e, w2) \<Rightarrow> Some (Inl (Unwrap_Io e), w2)
     | Some (Inr _, w2) \<Rightarrow> meaning_read M wait info s (b, w2))"

fun meaning ::
  "('w, 'sock, 'lst, 'str, 'udp, 'buf, 'mbuf) mio \<Rightarrow> 'w waiter \<Rightarrow> bool \<Rightarrow>
   ('lst, 'str) echo_point \<Rightarrow> 'w \<Rightarrow> ((echo_panic + unit) \<times> 'w) option" where
  "meaning M wait info (Reading s b) w = meaning_read M wait info s (b, w)"
| "meaning M wait info (Read_Woken s b (Inl e)) w = Some (Inl (Read_Error e), w)"
| "meaning M wait info (Read_Woken s b (Inr _)) w = meaning_read M wait info s (b, w)"
| "meaning M wait info (Writing s b p) w = meaning_write M wait info s b p w"
| "meaning M wait info (Write_Woken s b p (Inl e)) w =
    (if kind e = Interrupted then meaning_write M wait info s b p w
     else Some (Inl (Unwrap_Io e), w))"
| "meaning M wait info (Write_Woken s b p (Inr _)) w = meaning_write M wait info s b p w"
| "meaning M wait info (Closing s) w = Some (echo_closing M info s w)"
| "meaning M wait info _ w = None"

lemma worker_meaning:
  "tcp_echo_worker M wait info s w = meaning M wait info (Reading s (replicate 10240 0)) w"
  by (auto simp: tcp_echo_worker_def meaning_read_def echo_closing_def
      split: option.split sum.split prod.split)

text \<open>One attempt of a read, and one of a write.\<close>

lemma tcp_echo_loop_cong:
  "tcp_read M wait s x = tcp_read M wait s y \<Longrightarrow> tcp_echo_loop M wait s x = tcp_echo_loop M wait s y"
  by (simp add: tcp_echo_loop.simps [of M wait s x] tcp_echo_loop.simps [of M wait s y])

lemma meaning_read_step:
  "meaning_read M wait info s (b, w) =
    (case str_try_read M (tcp_stream_deref s) (b, w) of
       (Inr None, b1, w1) \<Rightarrow>
         (case wait (str_fd M (tcp_stream_deref s)) Readable w1 of
            (Inl e, w2) \<Rightarrow> Some (Inl (Read_Error e), w2)
          | (Inr _, w2) \<Rightarrow> meaning_read M wait info s (b1, w2))
     | (Inr (Some len), b1, w1) \<Rightarrow>
         if len = 0 then Some (echo_closing M info s w1)
         else if length b1 < unat len then Some (Inl Slice_Out_Of_Range, w1)
         else meaning_write M wait info s b1 (take (unat len) b1) w1
     | (Inl e, b1, w1) \<Rightarrow> Some (Inl (Read_Error e), w1))"
proof -
  obtain r b1 w1 where a: "str_try_read M (tcp_stream_deref s) (b, w) = (r, b1, w1)"
    by (cases "str_try_read M (tcp_stream_deref s) (b, w)")
  show ?thesis
  proof (cases "r = Inr None")
    case False
    then have "tcp_read M wait s (b, w) = Some (map_sum id the r, b1, w1)"
      using a stream_read.ready [of M s "(b, w)"] stream_read.failed [of M s "(b, w)"]
      by (cases r) auto
    then show ?thesis
      using a False by (cases r) (auto simp: meaning_read_def meaning_write_def
          tcp_echo_loop.simps [of M wait s "(b, w)"] split: option.split sum.split)
  next
    case True
    obtain u w2 where wt: "wait (str_fd M (tcp_stream_deref s)) Readable w1 = (u, w2)" by fastforce
    then have wt': "read_wait M wait s (b1, w1) = (u, b1, w2)" by (simp add: on_snd_def)
    show ?thesis
    proof (cases u)
      case (Inl e)
      then have "tcp_read M wait s (b, w) = Some (Inl e, b1, w2)"
        using a True wt' stream_read.refused by blast
      then show ?thesis
        using a True wt Inl by (simp add: meaning_read_def tcp_echo_loop.simps [of M wait s "(b, w)"])
    next
      case (Inr v)
      then have "tcp_read M wait s (b, w) = tcp_read M wait s (b1, w2)"
        using a True wt' stream_read.again by blast
      then show ?thesis
        using a True wt Inr tcp_echo_loop_cong by (fastforce simp: meaning_read_def)
    qed
  qed
qed

lemma write_all_cong:
  "p \<noteq> [] \<Longrightarrow> wr p w = wr p w' \<Longrightarrow> write_all wr p w = write_all wr p w'"
  by (simp add: write_all.simps [of wr p])

lemma meaning_write_Nil: "meaning_write M wait info s b [] w = meaning_read M wait info s (b, w)"
  by (simp add: meaning_write_def)

lemma meaning_write_step:
  assumes "p \<noteq> []"
  shows "meaning_write M wait info s b p w =
    (case str_try_write M (tcp_stream_deref s) p w of
       (Inr None, w1) \<Rightarrow>
         (case wait (str_fd M (tcp_stream_deref s)) Writable w1 of
            (Inl e, w2) \<Rightarrow>
              if kind e = Interrupted then meaning_write M wait info s b p w2
              else Some (Inl (Unwrap_Io e), w2)
          | (Inr _, w2) \<Rightarrow> meaning_write M wait info s b p w2)
     | (Inr (Some n), w1) \<Rightarrow>
         if n = 0
         then Some (Inl (Unwrap_Io (Io_Error WriteZero ''failed to write whole buffer'')), w1)
         else meaning_write M wait info s b (drop (unat n) p) w1
     | (Inl e, w1) \<Rightarrow>
         if kind e = Interrupted then meaning_write M wait info s b p w1
         else Some (Inl (Unwrap_Io e), w1))"
proof -
  obtain r w1 where a: "write_attempt M s p w = (r, w1)" by fastforce
  show ?thesis
  proof (cases "r = Inr None")
    case False
    then have "tcp_write M wait s p w = Some (map_sum id the r, w1)"
      using a stream_write.ready [of M s p w] stream_write.failed [of M s p w] by (cases r) auto
    then show ?thesis
      using a False assms by (cases r) (auto simp: meaning_write_def write_all.simps [of _ p w])
  next
    case True
    obtain u w2 where wt: "write_wait M wait s w1 = (u, w2)" by fastforce
    show ?thesis
    proof (cases u)
      case (Inl e)
      then have "tcp_write M wait s p w = Some (Inl e, w2)"
        using a True wt stream_write.refused [of M s p w w1 wait e w2] by simp
      then show ?thesis
        using a True wt Inl assms by (simp add: meaning_write_def write_all.simps [of _ p w])
    next
      case (Inr v)
      then have "tcp_write M wait s p w = tcp_write M wait s p w2"
        using a True wt stream_write.again [of M s p w w1 wait v w2] by simp
      then have "write_all (tcp_write M wait s) p w = write_all (tcp_write M wait s) p w2"
        by (rule write_all_cong [OF assms])
      then show ?thesis using a True wt Inr by (simp add: meaning_write_def)
    qed
  qed
qed

section \<open>The pieces implement the functions\<close>

fun of_connection :: "('lst, 'str) echo_point \<Rightarrow> bool" where
  "of_connection (Reading s b) = True"
| "of_connection (Read_Woken s b r) = True"
| "of_connection (Writing s b p) = True"
| "of_connection (Write_Woken s b p r) = True"
| "of_connection (Closing s) = True"
| "of_connection _ = False"

definition connection ::
  "('w, 'sock, 'lst, 'str, 'udp, 'buf, 'mbuf) mio \<Rightarrow> 'w waiter \<Rightarrow> bool \<Rightarrow> (echo_panic \<Rightarrow> payload) \<Rightarrow>
   usize \<Rightarrow> ('w \<Rightarrow> (echo_panic + 'lst incoming) \<times> 'w) \<Rightarrow> ('lst, 'str) echo_point \<times> 'w \<Rightarrow>
   ((('lst, 'str) echo_point \<times> 'w) + ((payload + unit) \<times> 'w)) option" where
  "connection M wait info msg min_stack setup x =
    (if of_connection (fst x) then solo (echo_run M info msg min_stack setup) wait x else None)"

definition told :: "(echo_panic \<Rightarrow> payload) \<Rightarrow> ((echo_panic + unit) \<times> 'w) option \<Rightarrow>
    ((payload + unit) \<times> 'w) option" where
  "told msg r = map_option (map_prod (map_sum msg id) id) r"

text \<open>Every piece of code keeps what the connection is going to do.\<close>

lemma connection_step:
  "told msg (meaning M wait info (fst x) (snd x)) =
    (case connection M wait info msg min_stack setup x of
       None \<Rightarrow> None
     | Some (Inl y) \<Rightarrow> told msg (meaning M wait info (fst y) (snd y))
     | Some (Inr r) \<Rightarrow> Some r)"
proof (cases "fst x")
  case (Reading s b)
  then show ?thesis
    by (auto simp: connection_def solo_def told_def meaning_read_step
        split: prod.split sum.split option.split)
next
  case (Read_Woken s b r)
  then show ?thesis by (cases r) (auto simp: connection_def solo_def told_def)
next
  case (Writing s b p)
  then show ?thesis
    by (cases "p = []") (auto simp: connection_def solo_def told_def meaning_write_Nil
        meaning_write_step split: prod.split sum.split option.split)
next
  case (Write_Woken s b p r)
  then show ?thesis by (cases r) (auto simp: connection_def solo_def told_def)
next
  case (Closing s)
  then show ?thesis
    by (auto simp: connection_def solo_def told_def echo_closing_def split: prod.split sum.split)
qed (auto simp: connection_def told_def)

lemma connection_eq:
  "of_connection (fst x) \<Longrightarrow>
   connection M wait info msg min_stack setup x = solo (echo_run M info msg min_stack setup) wait x"
  by (simp add: connection_def)

lemma write_settles_runs:
  assumes "settles (write_attempt M s p) (write_wait M wait s) w x" and "p \<noteq> []"
    and "case x of
      (Inr n, w') \<Rightarrow>
        if n = 0
        then y = (Inl (msg (Unwrap_Io (Io_Error WriteZero ''failed to write whole buffer''))), w')
        else runs (connection M wait info msg min_stack setup) (Writing s b (drop (unat n) p), w') y
    | (Inl e, w') \<Rightarrow>
        if kind e = Interrupted
        then runs (connection M wait info msg min_stack setup) (Writing s b p, w') y
        else y = (Inl (msg (Unwrap_Io e)), w')"
  shows "runs (connection M wait info msg min_stack setup) (Writing s b p, w) y"
  using assms(1,3)
proof (induction w x)
  case (done_at_once w n w')
  then show ?case
    using assms(2) by (cases "n = 0") (auto simp: connection_eq solo_def intro: runs.intros)
next
  case (failed_at_once w e w')
  then show ?case
    using assms(2) by (cases "kind e = Interrupted") (auto simp: connection_eq solo_def intro: runs.intros)
next
  case (wait_refused w w1 e w2)
  have "connection M wait info msg min_stack setup (Writing s b p, w) =
      Some (Inl (Write_Woken s b p (Inl e), w2))"
    using wait_refused.hyps assms(2) by (simp add: connection_eq solo_def)
  moreover have "runs (connection M wait info msg min_stack setup) (Write_Woken s b p (Inl e), w2) y"
    using wait_refused.prems
    by (cases "kind e = Interrupted") (auto simp: connection_eq solo_def intro: runs.intros)
  ultimately show ?case by (rule runs.goes_on)
next
  case (waited w w1 u w2 x)
  have "connection M wait info msg min_stack setup (Writing s b p, w) =
      Some (Inl (Write_Woken s b p (Inr u), w2))"
    using waited.hyps(1,2) assms(2) by (simp add: connection_eq solo_def)
  moreover have "connection M wait info msg min_stack setup (Write_Woken s b p (Inr u), w2) =
      Some (Inl (Writing s b p, w2))"
    by (simp add: connection_eq solo_def)
  ultimately show ?case using waited.IH [OF waited.prems] runs.goes_on by metis
qed

lemma write_runs:
  assumes "write_all (tcp_write M wait s) p w = Some (r, w')"
    and "case r of
      Inr _ \<Rightarrow> runs (connection M wait info msg min_stack setup) (Reading s b, w') y
    | Inl e \<Rightarrow> y = (Inl (msg (Unwrap_Io e)), w')"
  shows "runs (connection M wait info msg min_stack setup) (Writing s b p, w) y"
proof -
  let ?C = "connection M wait info msg min_stack setup"
  let ?fin = "\<lambda>(r, w'). case r of Inr (_ :: unit) \<Rightarrow> runs ?C (Reading s b, w') y
    | Inl e \<Rightarrow> y = (Inl (msg (Unwrap_Io e)), w')"
  have "runs (write_all_body (tcp_write M wait s)) (p, w) (r, w')"
    using assms(1) by (rule write_all_runs)
  then have "?fin (r, w') \<longrightarrow> runs ?C (Writing s b (fst (p, w)), snd (p, w)) y"
  proof induction
    case (leaves x r)
    show ?case
    proof (cases "fst x = []")
      case True
      then have "?C (Writing s b (fst x), snd x) = Some (Inl (Reading s b, snd x))"
        by (simp add: connection_eq solo_def)
      then show ?thesis using leaves True by (auto simp: write_all_body_def intro: runs.goes_on)
    next
      case False
      then obtain u v where u: "tcp_write M wait s (fst x) (snd x) = Some (u, v)"
        using leaves by (auto simp: write_all_body_def split: option.splits)
      show ?thesis
        using leaves False u write_settles_runs [of M s "fst x" wait "snd x" "(u, v)" info msg min_stack "setup" b y,
          OF stream_write.returns [OF u] False]
        by (auto simp: write_all_body_def split: sum.splits if_splits)
    qed
  next
    case (goes_on x x' r)
    then have ne: "fst x \<noteq> []" by (auto simp: write_all_body_def)
    then obtain u v where u: "tcp_write M wait s (fst x) (snd x) = Some (u, v)"
      using goes_on.hyps by (auto simp: write_all_body_def split: option.splits)
    show ?case
      using goes_on ne u write_settles_runs [of M s "fst x" wait "snd x" "(u, v)" info msg min_stack "setup" b y,
          OF stream_write.returns [OF u] ne]
      by (auto simp: write_all_body_def split: sum.splits if_splits)
  qed
  then show ?thesis using assms(2) by simp
qed

lemma read_settles_runs:
  assumes "settles (read_attempt M s) (read_wait M wait s) x r"
    and "case r of
      (Inr len, b', w') \<Rightarrow>
        if len = 0 then runs (connection M wait info msg min_stack setup) (Closing s, w') y
        else if length b' < unat len then y = (Inl (msg Slice_Out_Of_Range), w')
        else runs (connection M wait info msg min_stack setup)
          (Writing s b' (take (unat len) b'), w') y
    | (Inl e, b', w') \<Rightarrow> y = (Inl (msg (Read_Error e)), w')"
  shows "runs (connection M wait info msg min_stack setup) (Reading s (fst x), snd x) y"
  using assms
proof (induction x r)
  case (done_at_once x len x')
  then show ?case
    by (cases x; cases x'; cases "len = 0"; cases "length (fst x') < unat len")
      (auto simp: connection_eq solo_def intro: runs.intros)
next
  case (failed_at_once x e x')
  then show ?case by (cases x; cases x') (auto simp: connection_eq solo_def intro: runs.intros)
next
  case (wait_refused x x1 e x2)
  have "connection M wait info msg min_stack setup (Reading s (fst x), snd x) =
      Some (Inl (Read_Woken s (fst x2) (Inl e), snd x2))"
    using wait_refused.hyps
    by (cases x1) (auto simp: connection_eq solo_def on_snd_def split: prod.splits)
  moreover have "runs (connection M wait info msg min_stack setup)
      (Read_Woken s (fst x2) (Inl e), snd x2) y"
    using wait_refused.prems by (cases x2) (auto simp: connection_eq solo_def intro: runs.intros)
  ultimately show ?case by (rule runs.goes_on)
next
  case (waited x x1 u x2 r)
  have "connection M wait info msg min_stack setup (Reading s (fst x), snd x) =
      Some (Inl (Read_Woken s (fst x2) (Inr u), snd x2))"
    using waited.hyps(1,2)
    by (cases x1) (auto simp: connection_eq solo_def on_snd_def split: prod.splits)
  moreover have "connection M wait info msg min_stack setup (Read_Woken s (fst x2) (Inr u), snd x2) =
      Some (Inl (Reading s (fst x2), snd x2))"
    by (simp add: connection_eq solo_def)
  ultimately show ?case using waited.IH [OF waited.prems] runs.goes_on by metis
qed

lemma echo_loop_runs:
  assumes "tcp_echo_loop M wait s x = Some (r, w')"
    and "case r of
      Inl p \<Rightarrow> y = (Inl (msg p), w')
    | Inr _ \<Rightarrow> runs (connection M wait info msg min_stack setup) (Closing s, w') y"
  shows "runs (connection M wait info msg min_stack setup) (Reading s (fst x), snd x) y"
proof -
  let ?C = "connection M wait info msg min_stack setup"
  let ?fin = "\<lambda>(r, w'). case r of Inl p \<Rightarrow> y = (Inl (msg p), w')
    | Inr (_ :: unit) \<Rightarrow> runs ?C (Closing s, w') y"
  have "runs (tcp_echo_body M wait s) x (r, w')" using assms(1) by (rule tcp_echo_loop_runs)
  then have "?fin (r, w') \<longrightarrow> runs ?C (Reading s (fst x), snd x) y"
  proof induction
    case (leaves x r)
    then obtain u b v where u: "tcp_read M wait s x = Some (u, b, v)"
      by (auto simp: tcp_echo_body_def split: option.splits)
    note read = read_settles_runs [of M s wait x "(u, b, v)" y msg info min_stack "setup",
      OF stream_read.returns [OF u]]
    show ?case
    proof
      assume e: "?fin r"
      show "runs ?C (Reading s (fst x), snd x) y"
      proof (cases "\<exists>len. u = Inr len \<and> len \<noteq> 0 \<and> unat len \<le> length b")
        case False
        then show ?thesis using leaves u e
          by (intro read) (auto simp: tcp_echo_body_def split: sum.splits if_splits)
      next
        case True
        then obtain len z v2 where len: "u = Inr len" "len \<noteq> 0" "unat len \<le> length b"
          and wrote: "write_all (tcp_write M wait s) (take (unat len) b) v = Some (z, v2)"
          using leaves u by (auto simp: tcp_echo_body_def split: option.splits)
        have "runs ?C (Writing s b (take (unat len) b), v) y"
          by (rule write_runs [OF wrote])
            (use leaves u len wrote e in \<open>auto simp: tcp_echo_body_def split: sum.splits\<close>)
        then show ?thesis using len by (intro read) auto
      qed
    qed
  next
    case (goes_on x x' r)
    then obtain u b v where u: "tcp_read M wait s x = Some (u, b, v)"
      by (auto simp: tcp_echo_body_def split: option.splits)
    then obtain len z v2 where len: "u = Inr len" "len \<noteq> 0" "unat len \<le> length b"
      and wrote: "write_all (tcp_write M wait s) (take (unat len) b) v = Some (z, v2)"
      and x': "z = Inr ()" "x' = (b, v2)"
      using goes_on.hyps(1) by (auto simp: tcp_echo_body_def split: option.splits sum.splits if_splits)
    show ?case
    proof
      assume e: "?fin r"
      have "runs ?C (Writing s b (take (unat len) b), v) y"
        by (rule write_runs [OF wrote]) (use goes_on.IH e x' in auto)
      then show "runs ?C (Reading s (fst x), snd x) y"
        using len by (intro read_settles_runs [of M s wait x "(u, b, v)" y msg info min_stack "setup",
          OF stream_read.returns [OF u]]) auto
    qed
  qed
  then show ?thesis using assms(2) by simp
qed

lemma closing_runs:
  "runs (connection M wait info msg min_stack setup) (Closing s, w)
    (map_prod (map_sum msg id) id (echo_closing M info s w))"
  by (rule runs.leaves)
    (auto simp: connection_eq solo_def echo_closing_def split: prod.split sum.split)

lemma meaning_read_runs:
  "told msg (meaning_read M wait info s (b, w)) = Some r \<Longrightarrow>
   runs (connection M wait info msg min_stack setup) (Reading s b, w) r"
proof -
  assume m: "told msg (meaning_read M wait info s (b, w)) = Some r"
  then obtain u v where u: "tcp_echo_loop M wait s (b, w) = Some (u, v)"
    by (auto simp: told_def meaning_read_def split: option.splits)
  have "case u of
      Inl p \<Rightarrow> r = (Inl (msg p), v)
    | Inr _ \<Rightarrow> runs (connection M wait info msg min_stack setup) (Closing s, v) r"
    using m u closing_runs
    by (cases u) (auto simp: told_def meaning_read_def map_prod_def split_beta)
  from echo_loop_runs [OF u this] show ?thesis by simp
qed

lemma meaning_write_runs:
  "told msg (meaning_write M wait info s b p w) = Some r \<Longrightarrow>
   runs (connection M wait info msg min_stack setup) (Writing s b p, w) r"
proof -
  assume m: "told msg (meaning_write M wait info s b p w) = Some r"
  then obtain u v where u: "write_all (tcp_write M wait s) p w = Some (u, v)"
    by (auto simp: told_def meaning_write_def split: option.splits)
  have "case u of
      Inr _ \<Rightarrow> runs (connection M wait info msg min_stack setup) (Reading s b, v) r
    | Inl e \<Rightarrow> r = (Inl (msg (Unwrap_Io e)), v)"
  proof (cases u)
    case (Inr x)
    then have "told msg (meaning_read M wait info s (b, v)) = Some r"
      using m u by (simp add: meaning_write_def)
    then show ?thesis using Inr by (simp add: meaning_read_runs)
  qed (use m u in \<open>simp add: told_def meaning_write_def\<close>)
  from write_runs [OF u this] show ?thesis .
qed

lemma meaning_runs:
  assumes "told msg (meaning M wait info p w) = Some r"
  shows "runs (connection M wait info msg min_stack setup) (p, w) r"
proof (cases "connection M wait info msg min_stack setup (p, w)")
  case None
  then show ?thesis using assms connection_step [of msg M wait info "(p, w)" min_stack "setup"] by simp
next
  case (Some z)
  show ?thesis
  proof (cases z)
    case (Inr r')
    then show ?thesis
      using assms Some connection_step [of msg M wait info "(p, w)" min_stack "setup"]
      by (auto intro: runs.leaves)
  next
    case (Inl x')
    have on: "told msg (meaning M wait info (fst x') (snd x')) = Some r"
      using assms Some Inl connection_step [of msg M wait info "(p, w)" min_stack "setup"] by simp
    consider s b where "p = Reading s b" | s b q where "p = Writing s b q"
      | s b where "fst x' = Reading s b" | s b q where "fst x' = Writing s b q"
      using Some Inl
      by (cases p) (auto simp: connection_def solo_def split: if_splits sum.splits prod.splits option.splits)
    then show ?thesis
    proof cases
      case 3
      then have "told msg (meaning_read M wait info s (b, snd x')) = Some r" using on by simp
      then have "runs (connection M wait info msg min_stack setup) (fst x', snd x') r"
        unfolding 3 by (rule meaning_read_runs)
      then show ?thesis using Some Inl by (simp add: runs.goes_on)
    next
      case 4
      then have "told msg (meaning_write M wait info s b q (snd x')) = Some r" using on by simp
      then have "runs (connection M wait info msg min_stack setup) (fst x', snd x') r"
        unfolding 4 by (rule meaning_write_runs)
      then show ?thesis using Some Inl by (simp add: runs.goes_on)
    qed (use assms in \<open>simp_all add: meaning_read_runs meaning_write_runs\<close>)
  qed
qed

interpretation code: looping "\<lambda>x. told msg (meaning M wait info (fst x) (snd x))"
  "connection M wait info msg min_stack setup" for msg M wait info min_stack "setup"
proof
  show "runs (connection M wait info msg min_stack setup) x r"
    if "told msg (meaning M wait info (fst x) (snd x)) = Some r" for x r
    using meaning_runs that by (metis prod.collapse)
qed (simp_all add: connection_step [of _ _ _ _ _ min_stack "setup"])

text \<open>C34. The coroutine of a connection, made of one attempt on its socket per piece of code and a
  call of \<open>wait_event\<close> after each that would block, does what the blocking \<open>read\<close> and
  \<open>write_all\<close> of the echo server do: it ends, with the same result, iff they return.\<close>

theorem connection_is_worker:
  "told msg (tcp_echo_worker M wait info s w) = Some r \<longleftrightarrow>
    (\<exists>n x. iterate (connection M wait info msg min_stack setup) n
        (Reading s (replicate 10240 0), w) = Some x \<and>
      connection M wait info msg min_stack setup x = Some (Inr r))"
  using code.loop_iterate [of msg M wait info "(Reading s (replicate 10240 0), w)" r min_stack "setup"]
  by (simp add: worker_meaning)

end
