(* ===== verification/Echo_Server.thy ===== *)
theory Echo_Server
  imports Echo_Code Cooperative Interleaved
begin

text \<open>
  The TCP echo server on the runtime: its acceptor and the coroutines of its connections, on any
  number of threads and under every interleaving. This puts the runtime, the sockets and the
  example together.
\<close>

section \<open>The program\<close>

definition echo_main ::
  "('q, 'sl, 'ev, 'pl, 'stk, ('lst, 'str) echo_point, 'w) env \<Rightarrow> usize \<Rightarrow> 'w \<Rightarrow>
   ('q, 'sl, 'ev, 'pl, 'stk, ('lst, 'str) echo_point, 'w) world option" where
  "echo_main E min_stack u =
    map_option (scheduler_spawn min_stack E 0 Starting Loop_Top) (world_init E u)"

lemma echo_main_spawn:
  "echo_main E min_stack u =
    map_option (spawn_all E [(Starting, options_default min_stack)]) (world_init E u)"
  by (simp add: echo_main_def scheduler_spawn_def fun_eq_iff cong: option.map_cong)

section \<open>What mio promises of several streams\<close>

text \<open>
  Ghost observations of the world: \<open>handed\<close> are the streams accepted so far, \<open>rcv\<close> and \<open>out\<close> what
  has been received from and sent to each. \<open>only s w w'\<close>: nothing happened but on \<open>s\<close>.
\<close>

definition only ::
  "('w \<Rightarrow> 'str set) \<Rightarrow> ('str \<Rightarrow> 'w \<Rightarrow> byte list) \<Rightarrow> ('str \<Rightarrow> 'w \<Rightarrow> byte list) \<Rightarrow> 'str option \<Rightarrow>
   'w \<Rightarrow> 'w \<Rightarrow> bool" where
  "only handed rcv out s w w' \<longleftrightarrow> handed w' = handed w \<and>
    (\<forall>s'. s \<noteq> Some s' \<longrightarrow> rcv s' w' = rcv s' w \<and> out s' w' = out s' w)"

definition net_contract ::
  "('w, 'sock, 'lst, 'str, 'udp, 'buf, 'mbuf) mio \<Rightarrow>
   ('w \<Rightarrow> (echo_panic + 'lst incoming) \<times> 'w) \<Rightarrow> ('w \<Rightarrow> 'str set) \<Rightarrow>
   ('str \<Rightarrow> 'w \<Rightarrow> byte list) \<Rightarrow> ('str \<Rightarrow> 'w \<Rightarrow> byte list) \<Rightarrow> bool" where
  "net_contract M setup handed rcv out \<longleftrightarrow>
    (\<forall>w r w'. setup w = (r, w') \<longrightarrow> only handed rcv out None w w') \<and>
    (\<forall>s w r w'. str_peer_addr M s w = (r, w') \<longrightarrow> only handed rcv out None w w') \<and>
    (\<forall>l w r w'. lst_accept M l w = (r, w') \<longrightarrow>
      (case r of
         Inr (Some s) \<Rightarrow> s \<notin> handed w \<and> handed w' = insert s (handed w) \<and>
           rcv s w' = [] \<and> out s w' = [] \<and>
           (\<forall>s'. s' \<noteq> s \<longrightarrow> rcv s' w' = rcv s' w \<and> out s' w' = out s' w)
       | _ \<Rightarrow> only handed rcv out None w w')) \<and>
    (\<forall>s b w r b' w'. str_try_read M s (b, w) = (r, b', w') \<longrightarrow>
      only handed rcv out (Some s) w w' \<and> length b' = length b \<and> out s w' = out s w \<and>
      (case r of
         Inr (Some n) \<Rightarrow> unat n \<le> length b \<and> rcv s w' = rcv s w @ take (unat n) b'
       | _ \<Rightarrow> rcv s w' = rcv s w)) \<and>
    (\<forall>s p w r w'. str_try_write M s p w = (r, w') \<longrightarrow>
      only handed rcv out (Some s) w w' \<and> rcv s w' = rcv s w \<and>
      (case r of
         Inr (Some n) \<Rightarrow> unat n \<le> length p \<and> out s w' = out s w @ take (unat n) p
       | _ \<Rightarrow> out s w' = out s w))"

lemma net_contractD:
  assumes "net_contract M setup handed rcv out"
  shows "setup w = (r, w') \<Longrightarrow> only handed rcv out None w w'"
    and "str_peer_addr M s w = (r1, w') \<Longrightarrow> only handed rcv out None w w'"
    and "lst_accept M l w = (Inr (Some s), w') \<Longrightarrow> s \<notin> handed w \<and> handed w' = insert s (handed w) \<and>
      rcv s w' = [] \<and> out s w' = [] \<and>
      (\<forall>s'. s' \<noteq> s \<longrightarrow> rcv s' w' = rcv s' w \<and> out s' w' = out s' w)"
    and "lst_accept M l w = (Inr None, w') \<Longrightarrow> only handed rcv out None w w'"
    and "lst_accept M l w = (Inl e, w') \<Longrightarrow> only handed rcv out None w w'"
    and "str_try_read M s (b, w) = (r2, b', w') \<Longrightarrow>
      only handed rcv out (Some s) w w' \<and> length b' = length b \<and> out s w' = out s w \<and>
      (case r2 of
         Inr (Some n) \<Rightarrow> unat n \<le> length b \<and> rcv s w' = rcv s w @ take (unat n) b'
       | _ \<Rightarrow> rcv s w' = rcv s w)"
    and "str_try_write M s p w = (r3, w') \<Longrightarrow>
      only handed rcv out (Some s) w w' \<and> rcv s w' = rcv s w \<and>
      (case r3 of
         Inr (Some n) \<Rightarrow> unat n \<le> length p \<and> out s w' = out s w @ take (unat n) p
       | _ \<Rightarrow> out s w' = out s w)"
proof -
  note c = assms [unfolded net_contract_def]
  show "setup w = (r, w') \<Longrightarrow> only handed rcv out None w w'" using conjunct1 [OF c] by metis
  show "str_peer_addr M s w = (r1, w') \<Longrightarrow> only handed rcv out None w w'" using c by blast
  have acc: "lst_accept M l w = (r, w') \<Longrightarrow>
      (case r of
         Inr (Some s) \<Rightarrow> s \<notin> handed w \<and> handed w' = insert s (handed w) \<and>
           rcv s w' = [] \<and> out s w' = [] \<and>
           (\<forall>s'. s' \<noteq> s \<longrightarrow> rcv s' w' = rcv s' w \<and> out s' w' = out s' w)
       | _ \<Rightarrow> only handed rcv out None w w')" for r using c by blast
  from acc [of "Inr (Some s)"] show "lst_accept M l w = (Inr (Some s), w') \<Longrightarrow>
      s \<notin> handed w \<and> handed w' = insert s (handed w) \<and> rcv s w' = [] \<and> out s w' = [] \<and>
      (\<forall>s'. s' \<noteq> s \<longrightarrow> rcv s' w' = rcv s' w \<and> out s' w' = out s' w)" by simp
  from acc [of "Inr None"] show "lst_accept M l w = (Inr None, w') \<Longrightarrow> only handed rcv out None w w'"
    by simp
  from acc [of "Inl e"] show "lst_accept M l w = (Inl e, w') \<Longrightarrow> only handed rcv out None w w'"
    by simp
qed (use assms in \<open>unfold net_contract_def, blast+\<close>)

section \<open>The invariant\<close>

text \<open>The stream a coroutine works on, and what it has received and not yet sent back.\<close>

fun stream_at :: "('lst, 'str) echo_point \<Rightarrow> 'str option" where
  "stream_at (Accepted l s) = Some (tcp_stream_deref s)"
| "stream_at (Reading s b) = Some (tcp_stream_deref s)"
| "stream_at (Read_Woken s b r) = Some (tcp_stream_deref s)"
| "stream_at (Writing s b p) = Some (tcp_stream_deref s)"
| "stream_at (Write_Woken s b p r) = Some (tcp_stream_deref s)"
| "stream_at (Closing s) = Some (tcp_stream_deref s)"
| "stream_at _ = None"

fun owed :: "('lst, 'str) echo_point \<Rightarrow> byte list" where
  "owed (Writing s b p) = p"
| "owed (Write_Woken s b p r) = p"
| "owed _ = []"

definition serving ::
  "('w \<Rightarrow> 'str set) \<Rightarrow> ('str \<Rightarrow> 'w \<Rightarrow> byte list) \<Rightarrow> ('str \<Rightarrow> 'w \<Rightarrow> byte list) \<Rightarrow>
   (ptr \<rightharpoonup> ('lst, 'str) echo_point) \<Rightarrow> 'w \<Rightarrow> bool" where
  "serving handed rcv out P w \<longleftrightarrow>
    (\<forall>s\<in>handed w. prefix (out s w) (rcv s w)) \<and>
    (\<forall>c p s. P c = Some p \<longrightarrow> stream_at p = Some s \<longrightarrow> s \<in> handed w \<and> rcv s w = out s w @ owed p) \<and>
    (\<forall>c c' p p' s. P c = Some p \<longrightarrow> P c' = Some p' \<longrightarrow> stream_at p = Some s \<longrightarrow>
      stream_at p' = Some s \<longrightarrow> c = c')"

lemma servingD:
  assumes "serving handed rcv out P w"
  shows "s \<in> handed w \<Longrightarrow> prefix (out s w) (rcv s w)"
    and "P c = Some p \<Longrightarrow> stream_at p = Some s \<Longrightarrow> s \<in> handed w \<and> rcv s w = out s w @ owed p"
    and "P c = Some p \<Longrightarrow> P c' = Some p' \<Longrightarrow> stream_at p = Some s \<Longrightarrow> stream_at p' = Some s \<Longrightarrow> c = c'"
  using assms unfolding serving_def by blast+

text \<open>A coroutine ends, or goes on with its stream.\<close>

lemma serving_gone:
  assumes I: "serving handed rcv out P u" and c: "P c = Some p"
    and o: "only handed rcv out (stream_at p) u u'"
    and s: "\<And>s. stream_at p = Some s \<Longrightarrow> prefix (out s u') (rcv s u')"
  shows "serving handed rcv out (P(c := None)) u'"
  unfolding serving_def
proof (intro conjI ballI allI impI)
  fix s assume "s \<in> handed u'"
  then show "prefix (out s u') (rcv s u')"
    using o s servingD(1) [OF I] unfolding only_def by (cases "stream_at p = Some s") auto
next
  fix c' p' s assume p': "(P(c := None)) c' = Some p'" and s': "stream_at p' = Some s"
  then have "c' \<noteq> c" "P c' = Some p'" by (auto split: if_splits)
  then have "stream_at p \<noteq> Some s" using servingD(3) [OF I c, of c' p' s] s' by blast
  then show "s \<in> handed u'" "rcv s u' = out s u' @ owed p'"
    using o servingD(2) [OF I \<open>P c' = Some p'\<close> s'] unfolding only_def by auto
qed (use servingD(3) [OF I] in \<open>auto split: if_splits\<close>)

lemma serving_new:
  assumes I: "serving handed rcv out P u" and d: "P d = None"
    and s: "\<And>s. stream_at f = Some s \<Longrightarrow> s \<in> handed u \<and> rcv s u = out s u @ owed f"
    and new: "\<And>c p s. P c = Some p \<Longrightarrow> stream_at p = Some s \<Longrightarrow> stream_at f \<noteq> Some s"
  shows "serving handed rcv out (P(d \<mapsto> f)) u"
  unfolding serving_def
proof (intro conjI ballI allI impI)
  fix c c' p p' s
  assume "(P(d \<mapsto> f)) c = Some p" "(P(d \<mapsto> f)) c' = Some p'" "stream_at p = Some s" "stream_at p' = Some s"
  then show "c = c'" using new servingD(3) [OF I] by (auto split: if_splits)
qed (use servingD(1,2) [OF I] s in \<open>auto split: if_splits\<close>)

lemma serving_moved:
  assumes I: "serving handed rcv out P u" and c: "P c = Some p"
    and o: "only handed rcv out (stream_at p) u u'" and p': "stream_at p' = stream_at p"
    and s: "\<And>s. stream_at p = Some s \<Longrightarrow> rcv s u' = out s u' @ owed p'"
  shows "serving handed rcv out (P(c \<mapsto> p')) u'"
proof -
  have gone: "serving handed rcv out (P(c := None)) u'"
    by (rule serving_gone [OF I c o]) (use s in auto)
  have "serving handed rcv out ((P(c := None))(c \<mapsto> p')) u'"
  proof (rule serving_new [OF gone])
    show "s \<in> handed u' \<and> rcv s u' = out s u' @ owed p'" if "stream_at p' = Some s" for s
      using servingD(2) [OF I c, of s] o s that p' unfolding only_def by auto
    show "stream_at p' \<noteq> Some s" if "(P(c := None)) c1 = Some p1" "stream_at p1 = Some s" for c1 p1 s
      using servingD(3) [OF I c, of c1 p1 s] that p' by (auto split: if_splits)
  qed simp
  then show ?thesis by simp
qed

lemma only_any: "only handed rcv out None u u' \<Longrightarrow> only handed rcv out s u u'"
  by (simp add: only_def)

lemma only_refl [simp]: "only handed rcv out s u u"
  by (simp add: only_def)

lemma only_same:
  "only handed rcv out None u u' \<Longrightarrow> rcv s u' = rcv s u \<and> out s u' = out s u"
  by (simp add: only_def)

lemma serving_forget:
  assumes "serving handed rcv out P u" and "P c = Some p" and "stream_at p' = None"
  shows "serving handed rcv out (P(c \<mapsto> p')) u"
proof -
  have "serving handed rcv out (P(c := None)) u"
    by (rule serving_gone [OF assms(1,2)]) (use servingD(2) [OF assms(1,2)] in auto)
  then have "serving handed rcv out ((P(c := None))(c \<mapsto> p')) u"
    by (rule serving_new) (use assms(3) in auto)
  then show ?thesis by simp
qed

lemma serving_same:
  assumes I: "serving handed rcv out P u" and o: "only handed rcv out None u u'"
  shows "serving handed rcv out P u'"
  using I only_same [OF o] o unfolding serving_def by (simp add: only_def)

text \<open>The steps of the acceptor.\<close>

lemma serving_accepts:
  assumes I: "serving handed rcv out P u" and c: "P c = Some p" and p: "stream_at p = None"
    and s: "s \<notin> handed u" "handed u' = insert s (handed u)" "rcv s u' = []" "out s u' = []"
    and o: "\<forall>s'. s' \<noteq> s \<longrightarrow> rcv s' u' = rcv s' u \<and> out s' u' = out s' u"
  shows "serving handed rcv out (P(c \<mapsto> Accepted l (TcpStream s))) u'"
proof -
  have old: "s \<notin> handed u \<Longrightarrow> P c' = Some p' \<Longrightarrow> stream_at p' \<noteq> Some s" for c' p'
    using servingD(2) [OF I, of c' p' s] by blast
  have now: "serving handed rcv out P u'"
    unfolding serving_def
  proof (intro conjI ballI allI impI)
    show "prefix (out s' u') (rcv s' u')" if "s' \<in> handed u'" for s'
      using servingD(1) [OF I, of s'] s o that by (cases "s' = s") auto
    show "s' \<in> handed u'" "rcv s' u' = out s' u' @ owed p'"
      if "P c' = Some p'" "stream_at p' = Some s'" for c' p' s'
      using servingD(2) [OF I that] old [OF s(1) that(1)] that(2) s o by auto
  qed (rule servingD(3) [OF I])
  have "serving handed rcv out (P(c := None)) u'"
    by (rule serving_gone [OF now c]) (use p in auto)
  then have "serving handed rcv out ((P(c := None))(c \<mapsto> Accepted l (TcpStream s))) u'"
    by (rule serving_new) (use s old [OF s(1)] in \<open>auto split: if_splits\<close>)
  then show ?thesis by simp
qed

lemma serving_spawn:
  assumes I: "serving handed rcv out P u" and c: "P c = Some (Accepted l s)" and d: "P d = None"
  shows "serving handed rcv out (P(c \<mapsto> Accepting l, d \<mapsto> Reading s b)) u"
proof -
  have cd: "d \<noteq> c" using c d by auto
  have moved: "serving handed rcv out (P(c \<mapsto> Accepting l)) u"
    by (rule serving_forget [OF I c]) simp
  then show ?thesis
  proof (rule serving_new)
    show "stream_at (Reading s b) \<noteq> Some x"
      if "(P(c \<mapsto> Accepting l)) c1 = Some p1" "stream_at p1 = Some x" for c1 p1 x
      using servingD(3) [OF I c, of c1 p1 x] that by (auto split: if_splits)
  qed (use d cd servingD(2) [OF I c] in auto)
qed

text \<open>A piece of code that touches no stream: the coroutine ends, or goes on owing as much.\<close>

lemma serving_idle:
  assumes I: "serving handed rcv out P u" and c: "P c = Some p"
    and o: "only handed rcv out None u u'"
  shows "serving handed rcv out (P(c := None)) u'"
  by (rule serving_gone [OF I c only_any [OF o]]) (use servingD(2) [OF I c] only_same [OF o] in auto)

lemma serving_keep:
  assumes I: "serving handed rcv out P u" and c: "P c = Some p"
    and o: "only handed rcv out None u u'" and p': "stream_at p' = stream_at p" "owed p' = owed p"
  shows "serving handed rcv out (P(c \<mapsto> p')) u'"
  by (rule serving_moved [OF I c only_any [OF o] p'(1)])
    (use servingD(2) [OF I c] only_same [OF o] p'(2) in auto)

text \<open>The pieces that attempt something on a socket.\<close>

lemma serving_accept:
  assumes C: "net_contract M setup handed rcv out" and I: "serving handed rcv out P u"
    and c: "P c = Some (Accepting l)"
    and R: "echo_run M info msg min_stack setup (Accepting l) u = (q, u')"
    and P': "after_call q c d P P'"
  shows "serving handed rcv out P' u'"
proof -
  obtain r w1 where a: "lst_accept M (tcp_listener_deref l) u = (r, w1)" by fastforce
  note K = net_contractD(3-5) [OF C, of "tcp_listener_deref l" u]
  show ?thesis
  proof (cases "\<exists>s. r = Inr (Some s)")
    case True
    then obtain s where s: "r = Inr (Some s)" by blast
    then have "P' = P(c \<mapsto> Accepted l (TcpStream s))" "u' = w1"
      using R P' a by (auto simp: after_call_def)
    then show ?thesis using serving_accepts [OF I c] K(1) [OF a [unfolded s]] by simp
  next
    case False
    then have "only handed rcv out None u u'"
      using R a K(2,3) by (auto split: sum.splits option.splits)
    then show ?thesis
      using R P' a False serving_idle [OF I c] serving_keep [OF I c]
      by (auto simp: after_call_def split: sum.splits option.splits)
  qed
qed

lemma serving_read:
  assumes C: "net_contract M setup handed rcv out" and I: "serving handed rcv out P u"
    and c: "P c = Some (Reading s b)"
    and R: "echo_run M info msg min_stack setup (Reading s b) u = (q, u')"
    and P': "after_call q c d P P'"
  shows "serving handed rcv out P' u'"
proof -
  let ?s = "tcp_stream_deref s"
  obtain r b1 w1 where a: "str_try_read M ?s (b, u) = (r, b1, w1)"
    by (cases "str_try_read M ?s (b, u)")
  note k = net_contractD(6) [OF C a]
  have w1: "u' = w1" using R a by (auto split: sum.splits option.splits if_splits)
  have o: "only handed rcv out (stream_at (Reading s b)) u u'" using k w1 by simp
  have start: "rcv ?s u = out ?s u" using servingD(2) [OF I c] by simp
  have gone: "serving handed rcv out (P(c := None)) u'"
    by (rule serving_gone [OF I c o]) (use k start w1 in \<open>auto split: sum.splits option.splits\<close>)
  have moved: "serving handed rcv out (P(c \<mapsto> p')) u'"
    if "stream_at p' = Some ?s" "rcv ?s u' = out ?s u' @ owed p'" for p'
    by (rule serving_moved [OF I c o]) (use that in auto)
  show ?thesis
    using R P' a k start w1 gone moved
    by (auto simp: after_call_def split: sum.splits option.splits if_splits)
qed

lemma serving_write:
  assumes C: "net_contract M setup handed rcv out" and I: "serving handed rcv out P u"
    and c: "P c = Some (Writing s b x)" and x: "x \<noteq> []"
    and R: "echo_run M info msg min_stack setup (Writing s b x) u = (q, u')"
    and P': "after_call q c d P P'"
  shows "serving handed rcv out P' u'"
proof -
  let ?s = "tcp_stream_deref s"
  obtain r w1 where a: "str_try_write M ?s x u = (r, w1)" by fastforce
  note k = net_contractD(7) [OF C a]
  have w1: "u' = w1" using R a x by (auto split: sum.splits option.splits if_splits)
  have o: "only handed rcv out (stream_at (Writing s b x)) u u'" using k w1 by simp
  have start: "rcv ?s u = out ?s u @ x" using servingD(2) [OF I c] by simp
  have "prefix (out ?s u') (rcv ?s u')"
    using k start w1 take_is_prefix [of _ x] by (auto split: sum.splits option.splits)
  then have gone: "serving handed rcv out (P(c := None)) u'"
    by (intro serving_gone [OF I c o]) auto
  have moved: "serving handed rcv out (P(c \<mapsto> p')) u'"
    if "stream_at p' = Some ?s" "rcv ?s u' = out ?s u' @ owed p'" for p'
    by (rule serving_moved [OF I c o]) (use that in auto)
  show ?thesis
    using R P' a k start w1 gone moved x
    by (auto simp: after_call_def split: sum.splits option.splits if_splits)
qed

text \<open>Every piece of code keeps the invariant.\<close>

lemma serving_call:
  assumes C: "net_contract M setup handed rcv out" and I: "serving handed rcv out P u"
    and c: "P c = Some p" and d: "P d = None"
    and R: "echo_run M info msg min_stack setup p u = (q, u')" and P': "after_call q c d P P'"
  shows "serving handed rcv out P' u'"
proof -
  note idle = serving_idle [OF I c] and keep = serving_keep [OF I c]
  show ?thesis
  proof (cases p)
    case (Reading s b)
    then show ?thesis using serving_read [OF C I _ _ P'] c R by blast
  next
    case (Writing s b x)
    then show ?thesis
      using serving_write [OF C I _ _ _ P'] keep c R P' by (cases "x = []") (auto simp: after_call_def)
  next
    case (Accepting l)
    then show ?thesis using serving_accept [OF C I _ _ P'] c R by blast
  next
    case (Accepted l s)
    have o: "only handed rcv out None u u'"
      using R Accepted net_contractD(2) [OF C, of "tcp_stream_deref s" u]
      by (auto simp: peer_addr_def split: prod.splits sum.splits if_splits)
    then show ?thesis
      using R P' Accepted idle serving_spawn [OF serving_same [OF I o] c [unfolded Accepted] d]
      by (auto simp: after_call_def split: prod.splits sum.splits if_splits)
  next
    case Starting
    then have "only handed rcv out None u u'"
      using R net_contractD(1) [OF C, of u] by (auto split: prod.splits sum.splits incoming.splits)
    then show ?thesis
      using R P' Starting idle keep
      by (auto simp: after_call_def split: prod.splits sum.splits incoming.splits)
  next
    case (Closing s)
    then have "only handed rcv out None u u'"
      using R net_contractD(2) [OF C, of "tcp_stream_deref s" u]
      by (auto simp: peer_addr_def split: prod.splits sum.splits if_splits)
    then show ?thesis
      using R P' Closing idle
      by (auto simp: after_call_def split: prod.splits sum.splits if_splits)
  qed (use R P' idle keep in \<open>auto simp: after_call_def split: sum.splits if_splits\<close>)
qed

interpretation server: interleaved "echo_run M info msg min_stack setup"
  "\<lambda>P u. net_contract M setup handed rcv out \<longrightarrow> serving handed rcv out P u"
  for M info msg min_stack "setup" handed rcv out
  by unfold_locales (blast intro: serving_call)

section \<open>The server is correct\<close>

text \<open>C10. The TCP echo server under \<open>run(n)\<close>, with any number of threads, connections and
  interleavings: at every moment each stream has been sent a prefix of what was received from
  it; each open connection has its coroutine alone, and lacks exactly what that coroutine is
  about to write; so one that is at a read, waits for one, or has come to its end has echoed
  everything.\<close>

theorem echo_server_safe:
  assumes laws: "env_laws E"
    and R: "run E = echo_run M info msg min_stack (tcp_echo_setup M reuse bnd lla info addr)"
    and C: "net_contract M (tcp_echo_setup M reuse bnd lla info addr) handed rcv out"
    and u: "handed u = {}" and w0: "echo_main E min_stack u = Some w0"
    and w: "reach (\<lambda>x. x = w0) (sys_step E (run_threads n)) w"
  shows "(\<forall>s\<in>handed (user w). prefix (out s (user w)) (rcv s (user w))) \<and>
    (\<forall>c p s. points (pool_of E (run_threads n) w) c = Some p \<and> stream_at p = Some s \<longrightarrow>
      rcv s (user w) = out s (user w) @ owed p \<and>
      (\<forall>c' p'. points (pool_of E (run_threads n) w) c' = Some p' \<and> stream_at p' = Some s \<longrightarrow> c' = c))"
proof -
  obtain w1 where w1: "world_init E u = Some w1"
    and w0': "w0 = spawn_all E [(Starting, options_default min_stack)] w1"
    using w0 unfolding echo_main_spawn by blast
  have start: "reachable E n w0"
    by (rule reach.reach_init) (use w1 w0' in \<open>unfold started_def, blast\<close>)
  have "spec_of E (run_threads n) w0 = \<lparr>pool = [0 \<mapsto> (Starting, Ready)], fresh = 1, data = u\<rparr>"
    unfolding w0' by (rule spec_of_start [OF laws w1 run_threads_pos])
  then have "points (pool_of E (run_threads n) w0) = [0 \<mapsto> Starting]" "user w0 = u"
    by (auto simp: spec_of_def points_def fun_eq_iff)
  then have "serving handed rcv out (points (pool_of E (run_threads n) w0)) (user w0)"
    using u by (auto simp: serving_def)
  then have "serving handed rcv out (points (pool_of E (run_threads n) w)) (user w)"
    using server.reach_keeps [OF laws R start _ w, of handed rcv out] C by blast
  then show ?thesis unfolding serving_def by blast
qed

text \<open>
  A network for the witness: two peers, streams 0 and 1, send five and three bytes; an attempt
  moves at most four. The world is the number of streams accepted, and for each stream what is
  to come, what has been received and what has been sent.
\<close>

type_synonym serve_world = "nat \<times> (nat \<Rightarrow> byte list) \<times> (nat \<Rightarrow> byte list) \<times> (nat \<Rightarrow> byte list)"

definition serve_mio :: "(serve_world, nat, nat, nat, nat, byte list, byte list \<times> usize) mio" where
  "serve_mio = null_mio\<lparr>
     lst_accept := \<lambda>l (n, i, r, out).
       if n < 2 then (Inr (Some n), n + 1, i, r(n := []), out(n := []))
       else (Inr None, n, i, r, out),
     str_try_read := \<lambda>s (b, n, i, r, out). let k = min (min (length (i s)) (length b)) 4 in
       (Inr (Some (of_nat k)), take k (i s) @ drop k b, n, i(s := drop k (i s)),
        r(s := r s @ take k (i s)), out),
     str_try_write := \<lambda>s p (n, i, r, out). let k = min (length p) 4 in
       (Inr (Some (of_nat k)), n, i, r, out(s := out s @ take k p))\<rparr>"

definition serve_setup :: "serve_world \<Rightarrow> (echo_panic + nat incoming) \<times> serve_world" where
  "serve_setup = tcp_echo_setup serve_mio (\<lambda>s b w. (Inr (), w)) (\<lambda>s a w. (Inr (), w))
     (\<lambda>l w. (Inr (V4 0 0), w)) True (V4 0 80)"

definition serve_start :: serve_world where
  "serve_start = (0, (\<lambda>s. if s = 0 then [1, 2, 3, 4, 5] else [6, 7, 8]), (\<lambda>_. []), (\<lambda>_. []))"

definition serve_env where
  "serve_env = demo_with (echo_run serve_mio True (\<lambda>p. ''panic'') 64 serve_setup)"

lemma serve_contract:
  "net_contract serve_mio serve_setup (\<lambda>w. {..<fst w}) (\<lambda>s w. fst (snd (snd w)) s)
    (\<lambda>s w. snd (snd (snd w)) s)"
  by (auto simp: net_contract_def serve_setup_def serve_mio_def null_mio_def tcp_echo_setup_def
      tcp_socket_v4_def tcp_socket_v6_def tcp_socket_listen_def only_def Let_def unat_small
      lessThan_Suc split: if_splits)

theorem echo_server_safe_witness:
  "\<forall>k. case user (exec (step serve_env) (\<lambda>j. j mod 3) k (the (echo_main serve_env 64 serve_start))) of
    (n, i, r, out) \<Rightarrow> \<forall>s<n. prefix (out s) (r s)"
proof
  fix k
  let ?start = "the (echo_main serve_env 64 serve_start)"
  let ?w = "exec (step serve_env) (\<lambda>j. j mod 3) k ?start"
  have "world_init serve_env serve_start \<noteq> None"
    by (simp add: serve_env_def world_init_def processor_new_def demo_with_def)
  then have "echo_main serve_env 64 serve_start = Some ?start" by (auto simp: echo_main_def)
  moreover have "reach (\<lambda>x. x = ?start) (sys_step serve_env (run_threads 3)) ?w"
    by (rule exec_reach) (simp add: run_threads_def)
  moreover have "run serve_env = echo_run serve_mio True (\<lambda>p. ''panic'') 64 serve_setup"
    "env_laws serve_env" "(\<lambda>w. {..<fst w}) serve_start = {}"
    by (simp_all add: serve_env_def demo_with_laws serve_start_def)
  ultimately have "\<forall>s\<in>{..<fst (user ?w)}. prefix (snd (snd (snd (user ?w))) s) (fst (snd (snd (user ?w))) s)"
    using echo_server_safe [OF _ _ serve_contract [unfolded serve_setup_def]]
    unfolding serve_setup_def by blast
  then show "case user ?w of (n, i, r, out) \<Rightarrow> \<forall>s<n. prefix (out s) (r s)"
    by (auto split: prod.splits)
qed

end
