(* ===== verification/Kqueue_Model.thy ===== *)
theory Kqueue_Model
  imports Processor_Model
begin

text \<open>
  The variants of \<open>wait_event\<close> and of \<open>IoHandler\<close> in \<open>src/processor.rs\<close> for macOS and the
  BSDs. There the slab holds coroutines only, and an event does not deregister its descriptor.
  The rest of the runtime is the same code.
\<close>

section \<open>Waiting for I/O on kqueue\<close>

text \<open>\<open>Slab<CoroutineRefMut>\<close>; its constructor and count are those of the packages record.\<close>

record 'sl kq_slab =
  kq_insert :: "ptr \<Rightarrow> 'sl \<Rightarrow> (ptr + token) \<times> 'sl"
  kq_remove :: "token \<Rightarrow> 'sl \<Rightarrow> ptr option \<times> 'sl"

definition kq_wait_event ::
  "'sl kq_slab \<Rightarrow> ('q, 'sl, 'ev, 'pl, 'stk, 'p, 'u) env \<Rightarrow> tid \<Rightarrow> fd \<Rightarrow> interest \<Rightarrow>
   (unit io_result \<Rightarrow> 'p) \<Rightarrow>
   ('q, 'sl, 'ev, 'pl, 'stk, 'p, 'u) world \<Rightarrow> ('q, 'sl, 'ev, 'pl, 'stk, 'p, 'u) world" where
  "kq_wait_event B E t fd i k w =
    (case running (threads w t) of
       None \<Rightarrow> coroutine_initialize (Inl ''unwrap on None'') t w
     | Some coro \<Rightarrow>
         (case kq_insert B coro (slabs (threads w t)) of
            (Inl _, sl) \<Rightarrow>
              coroutine_initialize (Inl ''unwrap on Err'') t (upd t (\<lambda>th. th\<lparr>slabs := sl\<rparr>) w)
          | (Inr tok, sl) \<Rightarrow>
              (case el_register E fd tok i (event_loop (threads w t)) of
                 (Inl e, ev) \<Rightarrow>
                   goto t (Body (k (Inl e))) (upd t (\<lambda>th. th\<lparr>slabs := sl, event_loop := ev\<rparr>) w)
               | (Inr _, ev) \<Rightarrow>
                   scheduler_block t (Body (k (Inr ())))
                     (upd t (\<lambda>th. th\<lparr>slabs := sl, event_loop := ev\<rparr>) w))))"

definition kq_handler_ready ::
  "'sl kq_slab \<Rightarrow> ('q, 'sl, 'ev, 'pl, 'stk, 'p, 'u) env \<Rightarrow> tid \<Rightarrow> token \<Rightarrow>
   (token \<times> event_set) list \<Rightarrow>
   ('q, 'sl, 'ev, 'pl, 'stk, 'p, 'u) world \<Rightarrow> ('q, 'sl, 'ev, 'pl, 'stk, 'p, 'u) world" where
  "kq_handler_ready B E t tok evs w =
    (case kq_remove B tok (slabs (threads w t)) of
       (None, sl) \<Rightarrow> goto t (Dispatch evs) (upd t (\<lambda>th. th\<lparr>slabs := sl\<rparr>) w)
     | (Some hdl, sl) \<Rightarrow> ready E t hdl (Dispatch evs) (upd t (\<lambda>th. th\<lparr>slabs := sl\<rparr>) w))"

section \<open>Steps on kqueue\<close>

definition kq_body_step ::
  "'sl kq_slab \<Rightarrow> ('q, 'sl, 'ev, 'pl, 'stk, 'p, 'u) env \<Rightarrow> tid \<Rightarrow> 'p \<Rightarrow>
   ('q, 'sl, 'ev, 'pl, 'stk, 'p, 'u) world \<Rightarrow> ('q, 'sl, 'ev, 'pl, 'stk, 'p, 'u) world" where
  "kq_body_step B E t p w =
    (case run E p (user w) of
       (Call_Wait fd i k, u) \<Rightarrow> kq_wait_event B E t fd i k (w\<lparr>user := u\<rparr>)
     | _ \<Rightarrow> body_step E t p w)"

fun kq_thread_step ::
  "'sl kq_slab \<Rightarrow> ('q, 'sl, 'ev, 'pl, 'stk, 'p, 'u) env \<Rightarrow> tid \<Rightarrow> 'p loc \<Rightarrow>
   ('q, 'sl, 'ev, 'pl, 'stk, 'p, 'u) world \<Rightarrow> ('q, 'sl, 'ev, 'pl, 'stk, 'p, 'u) world" where
  "kq_thread_step B E t (Body p) w = kq_body_step B E t p w"
| "kq_thread_step B E t (Dispatch ((tok, _) # evs)) w = kq_handler_ready B E t tok evs w"
| "kq_thread_step B E t l w = thread_step E t l w"

definition kq_step ::
  "'sl kq_slab \<Rightarrow> ('q, 'sl, 'ev, 'pl, 'stk, 'p, 'u) env \<Rightarrow> tid \<Rightarrow>
   ('q, 'sl, 'ev, 'pl, 'stk, 'p, 'u) world \<Rightarrow> ('q, 'sl, 'ev, 'pl, 'stk, 'p, 'u) world" where
  "kq_step B E t w = kq_thread_step B E t (loc (threads w t)) w"

inductive kq_sys_step ::
  "'sl kq_slab \<Rightarrow> ('q, 'sl, 'ev, 'pl, 'stk, 'p, 'u) env \<Rightarrow> nat \<Rightarrow>
   ('q, 'sl, 'ev, 'pl, 'stk, 'p, 'u) world \<Rightarrow> ('q, 'sl, 'ev, 'pl, 'stk, 'p, 'u) world \<Rightarrow> bool"
  for B E n where
  "t < n \<Longrightarrow> kq_sys_step B E n w (kq_step B E t w)"

abbreviation kq_reachable ::
  "'sl kq_slab \<Rightarrow> ('q, 'sl, 'ev, 'pl, 'stk, 'p, 'u) env \<Rightarrow> nat \<Rightarrow>
   ('q, 'sl, 'ev, 'pl, 'stk, 'p, 'u) world \<Rightarrow> bool" where
  "kq_reachable B E n \<equiv> reach (started E) (kq_sys_step B E (run_threads n))"

end
