(* ===== verification/Kqueue_Refinement.thy ===== *)
theory Kqueue_Refinement
  imports Coroutine_Contract Kqueue_Model
begin

text \<open>
  The kqueue variants against the Linux ones: a kqueue system is a Linux system whose slab
  remembers the descriptors as well and whose deregistration does nothing. What is proved of the
  Linux system for all packages holds of the kqueue system too.
\<close>

section \<open>Packages with a slab that remembers descriptors\<close>

definition remembering ::
  "'sl kq_slab \<Rightarrow> ('sl \<Rightarrow> token \<rightharpoonup> ptr) \<Rightarrow> ('q, 'sl, 'ev, 'pl, 'stk, 'p, 'u) env \<Rightarrow>
   ('q, 'sl \<times> (token \<Rightarrow> fd), 'ev, 'pl, 'stk, 'p, 'u) env" where
  "remembering B kq_view E = \<lparr>
     bq_new = bq_new E, bq_push = bq_push E, bq_pop = bq_pop E, bq_view = bq_view E,
     bq_cap = bq_cap E,
     slab_new = (\<lambda>n. (slab_new E n, \<lambda>_. 0)),
     slab_insert = (\<lambda>(c, fd) (sl, g). case kq_insert B c sl of
         (Inl y, sl') \<Rightarrow> (Inl (y, fd), sl', g)
       | (Inr tok, sl') \<Rightarrow> (Inr tok, sl', g(tok := fd))),
     slab_remove = (\<lambda>tok (sl, g). case kq_remove B tok sl of
         (r, sl') \<Rightarrow> (map_option (\<lambda>c. (c, g tok)) r, sl', g)),
     slab_count = (\<lambda>(sl, g). slab_count E sl),
     slab_view = (\<lambda>(sl, g) tok. map_option (\<lambda>c. (c, g tok)) (kq_view sl tok)),
     el_new = el_new E, el_register = el_register E,
     el_deregister = (\<lambda>fd ev. (Inr (), ev)),
     el_poll = el_poll E, el_armed = el_armed E,
     sp_new = sp_new E, sp_take = sp_take E, sp_give = sp_give E,
     run = run E\<rparr>"

definition forget_thread ::
  "('sl \<times> (token \<Rightarrow> fd), 'ev, 'pl, 'stk, 'p) thread \<Rightarrow> ('sl, 'ev, 'pl, 'stk, 'p) thread" where
  "forget_thread th = \<lparr>event_loop = event_loop th, slabs = fst (slabs th),
     main_coro = main_coro th, cur_running = cur_running th, last_result = last_result th,
     new_spawned = new_spawned th, stack_pool = stack_pool th, loc = loc th\<rparr>"

definition forget ::
  "('q, 'sl \<times> (token \<Rightarrow> fd), 'ev, 'pl, 'stk, 'p, 'u) world \<Rightarrow>
   ('q, 'sl, 'ev, 'pl, 'stk, 'p, 'u) world" where
  "forget w = \<lparr>global_queue = global_queue w, work_counts = work_counts w, heap = heap w,
     next_ptr = next_ptr w, threads = forget_thread \<circ> threads w, user = user w\<rparr>"

section \<open>Every operation but the two variants is the same\<close>

lemma forget_fields [simp]:
  "global_queue (forget w) = global_queue w" "work_counts (forget w) = work_counts w"
  "heap (forget w) = heap w" "next_ptr (forget w) = next_ptr w" "user (forget w) = user w"
  "threads (forget w) t = forget_thread (threads w t)"
  by (simp_all add: forget_def)

lemma forget_thread_fields [simp]:
  "event_loop (forget_thread th) = event_loop th" "slabs (forget_thread th) = fst (slabs th)"
  "main_coro (forget_thread th) = main_coro th" "cur_running (forget_thread th) = cur_running th"
  "last_result (forget_thread th) = last_result th" "new_spawned (forget_thread th) = new_spawned th"
  "stack_pool (forget_thread th) = stack_pool th" "loc (forget_thread th) = loc th"
  by (simp_all add: forget_thread_def)

lemma forget_world_update:
  "forget (w\<lparr>global_queue := q\<rparr>) = (forget w)\<lparr>global_queue := q\<rparr>"
  "forget (w\<lparr>work_counts := n\<rparr>) = (forget w)\<lparr>work_counts := n\<rparr>"
  "forget (w\<lparr>heap := h\<rparr>) = (forget w)\<lparr>heap := h\<rparr>"
  "forget (w\<lparr>next_ptr := c\<rparr>) = (forget w)\<lparr>next_ptr := c\<rparr>"
  "forget (w\<lparr>user := u\<rparr>) = (forget w)\<lparr>user := u\<rparr>"
  by (simp_all add: forget_def)

lemma forget_upd:
  "(\<And>th. forget_thread (f th) = g (forget_thread th)) \<Longrightarrow> forget (upd t f w) = upd t g (forget w)"
  by (simp add: forget_def upd_def fun_upd_comp)

lemma forget_upds:
  "forget (upd t (\<lambda>th. th\<lparr>loc := l\<rparr>) w) = upd t (\<lambda>th. th\<lparr>loc := l\<rparr>) (forget w)"
  "forget (upd t (\<lambda>th. th\<lparr>last_result := r\<rparr>) w) = upd t (\<lambda>th. th\<lparr>last_result := r\<rparr>) (forget w)"
  "forget (upd t (\<lambda>th. th\<lparr>new_spawned := c\<rparr>) w) = upd t (\<lambda>th. th\<lparr>new_spawned := c\<rparr>) (forget w)"
  "forget (upd t (\<lambda>th. th\<lparr>stack_pool := p\<rparr>) w) = upd t (\<lambda>th. th\<lparr>stack_pool := p\<rparr>) (forget w)"
  "forget (upd t (\<lambda>th. th\<lparr>event_loop := ev\<rparr>) w) = upd t (\<lambda>th. th\<lparr>event_loop := ev\<rparr>) (forget w)"
  "forget (upd t (\<lambda>th. th\<lparr>slabs := sl\<rparr>) w) = upd t (\<lambda>th. th\<lparr>slabs := fst sl\<rparr>) (forget w)"
  "forget (upd t (\<lambda>th. th\<lparr>slabs := sl, event_loop := ev\<rparr>) w) =
     upd t (\<lambda>th. th\<lparr>slabs := fst sl, event_loop := ev\<rparr>) (forget w)"
  "forget (upd t (\<lambda>th. th\<lparr>cur_running := c, last_result := r\<rparr>) w) =
     upd t (\<lambda>th. th\<lparr>cur_running := c, last_result := r\<rparr>) (forget w)"
  "forget (upd t (\<lambda>th. th\<lparr>stack_pool := p, new_spawned := c\<rparr>) w) =
     upd t (\<lambda>th. th\<lparr>stack_pool := p, new_spawned := c\<rparr>) (forget w)"
  "forget (upd t (\<lambda>th. th\<lparr>cur_running := c, main_coro := m\<rparr>) w) =
     upd t (\<lambda>th. th\<lparr>cur_running := c, main_coro := m\<rparr>) (forget w)"
  "forget (upd t (\<lambda>th. th\<lparr>stack_pool := sp_give E st (stack_pool th)\<rparr>) w) =
     upd t (\<lambda>th. th\<lparr>stack_pool := sp_give E st (stack_pool th)\<rparr>) (forget w)"
  by (simp_all add: forget_upd forget_thread_def)

lemma forget_goto [simp]: "forget (goto t l w) = goto t l (forget w)"
  by (simp add: goto_def forget_upds)

lemma forget_enter [simp]: "forget (enter t c w) = enter t c (forget w)"
  by (simp add: enter_def)

lemma remembering_simps [simp]:
  "bq_new (remembering B V E) = bq_new E" "bq_push (remembering B V E) = bq_push E"
  "bq_pop (remembering B V E) = bq_pop E" "el_new (remembering B V E) = el_new E"
  "el_register (remembering B V E) = el_register E" "el_poll (remembering B V E) = el_poll E"
  "el_deregister (remembering B V E) fd ev = (Inr (), ev)"
  "sp_new (remembering B V E) = sp_new E" "sp_take (remembering B V E) = sp_take E"
  "sp_give (remembering B V E) = sp_give E" "run (remembering B V E) = run E"
  "slab_new (remembering B V E) n = (slab_new E n, \<lambda>_. 0)"
  "slab_count (remembering B V E) s = slab_count E (fst s)"
  by (simp_all add: remembering_def split_beta)

named_theorems forgets \<open>operations that do not see what the slab remembers\<close>

lemma forget_ready [forgets]:
  "forget (ready (remembering B V E) t h k w) = ready E t h k (forget w)"
  by (simp add: ready_def forget_world_update split: prod.split sum.split)

lemma forget_finished [forgets]:
  "forget (finished (remembering B V E) t h k w) = finished E t h k (forget w)"
  by (simp add: finished_defs co_drop_def Let_def forget_world_update forget_upds
      split: option.split)

lemma forget_yield_with [forgets]: "forget (yield_with r t k w) = yield_with r t k (forget w)"
  by (simp add: yield_with_def yield_to_main_def yield_to_def set_last_result_def split_beta
      forget_world_update forget_upds       split: option.split)

lemma forget_coroutine_initialize [forgets]:
  "forget (coroutine_initialize r t w) = coroutine_initialize r t (forget w)"
  by (simp add: coroutine_initialize_def split_beta forgets)

lemma forget_spawn [forgets]:
  "forget (scheduler_spawn_opts (remembering B V E) t f os k w) =
     scheduler_spawn_opts E t f os k (forget w)"
  by (simp add: scheduler_spawn_opts_def proc_spawn_opts_def co_spawn_opts_def split_beta Let_def
      sched_is_yield_with forgets forget_world_update forget_upds)

lemma forget_resume [forgets]: "forget (resume t h w) = resume t h (forget w)"
  by (simp add: resume_def split_beta forget_world_update forget_upds split: option.split)

lemma forget_run_task_end [forgets]:
  "forget (run_task_end (remembering B V E) t h w) = run_task_end E t h (forget w)"
  by (simp add: run_task_end_def resume_result_def Let_def forgets forget_upds
      split: option.split sum.split co_state.split)

lemma forget_schedule [forgets]:
  "forget (schedule_pop (remembering B V E) t w) = schedule_pop E t (forget w)"
  "forget (schedule_idle (remembering B V E) t w) = schedule_idle E t (forget w)"
  "forget (schedule_spawned t w) = schedule_spawned t (forget w)"
  by (simp_all add: schedule_pop_def schedule_idle_def schedule_spawned_def work_count_def forgets
      forget_world_update forget_upds split: prod.split option.split sum.split)

lemma forget_wait_event [forgets]:
  "forget (wait_event (remembering B V E) t fd i k w) = kq_wait_event B E t fd i k (forget w)"
proof (cases "cur_running (threads w t)")
  case (Some c)
  obtain sl g where s: "slabs (threads w t) = (sl, g)" by fastforce
  show ?thesis
    using s Some
    by (simp add: wait_event_def kq_wait_event_def running_def forgets forget_upds scheduler_block_def
        block_is_yield_with remembering_def split: prod.split sum.split)
qed (simp add: wait_event_def kq_wait_event_def running_def forgets)

lemma upd_same_loop:
  "upd t (\<lambda>th. th\<lparr>slabs := sl, event_loop := event_loop (threads w t)\<rparr>) w =
   upd t (\<lambda>th. th\<lparr>slabs := sl\<rparr>) w"
  by (simp add: upd_def)

lemma forget_handler_ready [forgets]:
  "forget (handler_ready (remembering B V E) t tok evs w) = kq_handler_ready B E t tok evs (forget w)"
proof -
  obtain sl g where s: "slabs (threads w t) = (sl, g)" by fastforce
  obtain r sl' where r: "kq_remove B tok sl = (r, sl')" by fastforce
  have "slab_remove (remembering B V E) tok (sl, g) = (map_option (\<lambda>c. (c, g tok)) r, sl', g)"
    by (simp add: remembering_def r)
  then show ?thesis
    by (simp add: handler_ready_def kq_handler_ready_def s r upd_same_loop forgets forget_upds split: option.split)
qed

section \<open>The two systems\<close>

lemma forget_step: "forget (step (remembering B V E) t w) = kq_step B E t (forget w)"
proof -
  have body: "forget (body_step (remembering B V E) t p w) = kq_body_step B E t p (forget w)" for p
    by (simp add: body_step_def kq_body_step_def split_beta Let_def forgets forget_world_update
        scheduler_sched_def scheduler_block_def sched_is_yield_with block_is_yield_with
        split: call.split)
  show ?thesis
  proof (cases "loc (threads w t)")
    case (Dispatch evs)
    then show ?thesis
      by (cases evs) (auto simp: step_def kq_step_def forgets)
  qed (simp_all add: step_def kq_step_def body forgets coroutine_epilogue_def)
qed

lemma forget_world_init: "world_init E u = map_option forget (world_init (remembering B V E) u)"
  by (auto simp: world_init_def processor_new_def processor.extend_def io_handler_new_def
      scheduler_queue_def forget_def forget_thread_def comp_def split: sum.split)

lemma forget_spawn_all: "forget (spawn_all (remembering B V E) fs w) = spawn_all E fs (forget w)"
  by (induction fs arbitrary: w) (auto simp: forgets)

lemma forget_started: "started E w \<longleftrightarrow> (\<exists>v. started (remembering B V E) v \<and> forget v = w)"
proof
  assume "started E w"
  then obtain fs u w0 where "world_init E u = Some w0" and w: "w = spawn_all E fs w0"
    by (auto simp: started_def)
  then obtain v0 where "world_init (remembering B V E) u = Some v0" "w0 = forget v0"
    using forget_world_init [of E u B V] by auto
  then show "\<exists>v. started (remembering B V E) v \<and> forget v = w"
    unfolding w started_def by (metis forget_spawn_all)
next
  assume "\<exists>v. started (remembering B V E) v \<and> forget v = w"
  then obtain fs u v0 where v: "world_init (remembering B V E) u = Some v0"
    and w: "w = forget (spawn_all (remembering B V E) fs v0)"
    by (auto simp: started_def)
  have "world_init E u = Some (forget v0)" by (simp add: forget_world_init [of E u B V] v)
  then show "started E w" unfolding w started_def by (metis forget_spawn_all)
qed

lemma kq_reachable_remembering:
  assumes "kq_reachable B E n w"
  shows "\<exists>v. reachable (remembering B V E) n v \<and> forget v = w"
  using assms
proof (induction rule: reach.induct)
  case (reach_init s)
  then show ?case using forget_started [of E s B V] by (blast intro: reach.reach_init)
next
  case (reach_step s s')
  then obtain v t where v: "reachable (remembering B V E) n v" "forget v = s"
    and t: "t < run_threads n" "s' = kq_step B E t s"
    by (auto elim: kq_sys_step.cases)
  have "reachable (remembering B V E) n (step (remembering B V E) t v)"
    by (rule reach.reach_step [OF v(1) sys_step.intros [OF t(1)]])
  then show ?case using forget_step [of B V E t v] v t by blast
qed

lemma remembering_kq_reachable:
  assumes "reachable (remembering B V E) n v"
  shows "kq_reachable B E n (forget v)"
  using assms
proof (induction rule: reach.induct)
  case (reach_init s)
  then show ?case using forget_started [of E "forget s" B V] by (blast intro: reach.reach_init)
next
  case (reach_step s s')
  from reach_step.hyps(2) obtain t where t: "t < run_threads n" "s' = step (remembering B V E) t s"
    by (auto elim: sys_step.cases)
  show ?case
    unfolding t(2) forget_step
    by (rule reach.reach_step [OF reach_step.IH kq_sys_step.intros [OF t(1)]])
qed

text \<open>C16. The kqueue build of the runtime and the Linux build have the same behaviour: a state is
  reachable on kqueue exactly when it is, up to the descriptors its slabs remember, a reachable
  state of the Linux runtime over an event loop whose deregistration does nothing.\<close>

theorem kqueue_same_as_linux:
  "kq_reachable B E n w \<longleftrightarrow> (\<exists>v. reachable (remembering B V E) n v \<and> forget v = w)"
  using kq_reachable_remembering remembering_kq_reachable by blast

section \<open>What carries over\<close>

definition kq_slab_laws ::
  "'sl kq_slab \<Rightarrow> ('sl \<Rightarrow> token \<rightharpoonup> ptr) \<Rightarrow> ('q, 'sl, 'ev, 'pl, 'stk, 'p, 'u) env \<Rightarrow> bool" where
  "kq_slab_laws B V E \<longleftrightarrow>
    (\<forall>n. V (slab_new E n) = Map.empty) \<and>
    (\<forall>sl. finite (dom (V sl)) \<and> slab_count E sl = card (dom (V sl))) \<and>
    (\<forall>c sl tok sl'. kq_insert B c sl = (Inr tok, sl') \<longrightarrow> V sl tok = None \<and> V sl' = (V sl)(tok \<mapsto> c)) \<and>
    (\<forall>c sl y sl'. kq_insert B c sl = (Inl y, sl') \<longrightarrow> y = c \<and> V sl' = V sl) \<and>
    (\<forall>tok sl r sl'. kq_remove B tok sl = (r, sl') \<longrightarrow> r = V sl tok \<and> V sl' = (V sl)(tok := None))"

lemma slab_laws_remembering:
  assumes "kq_slab_laws B V E"
  shows "slab_laws (remembering B V E)"
proof -
  have view: "slab_view (remembering B V E) (sl, g) = (\<lambda>tok. map_option (\<lambda>c. (c, g tok)) (V sl tok))" for sl g
    by (simp add: remembering_def)
  have dom: "dom (slab_view (remembering B V E) (sl, g)) = dom (V sl)" for sl g
    by (auto simp: view)
  note L = assms [unfolded kq_slab_laws_def]
  have ins: "slab_insert (remembering B V E) (c, fd) (sl, g) = (case kq_insert B c sl of
      (Inl y, sl') \<Rightarrow> (Inl (y, fd), sl', g) | (Inr tok, sl') \<Rightarrow> (Inr tok, sl', g(tok := fd)))" for c fd sl g
    by (simp add: remembering_def)
  have rem: "slab_remove (remembering B V E) tok (sl, g) = (case kq_remove B tok sl of
      (r, sl') \<Rightarrow> (map_option (\<lambda>c. (c, g tok)) r, sl', g))" for tok sl g
    by (simp add: remembering_def)
  show ?thesis
    unfolding slab_laws_def split_paired_All dom
    using L by (auto simp: ins rem view fun_eq_iff split: prod.splits sum.splits)
qed

lemma kqueue_laws:
  assumes "env_laws E" and "kq_slab_laws B V E"
  shows "env_laws (remembering B V E)"
proof -
  have "queue_laws (remembering B V E)"
    using assms(1) by (simp add: env_laws_def queue_laws_def remembering_def)
  moreover have "loop_laws (remembering B V E)"
    using assms(1) by (simp add: env_laws_def loop_laws_def remembering_def)
  ultimately show ?thesis using slab_laws_remembering [OF assms(2)] by (simp add: env_laws_def)
qed

text \<open>So the kqueue build is memory safe as well.\<close>

lemma kqueue_no_crash:
  assumes "env_laws E" and "kq_slab_laws B V E" and "kq_reachable B E n w" and "t < run_threads n"
  shows "loc (threads w t) \<noteq> Crash"
proof -
  obtain v where v: "reachable (remembering B V E) n v" "forget v = w"
    using kq_reachable_remembering [OF assms(3)] by blast
  have "thread_ok (remembering B V E) (threads v t)"
    by (rule reachable_thread_ok [OF kqueue_laws [OF assms(1,2)] v(1) assms(4)])
  then show ?thesis using v(2) by (auto simp: thread_ok_def)
qed

end
