(* ===== verification/Mutex_Properties.thy ===== *)
theory Mutex_Properties
  imports Mutex_Model Looping
begin

text \<open>
  What the lock guarantees and what breaks it: the sequential behaviour of \<open>lock\<close>, \<open>try_lock\<close>
  and \<open>drop\<close>, mutual exclusion under one worker thread, and the two ways it is lost.
\<close>

section \<open>Sequential behaviour\<close>

text \<open>\<open>lock\<close> returns \<open>Err\<close> exactly when every one of its 102400 attempts finds the mutex
  locked; otherwise it returns \<open>Ok\<close> with the mutex locked, from the first attempt that finds
  it free. Attempt \<open>j\<close> sees the store after \<open>j\<close> times what the other coroutines do.\<close>

lemma lock_loop_spec:
  "lock_loop others n self st =
    (if \<exists>j<n. \<not> lock_flag ((others ^^ j) st self)
     then let j = (LEAST j. \<not> lock_flag ((others ^^ j) st self)); st' = (others ^^ j) st
          in (Inr (guard_new self self), st'(self := (st' self)\<lparr>lock_flag := True\<rparr>))
     else (Inl (poison_error_new (guard_new self self)), (others ^^ n) st))"
proof (induction n arbitrary: st)
  case (Suc n)
  show ?case
  proof (cases "lock_flag (st self)")
    case False
    then have "(LEAST j. \<not> lock_flag ((others ^^ j) st self)) = 0" by (intro Least_equality) auto
    then show ?thesis using False by (auto simp: mutex_defs Let_def)
  next
    case True
    have ex: "(\<exists>j<Suc n. \<not> lock_flag ((others ^^ j) st self)) \<longleftrightarrow>
        (\<exists>j<n. \<not> lock_flag ((others ^^ j) (others st) self))"
      using True by (auto simp: less_Suc_eq_0_disj funpow_swap1 simp del: funpow.simps(2)) (auto simp: funpow_swap1)
    have least: "(LEAST j. \<not> lock_flag ((others ^^ j) st self)) =
        Suc (LEAST j. \<not> lock_flag ((others ^^ j) (others st) self))"
      if "\<not> lock_flag ((others ^^ j) (others st) self)" for j
      using Least_Suc [of "\<lambda>j. \<not> lock_flag ((others ^^ j) st self)" "Suc j"] that True
      by (simp add: funpow_swap1)
    show ?thesis
      using True Suc.IH [of "others st"] ex least
      by (auto simp: mutex_defs Let_def funpow_swap1)
  qed
qed simp

text \<open>C29. \<open>lock\<close> returns \<open>Err\<close> exactly when every one of its 102400 attempts finds the mutex
  locked; otherwise it returns \<open>Ok\<close> with the mutex locked, from the first attempt that finds
  it free. Attempt \<open>j\<close> sees the store after \<open>j\<close> times what the other coroutines do.\<close>

theorem lock_spec:
  "lock others self st =
    (if \<exists>j<102400. \<not> lock_flag ((others ^^ j) st self)
     then let j = (LEAST j. \<not> lock_flag ((others ^^ j) st self)); st' = (others ^^ j) st
          in (Inr (guard_new self self), st'(self := (st' self)\<lparr>lock_flag := True\<rparr>))
     else (Inl (poison_error_new (guard_new self self)), (others ^^ 102400) st))"
  unfolding lock_def POISON_RETRY_COUNT_def by (rule lock_loop_spec)

section \<open>Dropping a guard\<close>

definition drop_body ::
  "('a store \<Rightarrow> 'a store) \<Rightarrow> guard \<Rightarrow> 'a store \<Rightarrow> ('a store + 'a store) option" where
  "drop_body others g st =
    (case compare_and_swap True False (guard_mutex g) st of
       (old, st') \<Rightarrow> Some (if old then Inl (others st') else Inr st'))"

lemma drop_loop_runs:
  assumes "drop_loop others g st = Some r"
  shows "runs (drop_body others g) st r"
  by (rule drop_loop.raw_induct [OF _ assms, of "\<lambda>others g st r. runs (drop_body others g) st r"])
    (auto simp: drop_body_def intro: runs.intros split: prod.splits if_splits)

lemma drop_loop_round:
  "drop_loop others g st = (case drop_body others g st of
     None \<Rightarrow> None | Some (Inl st') \<Rightarrow> drop_loop others g st' | Some (Inr r) \<Rightarrow> Some r)"
  by (subst drop_loop.simps) (simp add: drop_body_def split: prod.split)

interpretation dl: looping "drop_loop others g" "drop_body others g" for others g
  by unfold_locales (subst drop_loop_round, simp, subst drop_loop_round, simp,
      subst drop_loop_round, simp, erule drop_loop_runs)

definition unlock :: "mid \<Rightarrow> 'a store \<Rightarrow> 'a store" where
  "unlock i st = st(i := (st i)\<lparr>lock_flag := False\<rparr>)"

lemma drop_body_unlock:
  "drop_body others g st =
    Some (if lock_flag (st (guard_mutex g)) then Inl (others (unlock (guard_mutex g) st)) else Inr st)"
  by (simp add: drop_body_def compare_and_swap_def unlock_def)

lemma drop_iterate:
  "iterate (drop_body others g) n st =
    (if \<forall>m<n. lock_flag (((others \<circ> unlock (guard_mutex g)) ^^ m) st (guard_mutex g))
     then Some (((others \<circ> unlock (guard_mutex g)) ^^ n) st) else None)"
proof (induction n arbitrary: st)
  case (Suc n)
  let ?f = "others \<circ> unlock (guard_mutex g)"
  have "iterate (drop_body others g) (Suc n) st =
      (if lock_flag (st (guard_mutex g)) then iterate (drop_body others g) n (?f st) else None)"
    by (simp add: drop_body_unlock [of others g st])
  then show ?case
    by (simp only: Suc.IH All_less_Suc2 funpow_Suc_right funpow_0 comp_apply) simp
qed simp

text \<open>C30. Dropping a guard unlocks its mutex again and again until it finds it unlocked: the loop
  ends in the first such state, and never when others lock the mutex between any two rounds.
  Round \<open>n\<close> sees the store after \<open>n\<close> times unlocking and what the others do.\<close>

theorem drop_spec:
  "drop_loop others g st =
    (let after = \<lambda>n. ((others \<circ> unlock (guard_mutex g)) ^^ n) st;
         free = \<lambda>n. \<not> lock_flag (after n (guard_mutex g))
     in if \<exists>n. free n then Some (after (LEAST n. free n)) else None)"
proof -
  define after where "after = (\<lambda>n. ((others \<circ> unlock (guard_mutex g)) ^^ n) st)"
  define free where "free = (\<lambda>n. \<not> lock_flag (after n (guard_mutex g)))"
  have it: "iterate (drop_body others g) n st = (if \<forall>m<n. \<not> free m then Some (after n) else None)" for n
    by (simp add: drop_iterate after_def free_def)
  have "drop_loop others g st = (if \<exists>n. free n then Some (after (LEAST n. free n)) else None)"
  proof (cases "\<exists>n. free n")
    case True
    define L where "L = (LEAST n. free n)"
    have "free L" and "\<forall>m<L. \<not> free m"
      unfolding L_def using LeastI_ex [OF True] by (simp, blast dest: not_less_Least)
    moreover have "drop_body others g (after L) = Some (Inr (after L))" if "free L"
      using that by (simp add: drop_body_unlock [of others g "after L"] free_def)
    ultimately have "iterate (drop_body others g) L st = Some (after L) \<and>
        drop_body others g (after L) = Some (Inr (after L))"
      using it [of L] by simp
    then have "drop_loop others g st = Some (after L)" unfolding dl.loop_iterate by blast
    then have "drop_loop others g st = Some (after (LEAST n. free n))" by (simp add: L_def)
    then show ?thesis using True by simp
  next
    case False
    then have "drop_loop others g st = None" unfolding dl.loop_None it by simp
    then show ?thesis using False by simp
  qed
  then show ?thesis by (simp add: after_def free_def Let_def)
qed

section \<open>Mutual exclusion with one worker\<close>

text \<open>No guard of an \<open>Err\<close> has been handed out.\<close>

definition no_failure :: "'a msys \<Rightarrow> bool" where
  "no_failure s \<longleftrightarrow> (\<forall>c. at s c \<noteq> Guarded False \<and> at s c \<noteq> Dropping False)"

definition holder :: "'a msys \<Rightarrow> nat \<Rightarrow> bool" where
  "holder s c \<longleftrightarrow> at s c = Guarded True \<or> at s c = Dropping True"

definition exclusive :: "mid \<Rightarrow> 'a msys \<Rightarrow> bool" where
  "exclusive i s \<longleftrightarrow> (\<forall>c c'. holder s c \<longrightarrow> holder s c' \<longrightarrow> c = c') \<and>
     (\<forall>c. at s c = Guarded True \<longrightarrow> lock_flag (mem s i)) \<and>
     (lock_flag (mem s i) \<longrightarrow> (\<exists>c. holder s c))"

lemma exclusive_same:
  assumes "exclusive i s" and "\<And>c. holder s' c \<longleftrightarrow> holder s c"
    and "\<And>c. at s' c = Guarded True \<Longrightarrow> at s c = Guarded True"
    and "lock_flag (mem s' i) = lock_flag (mem s i)"
  shows "exclusive i s'"
  using assms unfolding exclusive_def by metis

lemma exclusive_step:
  assumes e: "exclusive i s" and n: "no_failure s'" and st: "one_worker_step i s s'"
  shows "exclusive i s'"
proof -
  obtain c where c: "client_step i c s s'" and alone: "\<And>c'. c' \<noteq> c \<Longrightarrow> \<not> dropping s c'"
    using st by (auto simp: one_worker_step_def)
  show ?thesis
    using c
  proof cases
    case (lock_got k g st)
    then have free: "\<not> lock_flag (mem s i)" "st = (mem s)(i := (mem s i)\<lparr>lock_flag := True\<rparr>)"
      by (auto simp: mutex_defs split: if_splits)
    have "\<not> holder s c'" for c'
      using e free(1) alone [of c'] lock_got(2)
      by (cases "c' = c") (auto simp: exclusive_def holder_def dropping_def)
    then show ?thesis using lock_got free(2) by (auto simp: exclusive_def holder_def)
  next
    case (try_got g st)
    then have free: "\<not> lock_flag (mem s i)" "st = (mem s)(i := (mem s i)\<lparr>lock_flag := True\<rparr>)"
      by (auto simp: mutex_defs split: if_splits)
    have "\<not> holder s c'" for c'
      using e free(1) alone [of c'] try_got(2)
      by (cases "c' = c") (auto simp: exclusive_def holder_def dropping_def)
    then show ?thesis using try_got free(2) by (auto simp: exclusive_def holder_def)
  next
    case (dropped b st)
    then have free: "\<not> lock_flag (mem s i)" "st = mem s"
      by (auto simp: mutex_defs split: if_splits)
    then show ?thesis
      using e dropped by (auto simp: exclusive_def holder_def)
  next
    case (drop_round b st)
    then have b: "b = True" and st: "st = (mem s)(i := (mem s i)\<lparr>lock_flag := False\<rparr>)"
      using n [unfolded no_failure_def, rule_format, of c]
      by (auto simp: mutex_defs split: if_splits)
    then have h: "holder s c" using drop_round by (simp add: holder_def)
    then have "at s c' \<noteq> Guarded True" for c'
      using e drop_round(2) unfolding exclusive_def by (metis client.distinct(19) holder_def)
    then show ?thesis using e drop_round st by (auto simp: exclusive_def holder_def)
  next
    case (lock_missed k st)
    then have "st = mem s" by (auto simp: mutex_defs split: if_splits)
    then show ?thesis
      using lock_missed by (intro exclusive_same [OF e]) (auto simp: holder_def split: if_splits)
  next
    case (access b f)
    then show ?thesis by (intro exclusive_same [OF e]) (auto simp: holder_def mutex_defs)
  next
    case (drop_called b)
    then have "b = True" using n [unfolded no_failure_def, rule_format, of c] by auto
    then show ?thesis
      using drop_called by (intro exclusive_same [OF e]) (auto simp: holder_def split: if_splits)
  next
    case lock_failed
    then show ?thesis using n [unfolded no_failure_def, rule_format, of c] by simp
  next
    case (try_failed ex st)
    then show ?thesis using n [unfolded no_failure_def, rule_format, of c] by simp
  next
    case lock_called
    then show ?thesis by (intro exclusive_same [OF e]) (auto simp: holder_def split: if_splits)
  next
    case (lock_resumed k)
    then show ?thesis by (intro exclusive_same [OF e]) (auto simp: holder_def split: if_splits)
  qed
qed

text \<open>C23. With one worker thread, and as long as no attempt has failed, at most one coroutine
  holds the mutex at any time, the mutex is locked while its data may be accessed, and it is
  locked only while somebody holds it (so it is not lost).\<close>

theorem one_worker_exclusion:
  assumes "reach (msys_init i) (\<lambda>s s'. one_worker_step i s s' \<and> no_failure s') s"
  shows "(\<forall>c c'. at s c = Guarded True \<longrightarrow> at s c' = Guarded True \<longrightarrow> c = c') \<and>
    (\<forall>c. at s c = Guarded True \<longrightarrow> lock_flag (mem s i)) \<and>
    (lock_flag (mem s i) \<longrightarrow> (\<exists>c. at s c = Guarded True \<or> at s c = Dropping True))"
proof -
  have "exclusive i s"
    using assms
  proof (rule reach_invariant)
    show "exclusive i s" if "msys_init i s" for s :: "'a msys"
      using that by (auto simp: msys_init_def exclusive_def holder_def mutex_new_def)
  qed (blast intro: exclusive_step)
  then show ?thesis by (auto simp: exclusive_def holder_def)
qed

section \<open>What breaks mutual exclusion\<close>

text \<open>Clients that all start outside an unlocked mutex with the data 0.\<close>

definition demo_clients :: "(nat \<Rightarrow> client) \<Rightarrow> bool \<Rightarrow> nat msys" where
  "demo_clients p l =
    \<lparr>mem = (\<lambda>_. \<lparr>mdata = 0, lock_flag = False\<rparr>)(0 := \<lparr>mdata = 0, lock_flag = l\<rparr>), at = p\<rparr>"

lemma demo_clients_init: "msys_init 0 (demo_clients (\<lambda>_. Outside) False)"
  by (auto simp: msys_init_def demo_clients_def mutex_new_def)

lemma demo_try:
  "p c = Outside \<Longrightarrow>
   client_step 0 c (demo_clients p False) (demo_clients (p(c := Guarded True)) True)"
  using try_got [of "demo_clients p False" c 0 "guard_new 0 0" "mem (demo_clients p True)"]
  by (simp add: demo_clients_def mutex_defs)

lemma demo_try_failed:
  "p c = Outside \<Longrightarrow>
   client_step 0 c (demo_clients p True) (demo_clients (p(c := Guarded False)) True)"
  using try_failed [of "demo_clients p True" c 0 "poison_error_new (guard_new 0 0)"
      "mem (demo_clients p True)"]
  by (simp add: demo_clients_def mutex_defs)

lemma demo_drop:
  "p c = Guarded b \<Longrightarrow>
   client_step 0 c (demo_clients p l) (demo_clients (p(c := Dropping b)) l)"
  using drop_called [of "demo_clients p l" c b 0] by (simp add: demo_clients_def)

lemma demo_drop_round:
  "p c = Dropping b \<Longrightarrow> client_step 0 c (demo_clients p True) (demo_clients p False)"
  using drop_round [of "demo_clients p True" c b 0 "mem (demo_clients p False)"]
  by (simp add: demo_clients_def mutex_defs)

lemma demo_dropped:
  "p c = Dropping b \<Longrightarrow>
   client_step 0 c (demo_clients p False) (demo_clients (p(c := Outside)) False)"
  using dropped [of "demo_clients p False" c b 0 "mem (demo_clients p False)"]
  by (simp add: demo_clients_def mutex_defs)

theorem one_worker_exclusion_witness:
  "lock_flag (mem (demo_clients ((\<lambda>_. Outside)(0 := Guarded True)) True) 0)"
proof -
  let ?s = "demo_clients ((\<lambda>_. Outside)(0 := Guarded True)) True"
  have "one_worker_step 0 (demo_clients (\<lambda>_. Outside) False) ?s"
    unfolding one_worker_step_def
    using demo_try [of "\<lambda>_. Outside" 0] by (force simp: dropping_def demo_clients_def)
  moreover have "no_failure ?s" by (simp add: no_failure_def demo_clients_def)
  ultimately have "reach (msys_init 0) (\<lambda>s s'. one_worker_step 0 s s' \<and> no_failure s') ?s"
    using demo_clients_init by (blast intro: reach.intros)
  moreover have "at ?s 0 = Guarded True" by (simp add: demo_clients_def)
  ultimately show ?thesis using one_worker_exclusion by blast
qed

text \<open>C24. With several worker threads mutual exclusion fails although no attempt ever failed:
  \<open>drop\<close> does not stop at its own unlocking but tries again, and so unlocks a mutex that
  another coroutine has locked in between; a third one then locks it too.\<close>

theorem drop_race_breaks_exclusion:
  "\<exists>s. reach (msys_init 0) (\<lambda>s s'. workers_step 0 s s' \<and> no_failure s') (s :: nat msys) \<and>
     at s 1 = Guarded True \<and> at s 2 = Guarded True"
proof -
  let ?R = "reach (msys_init 0) (\<lambda>s s'. workers_step 0 s s' \<and> no_failure (s' :: nat msys))"
  have go: "?R s'" if "?R s" "client_step 0 c s s'" "no_failure s'" for s s' c
    using that by (auto intro: reach.reach_step simp: workers_step_def)
  let ?o = "\<lambda>_ :: nat. Outside"
  let ?d = "?o(0 := Dropping True)"
  note nf = no_failure_def demo_clients_def
  have "?R (demo_clients ?o False)" by (intro reach.reach_init demo_clients_init)
  then have "?R (demo_clients (?o(0 := Guarded True)) True)"
    by (rule go [OF _ demo_try]) (simp_all add: nf)
  then have "?R (demo_clients ?d True)"
    using go [OF _ demo_drop [of "?o(0 := Guarded True)" 0 True]] by (simp add: nf)
  then have "?R (demo_clients ?d False)"
    by (rule go [OF _ demo_drop_round [of _ 0 True]]) (simp_all add: nf)
  then have "?R (demo_clients (?d(1 := Guarded True)) True)"
    by (rule go [OF _ demo_try]) (simp_all add: nf)
  then have "?R (demo_clients (?d(1 := Guarded True)) False)"
    by (rule go [OF _ demo_drop_round [of _ 0 True]]) (simp_all add: nf)
  then have "?R (demo_clients (?d(1 := Guarded True, 2 := Guarded True)) True)"
    by (rule go [OF _ demo_try]) (simp_all add: nf)
  then show ?thesis by (intro exI conjI) (assumption, simp_all add: demo_clients_def)
qed

text \<open>C25. Even with one worker thread, a failed \<open>try_lock\<close> breaks mutual exclusion: dropping its
  \<open>Err\<close> unlocks the mutex another coroutine holds, and a third one locks it too.\<close>

theorem failed_try_lock_breaks_exclusion:
  "\<exists>s. reach (msys_init 0) (one_worker_step 0) (s :: nat msys) \<and>
     at s 0 = Guarded True \<and> at s 2 = Guarded True"
proof -
  let ?R = "reach (msys_init 0) (one_worker_step 0 :: nat msys \<Rightarrow> _)"
  have go: "?R s'" if "?R s" "client_step 0 c s s'" "\<And>c'. c' \<noteq> c \<Longrightarrow> \<not> dropping s c'" for s s' c
  proof -
    have "one_worker_step 0 s s'" using that(2,3) by (auto simp: one_worker_step_def)
    then show ?thesis using that(1) by (rule reach.reach_step [rotated])
  qed
  let ?g = "(\<lambda>_ :: nat. Outside)(0 := Guarded True)"
  note d = dropping_def demo_clients_def
  have "?R (demo_clients (\<lambda>_. Outside) False)" by (intro reach.reach_init demo_clients_init)
  then have "?R (demo_clients ?g True)" by (rule go [OF _ demo_try]) (simp_all add: d)
  then have "?R (demo_clients (?g(1 := Guarded False)) True)"
    by (rule go [OF _ demo_try_failed]) (simp_all add: d)
  then have "?R (demo_clients (?g(1 := Dropping False)) True)"
    using go [OF _ demo_drop [of "?g(1 := Guarded False)" 1 False]] by (simp add: d)
  then have "?R (demo_clients (?g(1 := Dropping False)) False)"
    by (rule go [OF _ demo_drop_round [of _ 1 False]]) (simp_all add: d)
  then have "?R (demo_clients (?g(1 := Outside)) False)"
    using go [OF _ demo_dropped [of "?g(1 := Dropping False)" 1 False]] by (simp add: d)
  then have "?R (demo_clients (?g(1 := Outside, 2 := Guarded True)) True)"
    by (rule go [OF _ demo_try]) (simp_all add: d)
  then show ?thesis by (intro exI conjI) (assumption, simp_all add: demo_clients_def)
qed

end
