(* ===== verification/Http_Conn.thy ===== *)
theory Http_Conn
  imports Net_Model
begin

text \<open>
  \<open>src/net/http/conn.rs\<close>: HTTP and HTTPS streams, listeners and connectors on top of the
  crate's TCP types, as instances of the traits of \<open>hyper\<close>. Strings are their characters; a
  TLS implementation is a record of operations. An operation whose \<open>unwrap\<close> can panic
  returns an \<open>outcome\<close>.
\<close>

section \<open>Panics and hyper errors\<close>

datatype ('p, 'a) outcome = Returned 'a | Panicked 'p

text \<open>\<open>hyper::Error\<close>: an I/O error, an error of the TLS library, or an invalid message.\<close>

datatype hyper_error = Hyper_Io io_error | Hyper_Ssl string | Hyper_Parse string

type_synonym 'a hyper_result = "hyper_error + 'a"

text \<open>\<open>From<io::Error> for hyper::Error\<close>, as \<open>try!\<close> and \<open>map_err\<close> use it.\<close>

fun hyper_of_io :: "'a io_result \<Rightarrow> 'a hyper_result" where
  "hyper_of_io (Inl e) = Inl (Hyper_Io e)"
| "hyper_of_io (Inr x) = Inr x"

definition unwrap :: "'e + 'a \<Rightarrow> ('e, 'a) outcome" where
  "unwrap r = (case r of Inl e \<Rightarrow> Panicked e | Inr x \<Rightarrow> Returned x)"

section \<open>HttpListener and HttpStream\<close>

datatype 'lst http_listener = HttpListener "'lst tcp_listener"
datatype 'str http_stream = HttpStream "'str tcp_stream"

fun http_listener_clone ::
  "('w, 'sock, 'lst, 'str, 'udp, 'buf, 'mbuf) mio \<Rightarrow> 'lst http_listener \<Rightarrow> 'w \<Rightarrow>
   (io_error, 'lst http_listener) outcome \<times> 'w" where
  "http_listener_clone M (HttpListener l) w =
    (case tcp_listener_try_clone M l w of
       (r, w') \<Rightarrow> (map_outcome id HttpListener (unwrap r), w'))"

definition http_listener_new ::
  "('w, 'sock, 'lst, 'str, 'udp, 'buf, 'mbuf) mio \<Rightarrow> 'w addrs \<Rightarrow> 'w \<Rightarrow>
   'lst http_listener io_result \<times> 'w" where
  "http_listener_new M addr w =
    (case tcp_bind M addr w of
       (Inl e, w') \<Rightarrow> (Inl e, w')
     | (Inr l, w') \<Rightarrow> (Inr (HttpListener l), w'))"

fun http_accept ::
  "('w, 'sock, 'lst, 'str, 'udp, 'buf, 'mbuf) mio \<Rightarrow> 'w waiter \<Rightarrow> 'lst http_listener \<Rightarrow> 'w \<Rightarrow>
   ('str http_stream hyper_result \<times> 'w) option" where
  "http_accept M wait (HttpListener l) w =
    (case accept M wait l w of
       None \<Rightarrow> None
     | Some (Inl e, w') \<Rightarrow> Some (Inl (Hyper_Io e), w')
     | Some (Inr s, w') \<Rightarrow> Some (Inr (HttpStream s), w'))"

text \<open>\<open>local_addr\<close> is that of the \<open>mio\<close> listener, reached through \<open>Deref\<close>.\<close>

fun http_local_addr ::
  "('lst \<Rightarrow> 'w \<Rightarrow> socket_addr io_result \<times> 'w) \<Rightarrow> 'lst http_listener \<Rightarrow> 'w \<Rightarrow>
   socket_addr io_result \<times> 'w" where
  "http_local_addr lst_local_addr (HttpListener l) w = lst_local_addr (tcp_listener_deref l) w"

fun http_stream_clone ::
  "('w, 'sock, 'lst, 'str, 'udp, 'buf, 'mbuf) mio \<Rightarrow> 'str http_stream \<Rightarrow> 'w \<Rightarrow>
   (io_error, 'str http_stream) outcome \<times> 'w" where
  "http_stream_clone M (HttpStream s) w =
    (case tcp_stream_try_clone M s w of
       (r, w') \<Rightarrow> (map_outcome id HttpStream (unwrap r), w'))"

fun http_read ::
  "('w, 'sock, 'lst, 'str, 'udp, 'buf, 'mbuf) mio \<Rightarrow> 'w waiter \<Rightarrow> 'str http_stream \<Rightarrow>
   byte list \<times> 'w \<Rightarrow> (usize io_result \<times> byte list \<times> 'w) option" where
  "http_read M wait (HttpStream s) bw = tcp_read M wait s bw"

fun http_write ::
  "('w, 'sock, 'lst, 'str, 'udp, 'buf, 'mbuf) mio \<Rightarrow> 'w waiter \<Rightarrow> 'str http_stream \<Rightarrow>
   byte list \<Rightarrow> 'w \<Rightarrow> (usize io_result \<times> 'w) option" where
  "http_write M wait (HttpStream s) buf w = tcp_write M wait s buf w"

fun http_flush :: "'str http_stream \<Rightarrow> 'w \<Rightarrow> unit io_result \<times> 'w" where
  "http_flush (HttpStream s) w = tcp_flush w"

definition http_stream_debug :: "'str http_stream \<Rightarrow> string" where
  "http_stream_debug self = ''HttpStream(_)''"

fun http_peer_addr ::
  "('w, 'sock, 'lst, 'str, 'udp, 'buf, 'mbuf) mio \<Rightarrow> 'str http_stream \<Rightarrow> 'w \<Rightarrow>
   socket_addr io_result \<times> 'w" where
  "http_peer_addr M (HttpStream s) w = peer_addr M s w"

text \<open>\<open>close\<close> takes the standard library's \<open>Shutdown\<close>.\<close>

datatype std_shutdown = Std_Read | Std_Write | Std_Both

fun http_close ::
  "('w, 'sock, 'lst, 'str, 'udp, 'buf, 'mbuf) mio \<Rightarrow> 'str http_stream \<Rightarrow> std_shutdown \<Rightarrow> 'w \<Rightarrow>
   unit io_result \<times> 'w" where
  "http_close M (HttpStream s) how w =
    (let how' = (case how of
         Std_Read \<Rightarrow> Shutdown_Read | Std_Write \<Rightarrow> Shutdown_Write | Std_Both \<Rightarrow> Shutdown_Both)
     in tcp_shutdown M s how' w)"

section \<open>HttpConnector\<close>

text \<open>\<open>(host, port).to_socket_addrs()\<close> is the argument \<open>resolve\<close>.\<close>

definition http_connector_connect ::
  "('w, 'sock, 'lst, 'str, 'udp, 'buf, 'mbuf) mio \<Rightarrow> 'w waiter \<Rightarrow>
   (string \<Rightarrow> 16 word \<Rightarrow> 'w addrs) \<Rightarrow> string \<Rightarrow> 16 word \<Rightarrow> string \<Rightarrow> 'w \<Rightarrow>
   'str http_stream hyper_result \<times> 'w" where
  "http_connector_connect M wait resolve host port scheme w =
    (let addr = resolve host port
     in if scheme = ''http''
        then (case tcp_connect M wait addr w of
                (Inl e, w') \<Rightarrow> (Inl (Hyper_Io e), w')
              | (Inr s, w') \<Rightarrow> (Inr (HttpStream s), w'))
        else (Inl (Hyper_Io (Io_Error InvalidInput ''Invalid scheme for Http'')), w))"

section \<open>HttpsStream\<close>

text \<open>\<open>NetworkStream\<close>: what a stream can do.\<close>

record ('w, 's) network_stream =
  ns_read :: "'s \<Rightarrow> byte list \<times> 'w \<Rightarrow> (usize io_result \<times> byte list \<times> 'w) option"
  ns_write :: "'s \<Rightarrow> byte list \<Rightarrow> 'w \<Rightarrow> (usize io_result \<times> 'w) option"
  ns_flush :: "'s \<Rightarrow> 'w \<Rightarrow> (unit io_result \<times> 'w) option"
  ns_peer_addr :: "'s \<Rightarrow> 'w \<Rightarrow> socket_addr io_result \<times> 'w"
  ns_close :: "'s \<Rightarrow> std_shutdown \<Rightarrow> 'w \<Rightarrow> unit io_result \<times> 'w"

definition http_network_stream ::
  "('w, 'sock, 'lst, 'str, 'udp, 'buf, 'mbuf) mio \<Rightarrow> 'w waiter \<Rightarrow>
   ('w, 'str http_stream) network_stream" where
  "http_network_stream M wait =
    \<lparr>ns_read = http_read M wait, ns_write = http_write M wait, ns_flush = \<lambda>s w. Some (http_flush s w),
     ns_peer_addr = http_peer_addr M, ns_close = http_close M\<rparr>"

datatype ('str, 's) https_stream = Http "'str http_stream" | Https 's

fun https_read ::
  "('w, 'str http_stream) network_stream \<Rightarrow> ('w, 's) network_stream \<Rightarrow> ('str, 's) https_stream \<Rightarrow>
   byte list \<times> 'w \<Rightarrow> (usize io_result \<times> byte list \<times> 'w) option" where
  "https_read P S (Http s) bw = ns_read P s bw"
| "https_read P S (Https s) bw = ns_read S s bw"

fun https_write ::
  "('w, 'str http_stream) network_stream \<Rightarrow> ('w, 's) network_stream \<Rightarrow> ('str, 's) https_stream \<Rightarrow>
   byte list \<Rightarrow> 'w \<Rightarrow> (usize io_result \<times> 'w) option" where
  "https_write P S (Http s) msg w = ns_write P s msg w"
| "https_write P S (Https s) msg w = ns_write S s msg w"

fun https_flush ::
  "('w, 'str http_stream) network_stream \<Rightarrow> ('w, 's) network_stream \<Rightarrow> ('str, 's) https_stream \<Rightarrow>
   'w \<Rightarrow> (unit io_result \<times> 'w) option" where
  "https_flush P S (Http s) w = ns_flush P s w"
| "https_flush P S (Https s) w = ns_flush S s w"

fun https_peer_addr ::
  "('w, 'str http_stream) network_stream \<Rightarrow> ('w, 's) network_stream \<Rightarrow> ('str, 's) https_stream \<Rightarrow>
   'w \<Rightarrow> socket_addr io_result \<times> 'w" where
  "https_peer_addr P S (Http s) w = ns_peer_addr P s w"
| "https_peer_addr P S (Https s) w = ns_peer_addr S s w"

fun https_close ::
  "('w, 'str http_stream) network_stream \<Rightarrow> ('w, 's) network_stream \<Rightarrow> ('str, 's) https_stream \<Rightarrow>
   std_shutdown \<Rightarrow> 'w \<Rightarrow> unit io_result \<times> 'w" where
  "https_close P S (Http s) how w = ns_close P s how w"
| "https_close P S (Https s) how w = ns_close S s how w"

section \<open>TLS\<close>

text \<open>The trait \<open>Ssl\<close>. A handshake reads from the peer and may never return.\<close>

record ('w, 'str, 's) ssl =
  wrap_client :: "'str http_stream \<Rightarrow> string \<Rightarrow> 'w \<Rightarrow> ('s hyper_result \<times> 'w) option"
  wrap_server :: "'str http_stream \<Rightarrow> 'w \<Rightarrow> ('s hyper_result \<times> 'w) option"

record ('lst, 'ssl) https_listener =
  hl_listener :: "'lst http_listener"
  hl_ssl :: 'ssl

definition https_listener_new ::
  "('w, 'sock, 'lst, 'str, 'udp, 'buf, 'mbuf) mio \<Rightarrow> 'w addrs \<Rightarrow> 'ssl \<Rightarrow> 'w \<Rightarrow>
   ('lst, 'ssl) https_listener hyper_result \<times> 'w" where
  "https_listener_new M addr ssl w =
    (case http_listener_new M addr w of
       (Inl e, w') \<Rightarrow> (Inl (Hyper_Io e), w')
     | (Inr l, w') \<Rightarrow> (Inr \<lparr>hl_listener = l, hl_ssl = ssl\<rparr>, w'))"

definition https_accept ::
  "('w, 'sock, 'lst, 'str, 'udp, 'buf, 'mbuf) mio \<Rightarrow> 'w waiter \<Rightarrow>
   ('lst, ('w, 'str, 's) ssl) https_listener \<Rightarrow> 'w \<Rightarrow> ('s hyper_result \<times> 'w) option" where
  "https_accept M wait self w =
    (case http_accept M wait (hl_listener self) w of
       None \<Rightarrow> None
     | Some (Inl e, w') \<Rightarrow> Some (Inl e, w')
     | Some (Inr s, w') \<Rightarrow> wrap_server (hl_ssl self) s w')"

definition https_local_addr ::
  "('lst \<Rightarrow> 'w \<Rightarrow> socket_addr io_result \<times> 'w) \<Rightarrow> ('lst, 'ssl) https_listener \<Rightarrow> 'w \<Rightarrow>
   socket_addr io_result \<times> 'w" where
  "https_local_addr lst_local_addr self w = http_local_addr lst_local_addr (hl_listener self) w"

record 'ssl https_connector =
  hc_ssl :: 'ssl

definition https_connector_new :: "'ssl \<Rightarrow> 'ssl https_connector" where
  "https_connector_new s = \<lparr>hc_ssl = s\<rparr>"

definition https_connector_connect ::
  "('w, 'sock, 'lst, 'str, 'udp, 'buf, 'mbuf) mio \<Rightarrow> 'w waiter \<Rightarrow>
   (string \<Rightarrow> 16 word \<Rightarrow> 'w addrs) \<Rightarrow> ('w, 'str, 's) ssl https_connector \<Rightarrow>
   string \<Rightarrow> 16 word \<Rightarrow> string \<Rightarrow> 'w \<Rightarrow>
   (('str, 's) https_stream hyper_result \<times> 'w) option" where
  "https_connector_connect M wait resolve self host port scheme w =
    (let addr = resolve host port
     in if scheme = ''https''
        then (case tcp_connect M wait addr w of
                (Inl e, w1) \<Rightarrow> Some (Inl (Hyper_Io e), w1)
              | (Inr s, w1) \<Rightarrow>
                  (case wrap_client (hc_ssl self) (HttpStream s) host w1 of
                     None \<Rightarrow> None
                   | Some (r, w2) \<Rightarrow> Some (map_sum id Https r, w2)))
        else (case http_connector_connect M wait resolve host port scheme w of
                (r, w1) \<Rightarrow> Some (map_sum id Http r, w1)))"

section \<open>The openssl implementation\<close>

text \<open>
  The functions of the \<open>openssl\<close> package that the crate calls. Its errors are an I/O error
  of the stream or another error.
\<close>

datatype ssl_error = Stream_Error io_error | Ssl_Error string

record ('w, 'str, 'ctx, 'con, 's) openssl_lib =
  ctx_new :: "'w \<Rightarrow> (ssl_error + 'ctx) \<times> 'w"
  set_cipher_list :: "'ctx \<Rightarrow> string \<Rightarrow> 'w \<Rightarrow> (ssl_error + unit) \<times> 'w"
  set_certificate_file :: "'ctx \<Rightarrow> string \<Rightarrow> 'w \<Rightarrow> (ssl_error + unit) \<times> 'w"
  set_private_key_file :: "'ctx \<Rightarrow> string \<Rightarrow> 'w \<Rightarrow> (ssl_error + unit) \<times> 'w"
  set_verify_none :: "'ctx \<Rightarrow> 'w \<Rightarrow> 'w"
  con_new :: "'ctx \<Rightarrow> 'w \<Rightarrow> (ssl_error + 'con) \<times> 'w"
  set_hostname :: "'con \<Rightarrow> string \<Rightarrow> 'w \<Rightarrow> (ssl_error + unit) \<times> 'w"
  stream_new_from :: "'con \<Rightarrow> 'str http_stream \<Rightarrow> 'w \<Rightarrow> ((ssl_error + 's) \<times> 'w) option"
  stream_new_server :: "'ctx \<Rightarrow> 'str http_stream \<Rightarrow> 'w \<Rightarrow> ((ssl_error + 's) \<times> 'w) option"

text \<open>\<open>From<SslError> for hyper::Error\<close>.\<close>

fun hyper_of_ssl :: "ssl_error \<Rightarrow> hyper_error" where
  "hyper_of_ssl (Stream_Error e) = Hyper_Io e"
| "hyper_of_ssl (Ssl_Error m) = Hyper_Ssl m"

record 'ctx openssl =
  os_context :: 'ctx

definition openssl_default ::
  "('w, 'str, 'ctx, 'con, 's) openssl_lib \<Rightarrow> 'w \<Rightarrow> (ssl_error, 'ctx openssl) outcome \<times> 'w" where
  "openssl_default L w =
    (case ctx_new L w of
       (Inl e, w') \<Rightarrow> (Panicked e, w')
     | (Inr sc, w') \<Rightarrow> (Returned \<lparr>os_context = sc\<rparr>, w'))"

definition with_cert_and_key ::
  "('w, 'str, 'ctx, 'con, 's) openssl_lib \<Rightarrow> string \<Rightarrow> string \<Rightarrow> 'w \<Rightarrow>
   (ssl_error + 'ctx openssl) \<times> 'w" where
  "with_cert_and_key L cert key w =
    (case ctx_new L w of
       (Inl e, w1) \<Rightarrow> (Inl e, w1)
     | (Inr sc, w1) \<Rightarrow>
         (case set_cipher_list L sc ''DEFAULT'' w1 of
            (Inl e, w2) \<Rightarrow> (Inl e, w2)
          | (Inr _, w2) \<Rightarrow>
              (case set_certificate_file L sc cert w2 of
                 (Inl e, w3) \<Rightarrow> (Inl e, w3)
               | (Inr _, w3) \<Rightarrow>
                   (case set_private_key_file L sc key w3 of
                      (Inl e, w4) \<Rightarrow> (Inl e, w4)
                    | (Inr _, w4) \<Rightarrow> (Inr \<lparr>os_context = sc\<rparr>, set_verify_none L sc w4)))))"

definition openssl_wrap_client ::
  "('w, 'str, 'ctx, 'con, 's) openssl_lib \<Rightarrow> 'ctx openssl \<Rightarrow> 'str http_stream \<Rightarrow> string \<Rightarrow> 'w \<Rightarrow>
   ('s hyper_result \<times> 'w) option" where
  "openssl_wrap_client L self stream host w =
    (case con_new L (os_context self) w of
       (Inl e, w1) \<Rightarrow> Some (Inl (hyper_of_ssl e), w1)
     | (Inr con, w1) \<Rightarrow>
         (case set_hostname L con host w1 of
            (Inl e, w2) \<Rightarrow> Some (Inl (hyper_of_ssl e), w2)
          | (Inr _, w2) \<Rightarrow>
              (case stream_new_from L con stream w2 of
                 None \<Rightarrow> None
               | Some (r, w3) \<Rightarrow> Some (map_sum hyper_of_ssl id r, w3))))"

definition openssl_wrap_server ::
  "('w, 'str, 'ctx, 'con, 's) openssl_lib \<Rightarrow> 'ctx openssl \<Rightarrow> 'str http_stream \<Rightarrow> 'w \<Rightarrow>
   ('s hyper_result \<times> 'w) option" where
  "openssl_wrap_server L self stream w =
    (case stream_new_server L (os_context self) stream w of
       None \<Rightarrow> None
     | Some (Inr s, w') \<Rightarrow> Some (Inr s, w')
     | Some (Inl (Stream_Error e), w') \<Rightarrow>
         Some (Inl (Hyper_Io (Io_Error ConnectionAborted (message e))), w')
     | Some (Inl e, w') \<Rightarrow> Some (Inl (hyper_of_ssl e), w'))"

definition openssl_ssl ::
  "('w, 'str, 'ctx, 'con, 's) openssl_lib \<Rightarrow> 'ctx openssl \<Rightarrow> ('w, 'str, 's) ssl" where
  "openssl_ssl L self =
    \<lparr>wrap_client = openssl_wrap_client L self, wrap_server = openssl_wrap_server L self\<rparr>"

text \<open>\<open>DefaultConnector\<close> with the feature \<open>openssl\<close>, which is on by default.\<close>

type_synonym ('w, 'str, 's) default_connector = "('w, 'str, 's) ssl https_connector"

end
