(* ===== verification/Http_Server.thy ===== *)
theory Http_Server
  imports Http_Conn
begin

text \<open>
  \<open>src/net/http/server.rs\<close> and \<open>src/net/http/client.rs\<close>: the acceptor coroutine of a server,
  the worker coroutine of a connection with its keep-alive loop, and the client. What the
  crate takes from \<open>hyper\<close> (requests, headers, statuses, the handler) is a record of operations
  over the state \<open>'w\<close> of the outside world; an operation that may never return is an \<open>option\<close>,
  one that may panic returns an \<open>outcome\<close>.
\<close>

section \<open>The package hyper\<close>

record ('m, 'u, 'h, 'v) request =
  rq_method :: 'm
  rq_uri :: 'u
  rq_headers :: 'h
  rq_version :: 'v

datatype panic = Unwrap_Failed hyper_error | User_Panic string

text \<open>
  \<open>Request::new\<close> reads from the buffered reader \<open>'rd\<close>; the body of a request is read later,
  by the handler, from the same reader. \<open>Headers\<close> are \<open>'h\<close>, \<open>HttpVersion\<close> is \<open>'v\<close>,
  \<open>StatusCode\<close> is \<open>'st\<close>.
\<close>

record ('w, 's, 'rd, 'm, 'u, 'h, 'v, 'st) hyper =
  reader_new :: "'s \<Rightarrow> 'rd"
  request_new :: "socket_addr \<Rightarrow> 'rd \<times> 'w \<Rightarrow>
    (('m, 'u, 'h, 'v) request hyper_result \<times> 'rd \<times> 'w) option"
  http11 :: 'v
  status_continue :: 'st
  show_version :: "'v \<Rightarrow> byte list"
  show_status :: "'st \<Rightarrow> byte list"
  expects_continue :: "'h \<Rightarrow> bool"   \<comment> \<open>\<open>headers.get() == Some(&Expect::Continue)\<close>\<close>
  should_keep_alive :: "'v \<Rightarrow> 'h \<Rightarrow> bool"
  headers_new :: 'h
  set_connection_close :: "'h \<Rightarrow> 'h"

text \<open>
  \<open>Handler\<close>. \<open>handle\<close> gets the request and a response made from the writer \<open>'wr\<close>, the response
  headers and the version; it may read the body, write, and change the headers.
\<close>

record ('w, 'rd, 'wr, 'm, 'u, 'h, 'v, 'st) handler =
  check_continue :: "'m \<times> 'u \<times> 'h \<Rightarrow> 'w \<Rightarrow> ((panic, 'st) outcome \<times> 'w) option"
  handle :: "('m, 'u, 'h, 'v) request \<Rightarrow> 'v \<Rightarrow> 'h \<Rightarrow> 'rd \<times> 'wr \<times> 'w \<Rightarrow>
    ((panic, 'h) outcome \<times> 'rd \<times> 'wr \<times> 'w) option"

section \<open>Worker\<close>

text \<open>
  \<open>handle_expect\<close>. \<open>wa\<close> is \<open>write_all\<close> of the writer; \<open>write!\<close> does not flush.
\<close>

definition continue_line ::
  "('w, 's, 'rd, 'm, 'u, 'h, 'v, 'st) hyper \<Rightarrow> 'st \<Rightarrow> byte list list" where
  "continue_line Y status =
    [show_version Y (http11 Y), str_bytes '' '', show_status Y status, [0x0D, 0x0A, 0x0D, 0x0A]]"

definition handle_expect ::
  "('w, 's, 'rd, 'm, 'u, 'h, 'v, 'st) hyper \<Rightarrow> ('w, 'rd, 'wr, 'm, 'u, 'h, 'v, 'st) handler \<Rightarrow>
   (byte list \<Rightarrow> 'wr \<times> 'w \<Rightarrow> (unit io_result \<times> 'wr \<times> 'w) option) \<Rightarrow>
   ('m, 'u, 'h, 'v) request \<Rightarrow> 'wr \<times> 'w \<Rightarrow> ((panic, bool) outcome \<times> 'wr \<times> 'w) option" where
  "handle_expect Y H wa req s =
    (if rq_version req = http11 Y \<and> expects_continue Y (rq_headers req)
     then case check_continue H (rq_method req, rq_uri req, rq_headers req) (snd s) of
         None \<Rightarrow> None
       | Some (Panicked p, w1) \<Rightarrow> Some (Panicked p, fst s, w1)
       | Some (Returned status, w1) \<Rightarrow>
           (case write_pieces wa (continue_line Y status) (fst s, w1) of
              None \<Rightarrow> None
            | Some (Inl e, s2) \<Rightarrow> Some (Returned False, s2)
            | Some (Inr _, s2) \<Rightarrow>
                if status \<noteq> status_continue Y then Some (Returned False, s2)
                else Some (Returned True, s2))
     else Some (Returned True, s))"

text \<open>
  One round of \<open>keep_alive_loop\<close>: \<open>None\<close> in the result is a \<open>break\<close>, \<open>Some\<close> the new value of
  \<open>keep_alive\<close>. Every error of \<open>Request::new\<close> breaks.
\<close>

definition keep_alive_round ::
  "('w, 's, 'rd, 'm, 'u, 'h, 'v, 'st) hyper \<Rightarrow> ('w, 'rd, 'wr, 'm, 'u, 'h, 'v, 'st) handler \<Rightarrow>
   (byte list \<Rightarrow> 'wr \<times> 'w \<Rightarrow> (unit io_result \<times> 'wr \<times> 'w) option) \<Rightarrow> socket_addr \<Rightarrow>
   'rd \<times> 'wr \<times> 'w \<Rightarrow> ((panic, bool option) outcome \<times> 'rd \<times> 'wr \<times> 'w) option" where
  "keep_alive_round Y H wa addr s =
    (case request_new Y addr (fst s, snd (snd s)) of
       None \<Rightarrow> None
     | Some (Inl e, rd1, w1) \<Rightarrow> Some (Returned None, rd1, fst (snd s), w1)
     | Some (Inr req, rd1, w1) \<Rightarrow>
         (case handle_expect Y H wa req (fst (snd s), w1) of
            None \<Rightarrow> None
          | Some (Panicked p, s2) \<Rightarrow> Some (Panicked p, rd1, s2)
          | Some (Returned ok, s2) \<Rightarrow>
              if \<not> ok then Some (Returned None, rd1, s2)
              else
                let keep_alive = should_keep_alive Y (rq_version req) (rq_headers req);
                    version = rq_version req;
                    res_headers = (if \<not> keep_alive then set_connection_close Y (headers_new Y)
                                   else headers_new Y)
                in (case handle H req version res_headers (rd1, s2) of
                      None \<Rightarrow> None
                    | Some (Panicked p, s3) \<Rightarrow> Some (Panicked p, s3)
                    | Some (Returned res_headers, s3) \<Rightarrow>
                        Some (Returned (Some
                          (if keep_alive then should_keep_alive Y version res_headers
                           else keep_alive)), s3))))"

partial_function (option) keep_alive_loop ::
  "('w, 's, 'rd, 'm, 'u, 'h, 'v, 'st) hyper \<Rightarrow> ('w, 'rd, 'wr, 'm, 'u, 'h, 'v, 'st) handler \<Rightarrow>
   (byte list \<Rightarrow> 'wr \<times> 'w \<Rightarrow> (unit io_result \<times> 'wr \<times> 'w) option) \<Rightarrow> socket_addr \<Rightarrow>
   bool \<Rightarrow> 'rd \<times> 'wr \<times> 'w \<Rightarrow> ((panic, unit) outcome \<times> 'rd \<times> 'wr \<times> 'w) option" where
  "keep_alive_loop Y H wa addr keep_alive s =
    (if keep_alive
     then case keep_alive_round Y H wa addr s of
         None \<Rightarrow> None
       | Some (Panicked p, s') \<Rightarrow> Some (Panicked p, s')
       | Some (Returned None, s') \<Rightarrow> Some (Returned (), s')
       | Some (Returned (Some ka), s') \<Rightarrow> keep_alive_loop Y H wa addr ka s'
     else Some (Returned (), s))"

text \<open>
  \<open>handle_connection\<close>: the reader works on a clone of the stream, the writer is a \<open>BufWriter\<close>
  with capacity \<open>cap\<close>, which flushes what it holds when it is dropped and ignores errors.
  \<open>clone\<close> is that of the stream's type.
\<close>

definition bufwriter_drop ::
  "'w writing \<Rightarrow> byte list \<times> 'w \<Rightarrow> 'w option" where
  "bufwriter_drop wr s = (case flush_buf wr s of None \<Rightarrow> None | Some (_, _, w) \<Rightarrow> Some w)"

definition handle_connection ::
  "('w, 's, 'rd, 'm, 'u, 'h, 'v, 'st) hyper \<Rightarrow>
   ('w, 'rd, byte list, 'm, 'u, 'h, 'v, 'st) handler \<Rightarrow> ('w, 's) network_stream \<Rightarrow>
   ('s \<Rightarrow> 'w \<Rightarrow> (panic, 's) outcome \<times> 'w) \<Rightarrow> nat \<Rightarrow> 's \<Rightarrow> 'w \<Rightarrow>
   ((panic, unit) outcome \<times> 'w) option" where
  "handle_connection Y H N clone cap stream w =
    (case ns_peer_addr N stream w of
       (Inl e, w1) \<Rightarrow> Some (Returned (), w1)
     | (Inr addr, w1) \<Rightarrow>
         (case clone stream w1 of
            (Panicked p, w2) \<Rightarrow> Some (Panicked p, w2)
          | (Returned stream_clone, w2) \<Rightarrow>
              (case keep_alive_loop Y H (write_all (buf_write cap (ns_write N stream))) addr True
                      (reader_new Y stream_clone, [], w2) of
                 None \<Rightarrow> None
               | Some (r, rd, wrt) \<Rightarrow>
                   (case bufwriter_drop (ns_write N stream) wrt of
                      None \<Rightarrow> None
                    | Some w3 \<Rightarrow> Some (r, w3)))))"

section \<open>Server\<close>

text \<open>The trait \<open>NetworkListener\<close>.\<close>

record ('w, 'l, 's) network_listener =
  nl_accept :: "'l \<Rightarrow> 'w \<Rightarrow> ('s hyper_result \<times> 'w) option"
  nl_local_addr :: "'l \<Rightarrow> 'w \<Rightarrow> socket_addr io_result \<times> 'w"

definition http_network_listener ::
  "('w, 'sock, 'lst, 'str, 'udp, 'buf, 'mbuf) mio \<Rightarrow> 'w waiter \<Rightarrow>
   ('lst \<Rightarrow> 'w \<Rightarrow> socket_addr io_result \<times> 'w) \<Rightarrow>
   ('w, 'lst http_listener, 'str http_stream) network_listener" where
  "http_network_listener M wait lst_local_addr =
    \<lparr>nl_accept = http_accept M wait, nl_local_addr = http_local_addr lst_local_addr\<rparr>"

definition https_network_listener ::
  "('w, 'sock, 'lst, 'str, 'udp, 'buf, 'mbuf) mio \<Rightarrow> 'w waiter \<Rightarrow>
   ('lst \<Rightarrow> 'w \<Rightarrow> socket_addr io_result \<times> 'w) \<Rightarrow>
   ('w, ('lst, ('w, 'str, 's) ssl) https_listener, 's) network_listener" where
  "https_network_listener M wait lst_local_addr =
    \<lparr>nl_accept = https_accept M wait, nl_local_addr = https_local_addr lst_local_addr\<rparr>"

record 'l server =
  srv_listener :: 'l

definition server_new :: "'l \<Rightarrow> 'l server" where
  "server_new l = \<lparr>srv_listener = l\<rparr>"

definition server_http ::
  "('w, 'sock, 'lst, 'str, 'udp, 'buf, 'mbuf) mio \<Rightarrow> 'w addrs \<Rightarrow> 'w \<Rightarrow>
   'lst http_listener server hyper_result \<times> 'w" where
  "server_http M addr w =
    (case http_listener_new M addr w of (r, w') \<Rightarrow> (hyper_of_io (map_sum id server_new r), w'))"

definition server_https ::
  "('w, 'sock, 'lst, 'str, 'udp, 'buf, 'mbuf) mio \<Rightarrow> 'w addrs \<Rightarrow> 'ssl \<Rightarrow> 'w \<Rightarrow>
   ('lst, 'ssl) https_listener server hyper_result \<times> 'w" where
  "server_https M addr ssl w =
    (case https_listener_new M addr ssl w of (r, w') \<Rightarrow> (map_sum id server_new r, w'))"

text \<open>
  The coroutine that accepts: its first \<open>n\<close> rounds, with the streams for which it spawned a
  worker and where it is afterwards. \<open>spawn s\<close> is \<open>Scheduler::spawn\<close> of the worker of \<open>s\<close> as
  the acceptor sees it: the world after the workers have run for a while.
\<close>

datatype acceptor = Accepting | Stuck | Dead panic

fun acceptor_loop ::
  "('l \<Rightarrow> 'w \<Rightarrow> ('s hyper_result \<times> 'w) option) \<Rightarrow> ('s \<Rightarrow> 'w \<Rightarrow> 'w) \<Rightarrow> 'l \<Rightarrow> nat \<Rightarrow> 'w \<Rightarrow>
   's list \<times> acceptor \<times> 'w" where
  "acceptor_loop acc spawn l 0 w = ([], Accepting, w)"
| "acceptor_loop acc spawn l (Suc n) w =
    (case acc l w of
       None \<Rightarrow> ([], Stuck, w)
     | Some (r, w1) \<Rightarrow>
         (case unwrap r of
            Panicked e \<Rightarrow> ([], Dead (Unwrap_Failed e), w1)
          | Returned stream \<Rightarrow>
              (case acceptor_loop acc spawn l n (spawn stream w1) of
                 (streams, st, w2) \<Rightarrow> (stream # streams, st, w2))))"

text \<open>\<open>spawn_acceptor l\<close> is \<open>Scheduler::spawn\<close> of the coroutine that runs \<open>acceptor_loop\<close> on \<open>l\<close>.\<close>

definition listen ::
  "('w, 'l, 's) network_listener \<Rightarrow> ('l \<Rightarrow> 'w \<Rightarrow> 'w) \<Rightarrow> 'l server \<Rightarrow> 'w \<Rightarrow>
   socket_addr hyper_result \<times> 'w" where
  "listen L spawn_acceptor self w =
    (case nl_local_addr L (srv_listener self) w of
       (Inl e, w1) \<Rightarrow> (Inl (Hyper_Io e), w1)
     | (Inr socket, w1) \<Rightarrow> (Inr socket, spawn_acceptor (srv_listener self) w1))"

section \<open>Client\<close>

text \<open>\<open>hyper\<close>'s client is \<open>'c\<close>, made from a protocol; \<open>Http11Protocol\<close> is made from a connector.\<close>

datatype 'c client = Client (client_deref: 'c)

definition client_with_protocol :: "('p \<Rightarrow> 'c) \<Rightarrow> 'p \<Rightarrow> 'c client" where
  "client_with_protocol mk protocol = Client (mk protocol)"

definition client_with_connector :: "('p \<Rightarrow> 'c) \<Rightarrow> ('k \<Rightarrow> 'p) \<Rightarrow> 'k \<Rightarrow> 'c client" where
  "client_with_connector mk http11_protocol connector =
    client_with_protocol mk (http11_protocol connector)"

text \<open>The default connector is made from the default \<open>Openssl\<close>.\<close>

definition client_new ::
  "('w, 'str, 'ctx, 'con, 's) openssl_lib \<Rightarrow> ('p \<Rightarrow> 'c) \<Rightarrow>
   (('w, 'str, 's) default_connector \<Rightarrow> 'p) \<Rightarrow> 'w \<Rightarrow> (ssl_error, 'c client) outcome \<times> 'w" where
  "client_new L mk http11_protocol w =
    (case openssl_default L w of
       (r, w') \<Rightarrow> (map_outcome id (\<lambda>ssl. client_with_connector mk http11_protocol
                     (https_connector_new (openssl_ssl L ssl))) r, w'))"

definition client_deref_mut :: "('c \<Rightarrow> 'c) \<Rightarrow> 'c client \<Rightarrow> 'c client" where
  "client_deref_mut f self = Client (f (client_deref self))"

end
