(* ===== verification/Http_Echo.thy ===== *)
theory Http_Echo
  imports Http_Server
begin

text \<open>
  The HTTP examples: the handler and the set-up of \<open>examples/http-echo-server.rs\<close>, the client
  \<open>examples/http-echo-client.rs\<close>, and \<open>std::io::copy\<close>, on which both run. \<open>hyper\<close>'s
  \<open>Request\<close> as a reader and its \<open>Response\<close> are a record of operations.
\<close>

section \<open>The standard library's copy\<close>

type_synonym 's reading = "byte list \<times> 's \<Rightarrow> (usize io_result \<times> byte list \<times> 's) option"

text \<open>
  \<open>io::copy\<close> reads into one buffer again and again and writes what was read, until a read
  returns nothing; it counts in \<open>u64\<close>. Taking \<open>&buf[..len]\<close> panics if \<open>len\<close> is too large.
\<close>

partial_function (option) io_copy_loop ::
  "'s reading \<Rightarrow> 's writing \<Rightarrow> byte list \<times> 64 word \<times> 's \<Rightarrow>
   ((panic, 64 word io_result) outcome \<times> 's) option" where
  "io_copy_loop rd wr s =
    (case rd (fst s, snd (snd s)) of
       None \<Rightarrow> None
     | Some (Inl e, b1, s1) \<Rightarrow>
         if kind e = Interrupted then io_copy_loop rd wr (b1, fst (snd s), s1)
         else Some (Returned (Inl e), s1)
     | Some (Inr len, b1, s1) \<Rightarrow>
         if len = 0 then Some (Returned (Inr (fst (snd s))), s1)
         else if length b1 < unat len then Some (Panicked (User_Panic ''slice''), s1)
         else (case write_all wr (take (unat len) b1) s1 of
                 None \<Rightarrow> None
               | Some (Inl e, s2) \<Rightarrow> Some (Returned (Inl e), s2)
               | Some (Inr _, s2) \<Rightarrow> io_copy_loop rd wr (b1, fst (snd s) + len, s2)))"

text \<open>\<open>bufsz\<close> is the size of the buffer, \<open>DEFAULT_BUF_SIZE\<close>.\<close>

definition io_copy ::
  "nat \<Rightarrow> 's reading \<Rightarrow> 's writing \<Rightarrow> 's \<Rightarrow>
   ((panic, 64 word io_result) outcome \<times> 's) option" where
  "io_copy bufsz rd wr s = io_copy_loop rd wr (replicate bufsz 0, 0, s)"

section \<open>The echo server\<close>

text \<open>
  A request is read through the connection's reader \<open>'rd\<close>, which keeps how much of the body is
  left. A fresh response \<open>'f\<close> is made of the headers and the writer and gives them back when
  it is sent or dropped; once started it is a writer \<open>'g\<close> of its body.
\<close>

record ('w, 'rd, 'wr, 'm, 'u, 'h, 'v, 'st, 'f, 'g) hyper_io =
  method_get :: 'm
  method_post :: 'm
  absolute_path :: "'u \<Rightarrow> string option"   \<comment> \<open>\<open>RequestUri::AbsolutePath\<close>\<close>
  status_not_found :: 'st
  status_of_continue :: 'st
  req_read :: "('m, 'u, 'h, 'v) request \<Rightarrow> ('rd \<times> 'w) reading"
  req_drop :: "('m, 'u, 'h, 'v) request \<Rightarrow> 'rd \<times> 'w \<Rightarrow> ('rd \<times> 'w) option"
  res_new :: "'v \<Rightarrow> 'h \<Rightarrow> 'wr \<Rightarrow> 'f"
  res_set_status :: "'st \<Rightarrow> 'f \<Rightarrow> 'f"
  res_send :: "byte list \<Rightarrow> 'f \<times> 'w \<Rightarrow> (unit io_result \<times> 'h \<times> 'wr \<times> 'w) option"
  res_start :: "'f \<times> 'w \<Rightarrow> ((io_error \<times> 'h \<times> 'wr + 'g) \<times> 'w) option"
  res_write :: "('g \<times> 'w) writing"
  res_drop_fresh :: "'f \<times> 'w \<Rightarrow> ('h \<times> 'wr \<times> 'w) option"
  res_drop :: "'g \<times> 'w \<Rightarrow> ('h \<times> 'wr \<times> 'w) option"
  print_error :: "io_error \<Rightarrow> 'w \<Rightarrow> 'w"   \<comment> \<open>\<open>println!("Error: {}", e)\<close>\<close>

text \<open>\<open>try_return!\<close> on a result that is not used further.\<close>

definition try_return :: "(io_error \<Rightarrow> 'w \<Rightarrow> 'w) \<Rightarrow> 'a io_result \<Rightarrow> 'w \<Rightarrow> 'w" where
  "try_return pr r w = (case r of Inr _ \<Rightarrow> w | Inl e \<Rightarrow> pr e w)"

text \<open>
  Where the handler returns, the response has gone and the request is dropped. What the two
  sides of \<open>io::copy\<close> work on is the reader, the response and the world.
\<close>

definition echo_exit ::
  "('w, 'rd, 'wr, 'm, 'u, 'h, 'v, 'st, 'f, 'g) hyper_io \<Rightarrow> ('m, 'u, 'h, 'v) request \<Rightarrow>
   (panic, unit) outcome \<Rightarrow> 'rd \<Rightarrow> ('h \<times> 'wr \<times> 'w) option \<Rightarrow>
   ((panic, 'h) outcome \<times> 'rd \<times> 'wr \<times> 'w) option" where
  "echo_exit X req r rd back =
    (case back of
       None \<Rightarrow> None
     | Some (h, wr, w1) \<Rightarrow>
         (case req_drop X req (rd, w1) of
            None \<Rightarrow> None
          | Some (rd', w2) \<Rightarrow> Some (map_outcome id (\<lambda>_. h) r, rd', wr, w2)))"

definition copy_read ::
  "('w, 'rd, 'wr, 'm, 'u, 'h, 'v, 'st, 'f, 'g) hyper_io \<Rightarrow> ('m, 'u, 'h, 'v) request \<Rightarrow>
   ('rd \<times> 'g \<times> 'w) reading" where
  "copy_read X req = (\<lambda>(b, rd, g, w).
    (case req_read X req (b, rd, w) of
       None \<Rightarrow> None | Some (r, b', rd', w') \<Rightarrow> Some (r, b', rd', g, w')))"

definition copy_write ::
  "('w, 'rd, 'wr, 'm, 'u, 'h, 'v, 'st, 'f, 'g) hyper_io \<Rightarrow> ('rd \<times> 'g \<times> 'w) writing" where
  "copy_write X = (\<lambda>p (rd, g, w).
    (case res_write X p (g, w) of None \<Rightarrow> None | Some (r, g', w') \<Rightarrow> Some (r, rd, g', w')))"

text \<open>The part of \<open>echo\<close> after the \<open>match\<close>.\<close>

definition echo_body ::
  "('w, 'rd, 'wr, 'm, 'u, 'h, 'v, 'st, 'f, 'g) hyper_io \<Rightarrow> nat \<Rightarrow>
   ('m, 'u, 'h, 'v) request \<Rightarrow> 'f \<Rightarrow> 'rd \<times> 'w \<Rightarrow>
   ((panic, 'h) outcome \<times> 'rd \<times> 'wr \<times> 'w) option" where
  "echo_body X bufsz req res rw =
    (case res_start X (res, snd rw) of
       None \<Rightarrow> None
     | Some (Inl (e, h, wr), w1) \<Rightarrow>
         echo_exit X req (Returned ()) (fst rw) (Some (h, wr, print_error X e w1))
     | Some (Inr g, w1) \<Rightarrow>
         (case io_copy bufsz (copy_read X req) (copy_write X) (fst rw, g, w1) of
            None \<Rightarrow> None
          | Some (Panicked p, rd2, g2, w2) \<Rightarrow>
              echo_exit X req (Panicked p) rd2 (res_drop X (g2, w2))
          | Some (Returned r, rd2, g2, w2) \<Rightarrow>
              echo_exit X req (Returned ()) rd2
                (res_drop X (g2, try_return (print_error X) r w2))))"

definition echo ::
  "('w, 'rd, 'wr, 'm, 'u, 'h, 'v, 'st, 'f, 'g) hyper_io \<Rightarrow> nat \<Rightarrow>
   ('m, 'u, 'h, 'v) request \<Rightarrow> 'v \<Rightarrow> 'h \<Rightarrow> 'rd \<times> 'wr \<times> 'w \<Rightarrow>
   ((panic, 'h) outcome \<times> 'rd \<times> 'wr \<times> 'w) option" where
  "echo X bufsz req v h s =
    (let rd = fst s; w = snd (snd s); res = res_new X v h (fst (snd s))
     in case absolute_path X (rq_uri req) of
          Some path \<Rightarrow>
            if rq_method req = method_get X \<and> path = ''/'' \<or>
               rq_method req = method_get X \<and> path = ''/echo''
            then (case res_send X (str_bytes ''Try POST /echo'') (res, w) of
                    None \<Rightarrow> None
                  | Some (r, h', wr', w1) \<Rightarrow>
                      echo_exit X req (Returned ()) rd
                        (Some (h', wr', try_return (print_error X) r w1)))
            else if rq_method req = method_post X \<and> path = ''/echo''
            then echo_body X bufsz req res (rd, w)
            else echo_exit X req (Returned ()) rd
                   (res_drop_fresh X (res_set_status X (status_not_found X) res, w))
        | None \<Rightarrow> echo_exit X req (Returned ()) rd (res_drop_fresh X (res, w)))"

text \<open>A function is a \<open>Handler\<close> that accepts every expectation.\<close>

definition echo_handler ::
  "('w, 'rd, 'wr, 'm, 'u, 'h, 'v, 'st, 'f, 'g) hyper_io \<Rightarrow> nat \<Rightarrow>
   ('w, 'rd, 'wr, 'm, 'u, 'h, 'v, 'st) handler" where
  "echo_handler X bufsz =
    \<lparr>check_continue = (\<lambda>_ w. Some (Returned (status_of_continue X), w)), handle = echo X bufsz\<rparr>"

text \<open>
  \<open>main\<close> up to \<open>Scheduler::run\<close>; \<open>spawn_acceptor\<close> spawns the acceptor whose workers run
  \<open>echo_handler\<close>.
\<close>

definition http_echo_setup ::
  "('w, 'sock, 'lst, 'str, 'udp, 'buf, 'mbuf) mio \<Rightarrow> 'w waiter \<Rightarrow>
   ('lst \<Rightarrow> 'w \<Rightarrow> socket_addr io_result \<times> 'w) \<Rightarrow> ('lst http_listener \<Rightarrow> 'w \<Rightarrow> 'w) \<Rightarrow>
   'w addrs \<Rightarrow> 'w \<Rightarrow> (panic, socket_addr) outcome \<times> 'w" where
  "http_echo_setup M wait lst_local_addr spawn_acceptor bind_addr w =
    (case server_http M bind_addr w of
       (Inl e, w1) \<Rightarrow> (Panicked (Unwrap_Failed e), w1)
     | (Inr server, w1) \<Rightarrow>
         (case listen (http_network_listener M wait lst_local_addr) spawn_acceptor server w1 of
            (r, w2) \<Rightarrow> (map_outcome Unwrap_Failed id (unwrap r), w2)))"

section \<open>The client\<close>

text \<open>
  The coroutine of the client. \<open>get_close c addr\<close> is the request that
  \<open>client.get(&addr).header(Connection::close()).send()\<close> sends, \<open>print_head\<close> the two
  \<open>println!\<close> of the response's status and headers, \<open>stdout\<close> a write to the standard output.
\<close>

datatype client_panic = Ssl_Failed ssl_error | Send_Failed hyper_error | Copy_Failed io_error
  | In_Copy panic

definition http_echo_client ::
  "('w \<Rightarrow> (ssl_error, 'c client) outcome \<times> 'w) \<Rightarrow>
   ('c \<Rightarrow> string \<Rightarrow> 'w \<Rightarrow> ('resp hyper_result \<times> 'w) option) \<Rightarrow> ('resp \<Rightarrow> 'w \<Rightarrow> 'w) \<Rightarrow>
   ('resp \<times> 'w) reading \<Rightarrow> 'w writing \<Rightarrow> nat \<Rightarrow> string \<Rightarrow> 'w \<Rightarrow>
   ((client_panic, unit) outcome \<times> 'w) option" where
  "http_echo_client new_client get_close print_head resp_read stdout bufsz addr w =
    (case new_client w of
       (Panicked e, w1) \<Rightarrow> Some (Panicked (Ssl_Failed e), w1)
     | (Returned client, w1) \<Rightarrow>
         (case get_close (client_deref client) addr w1 of
            None \<Rightarrow> None
          | Some (Inl e, w2) \<Rightarrow> Some (Panicked (Send_Failed e), w2)
          | Some (Inr res, w2) \<Rightarrow>
              (case io_copy bufsz resp_read
                      (\<lambda>p (res, w). map_option (\<lambda>(r, w'). (r, res, w')) (stdout p w))
                      (res, print_head res w2) of
                 None \<Rightarrow> None
               | Some (Panicked p, _, w3) \<Rightarrow> Some (Panicked (In_Copy p), w3)
               | Some (Returned (Inl e), _, w3) \<Rightarrow> Some (Panicked (Copy_Failed e), w3)
               | Some (Returned (Inr _), _, w3) \<Rightarrow> Some (Returned (), w3))))"

end
