(* ===== verification/Http_Properties.thy ===== *)
theory Http_Properties
  imports Http_Server Net_Properties "HOL-Library.Sublist"
begin

text \<open>
  What the HTTP server, its connections and the HTTPS connector do, for every \<open>hyper\<close>, handler
  and TLS library.
\<close>

section \<open>The keep-alive loop under its contract\<close>

definition keep_alive_body ::
  "('w, 's, 'rd, 'm, 'u, 'h, 'v, 'st) hyper \<Rightarrow> ('w, 'rd, 'wr, 'm, 'u, 'h, 'v, 'st) handler \<Rightarrow>
   (byte list \<Rightarrow> 'wr \<times> 'w \<Rightarrow> (unit io_result \<times> 'wr \<times> 'w) option) \<Rightarrow> socket_addr \<Rightarrow>
   'rd \<times> 'wr \<times> 'w \<Rightarrow>
   (('rd \<times> 'wr \<times> 'w) + ((panic, unit) outcome \<times> 'rd \<times> 'wr \<times> 'w)) option" where
  "keep_alive_body Y H wa addr s =
    (case keep_alive_round Y H wa addr s of
       None \<Rightarrow> None
     | Some (Panicked p, s') \<Rightarrow> Some (Inr (Panicked p, s'))
     | Some (Returned None, s') \<Rightarrow> Some (Inr (Returned (), s'))
     | Some (Returned (Some ka), s') \<Rightarrow>
         if ka then Some (Inl s') else Some (Inr (Returned (), s')))"

lemma keep_alive_loop_False [simp]:
  "keep_alive_loop Y H wa addr False s = Some (Returned (), s)"
  by (simp add: keep_alive_loop.simps)

lemma keep_alive_loop_body:
  "keep_alive_loop Y H wa addr True s =
    (case keep_alive_body Y H wa addr s of
       None \<Rightarrow> None | Some (Inl s') \<Rightarrow> keep_alive_loop Y H wa addr True s' | Some (Inr r) \<Rightarrow> Some r)"
  by (subst keep_alive_loop.simps)
    (auto simp: keep_alive_body_def split: option.splits outcome.splits)

lemma keep_alive_loop_runs:
  assumes "keep_alive_loop Y H wa addr ka s = Some r"
  shows "if ka then runs (keep_alive_body Y H wa addr) s r else r = (Returned (), s)"
proof (rule keep_alive_loop.raw_induct [OF _ assms, of "\<lambda>Y H wa addr ka s r.
    if ka then runs (keep_alive_body Y H wa addr) s r else r = (Returned (), s)"], goal_cases)
  case (1 loop Y H wa addr ka s r)
  note IH = 1(1) and call = 1(2)
  show ?case
  proof (cases "ka \<and> (\<exists>ka' s'. keep_alive_round Y H wa addr s = Some (Returned (Some ka'), s'))")
    case True
    then obtain ka' s' where round: "keep_alive_round Y H wa addr s = Some (Returned (Some ka'), s')"
      by blast
    then have "loop Y H wa addr ka' s' = Some r" using call True by simp
    from IH [OF this] show ?thesis
      using True round by (cases ka') (auto simp: keep_alive_body_def intro: runs.intros)
  next
    case False
    then show ?thesis
      using call by (auto simp: keep_alive_body_def intro!: runs.leaves
          split: if_splits option.splits outcome.splits prod.splits)
  qed
qed

interpretation kl: looping "keep_alive_loop Y H wa addr True" "keep_alive_body Y H wa addr"
  for Y H wa addr
  by unfold_locales
    (simp_all add: keep_alive_loop_body keep_alive_loop_runs [of _ _ _ _ True, simplified])

section \<open>A concrete server\<close>

text \<open>
  An instance of the parameters for the witnesses: the world is the requests to come and the
  bytes sent; a URI is a number and the handler answers with it; headers are a pair of flags,
  expecting 100-continue and closing; a write takes at most eight bytes.
\<close>

type_synonym demo_req = "(unit, nat, bool \<times> bool, bool) request"
type_synonym demo_world = "demo_req list \<times> byte list"

definition demo_request :: "nat \<Rightarrow> bool \<Rightarrow> bool \<Rightarrow> demo_req" where
  "demo_request n expects closes =
    \<lparr>rq_method = (), rq_uri = n, rq_headers = (expects, closes), rq_version = True\<rparr>"

definition demo_closed :: io_error where
  "demo_closed = Io_Error ConnectionAborted ''closed''"

definition demo_hyper ::
  "(demo_world, nat, unit, unit, nat, bool \<times> bool, bool, nat) hyper" where
  "demo_hyper = \<lparr>
     reader_new = (\<lambda>s. ()),
     request_new = (\<lambda>addr (rd, rs, out). Some (case rs of
         [] \<Rightarrow> (Inl (Hyper_Io demo_closed), rd, rs, out)
       | r # rs' \<Rightarrow> (Inr r, rd, rs', out))),
     http11 = True, status_continue = 100,
     show_version = (\<lambda>v. [0x31]), show_status = (\<lambda>st. [of_nat st]),
     expects_continue = fst, should_keep_alive = (\<lambda>v h. \<not> snd h),
     headers_new = (False, False), set_connection_close = (\<lambda>h. (fst h, True))\<rparr>"

definition demo_handler ::
  "(demo_world, unit, byte list, unit, nat, bool \<times> bool, bool, nat) handler" where
  "demo_handler = \<lparr>
     check_continue = (\<lambda>x w. Some (Returned 100, w)),
     handle = (\<lambda>req v h (rd, b, w). Some (Returned h, rd, b @ [of_nat (rq_uri req)], w))\<rparr>"

definition demo_write :: "demo_world writing" where
  "demo_write p w = Some (Inr (of_nat (min (length p) 8)), fst w, snd w @ take 8 p)"

lemmas demo_http_defs = demo_request_def demo_closed_def demo_hyper_def demo_handler_def

section \<open>The keep-alive loop\<close>

text \<open>The keep-alive loop serves one request per round, and returns exactly what the first
  round that does not keep the connection alive ends with; it never returns iff some round
  does not, or every round keeps the connection alive.\<close>

lemma keep_alive_spec:
  "(keep_alive_loop Y H wa addr True s = Some r \<longleftrightarrow>
     (\<exists>n s'. iterate (keep_alive_body Y H wa addr) n s = Some s' \<and>
       keep_alive_body Y H wa addr s' = Some (Inr r))) \<and>
   (keep_alive_loop Y H wa addr True s = None \<longleftrightarrow>
     (\<exists>n s'. iterate (keep_alive_body Y H wa addr) n s = Some s' \<and>
       keep_alive_body Y H wa addr s' = None) \<or>
     (\<forall>n. iterate (keep_alive_body Y H wa addr) n s \<noteq> None))"
  by (simp add: kl.loop_iterate kl.loop_None)

text \<open>A connection stays open after a request iff the request asked for it and the headers
  the handler left agree; the handler finds \<open>Connection: close\<close> in the response headers
  exactly when the request did not ask for it, and cannot undo it.\<close>

lemma keep_alive_negotiated:
  assumes "request_new Y addr (rd, w) = Some (Inr req, rd1, w1)"
    and "handle_expect Y H wa req (wr, w1) = Some (Returned True, s2)"
    and "handle H req (rq_version req)
      (if should_keep_alive Y (rq_version req) (rq_headers req) then headers_new Y
       else set_connection_close Y (headers_new Y)) (rd1, s2) = Some (Returned hs, s3)"
  shows "keep_alive_loop Y H wa addr True (rd, wr, w) =
    (if should_keep_alive Y (rq_version req) (rq_headers req) \<and>
        should_keep_alive Y (rq_version req) hs
     then keep_alive_loop Y H wa addr True s3 else Some (Returned (), s3))"
  using assms
  by (cases "should_keep_alive Y (rq_version req) (rq_headers req)")
    (simp_all add: keep_alive_loop_body [of _ _ _ _ "(rd, wr, w)"] keep_alive_body_def
      keep_alive_round_def Let_def)

lemma keep_alive_negotiated_example:
  "keep_alive_loop demo_hyper demo_handler (write_all (buf_write 100 demo_write)) (V4 0 0) True
     ((), [], [demo_request 5 False True, demo_request 6 False False], []) =
   Some (Returned (), (), [5], [demo_request 6 False False], [])"
  using keep_alive_negotiated [of demo_hyper "V4 0 0" "()"
      "([demo_request 5 False True, demo_request 6 False False], [])" "demo_request 5 False True"
      "()" "([demo_request 6 False False], [])" demo_handler
      "write_all (buf_write 100 demo_write)" "[]" "([], [demo_request 6 False False], [])"
      "(False, True)" "((), [5], [demo_request 6 False False], [])"]
  by (simp add: demo_http_defs handle_expect_def)

text \<open>A connection ends: when requests can be read from it only so many times, and reading,
  checking an expectation, writing and handling always return, so does the keep-alive loop.\<close>

lemma keep_alive_terminates:
  assumes "\<And>rd w. request_new Y addr (rd, w) \<noteq> None"
    and "\<And>req s. handle_expect Y H wa req s \<noteq> None"
    and "\<And>req v hs s. handle H req v hs s \<noteq> None"
    and "\<And>rd w req rd1 w1 wr ok s2 v hs hs' rd3 wr3 w3.
      request_new Y addr (rd, w) = Some (Inr req, rd1, w1) \<Longrightarrow>
      handle_expect Y H wa req (wr, w1) = Some (ok, s2) \<Longrightarrow>
      handle H req v hs (rd1, s2) = Some (hs', rd3, wr3, w3) \<Longrightarrow> left rd3 w3 < (left rd w :: nat)"
  shows "\<exists>r. keep_alive_loop Y H wa addr True s = Some r"
proof (rule kl.loop_terminates [where I = "\<lambda>_. True" and m = "\<lambda>(rd, wr, w). left rd w"])
  have returns: "request_new Y addr (rd, w) = None \<longleftrightarrow> False"
    "handle_expect Y H wa req s = None \<longleftrightarrow> False" "handle H req v hs t = None \<longleftrightarrow> False"
    for rd w req s v hs t
    using assms(1-3) by metis+
  show "keep_alive_body Y H wa addr s \<noteq> None" for s
    by (auto simp: keep_alive_body_def keep_alive_round_def Let_def returns
        split: option.splits outcome.splits sum.splits prod.splits if_splits)
  show "True \<and> (case s' of (rd, wr, w) \<Rightarrow> left rd w) < (case s of (rd, wr, w) \<Rightarrow> left rd w)"
    if "keep_alive_body Y H wa addr s = Some (Inl s')" for s s'
    using that assms(4)
    by (cases s; cases s')
      (auto simp: keep_alive_body_def keep_alive_round_def Let_def
        split: option.splits outcome.splits sum.splits prod.splits if_splits)
qed simp

text \<open>A writer with unlimited room.\<close>

abbreviation room :: "byte list \<Rightarrow> byte list \<times> 'w \<Rightarrow> (unit io_result \<times> byte list \<times> 'w) option" where
  "room \<equiv> \<lambda>p (b, w). Some (Inr (), b @ p, w)"

lemma keep_alive_terminates_witness:
  "\<exists>r. keep_alive_loop demo_hyper demo_handler room (V4 0 0) True
     ((), [], [demo_request 5 True False, demo_request 6 False False], []) = Some r"
  by (rule keep_alive_terminates [where left = "\<lambda>rd w. length (fst w)"])
    (auto simp: demo_http_defs handle_expect_def continue_line_def split: list.splits if_splits)

section \<open>Expect: 100-continue\<close>

text \<open>C39. The status line that answers \<open>Expect: 100-continue\<close> is only put into the buffer of the
  \<open>BufWriter\<close>, when it has room: the handler, which reads the body the client is waiting to
  send, runs before a byte of it has been written to the stream.\<close>

theorem continue_not_sent:
  assumes "request_new Y addr (rd, w) = Some (Inr req, rd1, w1)"
    and "rq_version req = http11 Y" and "expects_continue Y (rq_headers req)"
    and "check_continue H (rq_method req, rq_uri req, rq_headers req) w1 =
      Some (Returned (status_continue Y), w2)"
    and "length b + length (concat (continue_line Y (status_continue Y))) \<le> cap"
    and "length (concat (continue_line Y (status_continue Y))) < cap" and "cap < 2 ^ 64"
    and "handle H req (http11 Y)
      (if should_keep_alive Y (http11 Y) (rq_headers req) then headers_new Y
       else set_connection_close Y (headers_new Y))
      (rd1, b @ concat (continue_line Y (status_continue Y)), w2) = None"
  shows "keep_alive_loop Y H (write_all (buf_write cap wr)) addr True (rd, b, w) = None"
proof -
  have "handle_expect Y H (write_all (buf_write cap wr)) req (b, w1) =
      Some (Returned True, b @ concat (continue_line Y (status_continue Y)), w2)"
    using assms(2-7) by (simp add: handle_expect_def write_pieces_room)
  then show ?thesis
    using assms(1,2,8)
    by (cases "should_keep_alive Y (http11 Y) (rq_headers req)")
      (simp_all add: keep_alive_loop_body [of _ _ _ _ "(rd, b, w)"] keep_alive_body_def
        keep_alive_round_def Let_def)
qed

text \<open>A handler that reads the body, which the client sends once it has seen a byte of the answer.\<close>

definition body_handler ::
  "(demo_world, unit, byte list, unit, nat, bool \<times> bool, bool, nat) handler" where
  "body_handler = demo_handler\<lparr>handle := \<lambda>req v h (rd, b, w).
     if snd w = [] then None else handle demo_handler req v h (rd, b, w)\<rparr>"

theorem continue_not_sent_witness:
  "keep_alive_loop demo_hyper body_handler (write_all (buf_write 100 demo_write)) (V4 0 0) True
     ((), [], [demo_request 5 True False], []) = None"
  by (rule continue_not_sent [where req = "demo_request 5 True False" and ?rd1.0 = "()"
        and ?w1.0 = "([], [])" and ?w2.0 = "([], [])"])
    (simp_all add: demo_http_defs body_handler_def continue_line_def str_bytes_def)

section \<open>The acceptor\<close>

text \<open>The acceptor spawns one worker per accepted connection, in the order of acceptance, and
  the first failing accept ends it for good: it never accepts a connection again, while
  \<open>listen\<close> has long returned its address.\<close>

lemma acceptor_until_error:
  "(acceptor_loop acc spawn l n w = (ss, Accepting, w') \<longrightarrow> length ss = n) \<and>
   (acceptor_loop acc spawn l n w = (ss, Dead p, w') \<longrightarrow>
     (\<forall>k. acceptor_loop acc spawn l (n + k) w = (ss, Dead p, w')) \<and> length ss < n \<and>
     (\<exists>e w1. acceptor_loop acc spawn l (length ss) w = (ss, Accepting, w1) \<and>
       acc l w1 = Some (Inl e, w') \<and> p = Unwrap_Failed e))"
proof (induction n arbitrary: w ss)
  case (Suc n)
  show ?case
  proof (cases "acc l w")
    case None
    then show ?thesis by simp
  next
    case (Some x)
    obtain r w1 where x: "x = (r, w1)" by fastforce
    show ?thesis
    proof (cases r)
      case (Inl e)
      then show ?thesis using Some x by (auto simp: unwrap_def)
    next
      case (Inr s)
      obtain ss1 st w2 where rest: "acceptor_loop acc spawn l n (spawn s w1) = (ss1, st, w2)"
        by (metis prod_cases3)
      show ?thesis
        using Suc.IH [of "spawn s w1" ss1] Some x Inr rest by (auto simp: unwrap_def)
    qed
  qed
qed simp

definition count_accept :: "nat \<Rightarrow> nat \<Rightarrow> (nat hyper_result \<times> nat) option" where
  "count_accept l w = Some (if w = 0 then Inl (Hyper_Io demo_closed) else Inr w, w)"

lemma acceptor_until_error_witness:
  "acceptor_loop count_accept (\<lambda>s w. w - 1) 0 (5 + 100) 2 =
     ([2, 1], Dead (Unwrap_Failed (Hyper_Io demo_closed)), 0)"
proof -
  have "acceptor_loop count_accept (\<lambda>s w. w - 1) 0 5 2 =
      ([2, 1], Dead (Unwrap_Failed (Hyper_Io demo_closed)), 0)"
    by (simp add: count_accept_def unwrap_def eval_nat_numeral)
  then show ?thesis
    using acceptor_until_error [of count_accept "\<lambda>s w. w - 1" 0 5 2 "[2, 1]" 0
        "Unwrap_Failed (Hyper_Io demo_closed)"] by blast
qed

section \<open>HTTPS\<close>

text \<open>The rounds of the acceptor after some that each accepted a connection.\<close>

lemma acceptor_loop_add:
  "acceptor_loop acc spawn l k w = (ss, Accepting, wk) \<Longrightarrow>
   acceptor_loop acc spawn l (k + n) w =
     (case acceptor_loop acc spawn l n wk of (ss', st, w') \<Rightarrow> (ss @ ss', st, w'))"
proof (induction k arbitrary: w ss)
  case (Suc k)
  then show ?case
    by (auto split: option.splits prod.splits outcome.splits)
qed simp

text \<open>C40. One bad TLS client ends an HTTPS server, however many connections it has served: the
  handshake happens inside \<open>accept\<close>, whose error the acceptor unwraps. When the handshake of
  the next client fails, the acceptor is dead; while it does not end, the acceptor is stuck;
  in either case the server never accepts another connection.\<close>

theorem bad_tls_client_ends_server:
  assumes "acceptor_loop (nl_accept (https_network_listener M wait la)) spawn l k w = (ss, Accepting, wk)"
    and "http_accept M wait (hl_listener l) wk = Some (Inr s, w1)"
    and "hl_ssl l = openssl_ssl L ssl"
    and "stream_new_server L (os_context ssl) s w1 = r" and "\<forall>t v. r \<noteq> Some (Inr t, v)"
  shows "\<exists>st w2. st \<noteq> Accepting \<and> (st = Stuck \<longleftrightarrow> r = None) \<and>
    (\<forall>n>k. acceptor_loop (nl_accept (https_network_listener M wait la)) spawn l n w = (ss, st, w2))"
proof -
  let ?loop = "acceptor_loop (nl_accept (https_network_listener M wait la)) spawn l"
  have "\<exists>st w2. st \<noteq> Accepting \<and> (st = Stuck \<longleftrightarrow> r = None) \<and>
      (\<forall>n. ?loop (Suc n) wk = ([], st, w2))"
  proof (cases r)
    case None
    then show ?thesis
      using assms(2-4) by (simp add: https_network_listener_def https_accept_def openssl_ssl_def
          openssl_wrap_server_def)
  next
    case (Some x)
    then obtain e w2 where "r = Some (Inl e, w2)" using assms(5) by (cases x; cases "fst x") auto
    then show ?thesis
      using assms(2-4) by (cases e) (simp_all add: https_network_listener_def https_accept_def
          openssl_ssl_def openssl_wrap_server_def unwrap_def)
  qed
  then obtain st w2 where st: "st \<noteq> Accepting" "st = Stuck \<longleftrightarrow> r = None"
    and loop: "\<And>n. ?loop (Suc n) wk = ([], st, w2)" by blast
  have "?loop n w = (ss, st, w2)" if "n > k" for n
  proof -
    have "\<exists>j. n = k + Suc j" using less_imp_Suc_add [OF that] by simp
    then obtain j where "n = k + Suc j" by blast
    then show ?thesis using acceptor_loop_add [OF assms(1), of "Suc j"] loop by simp
  qed
  then show ?thesis using st by blast
qed

text \<open>A TLS library whose handshake fails on stream 7, never ends on stream 8, and succeeds on
  others.\<close>

definition demo_ssl :: "(int, int, nat, nat, int) openssl_lib" where
  "demo_ssl = \<lparr>
     ctx_new = (\<lambda>w. (Inr 0, w)), set_cipher_list = (\<lambda>c s w. (Inr (), w)),
     set_certificate_file = (\<lambda>c s w. (Inr (), w)), set_private_key_file = (\<lambda>c s w. (Inr (), w)),
     set_verify_none = (\<lambda>c w. w), con_new = (\<lambda>c w. (Inr 0, w)),
     set_hostname = (\<lambda>c s w. (Inr (), w)),
     stream_new_from = (\<lambda>c s w. Some (Inr 9, w)),
     stream_new_server = (\<lambda>c s w.
       if s = HttpStream (TcpStream 7) then Some (Inl (Ssl_Error ''bad record''), w)
       else if s = HttpStream (TcpStream 8) then None else Some (Inr 9, w))\<rparr>"

definition demo_openssl :: "nat openssl" where
  "demo_openssl = \<lparr>os_context = 0\<rparr>"

definition demo_listener :: "(nat, (int, int, int) ssl) https_listener" where
  "demo_listener = \<lparr>hl_listener = HttpListener (TcpListener 1),
     hl_ssl = openssl_ssl demo_ssl demo_openssl\<rparr>"

lemmas demo_ssl_defs = demo_ssl_def demo_openssl_def demo_listener_def

text \<open>Every second connection is stream 7 or 8.\<close>

definition bad_mio :: "int \<Rightarrow> demo_mio" where
  "bad_mio b = demo_mio\<lparr>lst_accept := \<lambda>l w. (Inr (Some (if even w then 5 else b)), w)\<rparr>"

theorem bad_tls_client_ends_server_witness:
  "\<exists>st w2. st \<noteq> Accepting \<and> st \<noteq> Stuck \<and> (\<forall>n>1. acceptor_loop
     (nl_accept (https_network_listener (bad_mio 7) demo_wait (\<lambda>l w. (Inr (V4 1 2), w))))
     (\<lambda>s w. w + 1) demo_listener n 0 = ([9], st, w2))"
  using bad_tls_client_ends_server [of "bad_mio 7" demo_wait "\<lambda>l w. (Inr (V4 1 2), w)" "\<lambda>s w. w + 1" demo_listener 1 0
      "[9]" 1 "HttpStream (TcpStream 7)" 1 demo_ssl demo_openssl "Some (Inl (Ssl_Error ''bad record''), 1)"]
  by (simp add: demo_ssl_defs bad_mio_def demo_mio_def accept_def https_network_listener_def
      https_accept_def openssl_ssl_def openssl_wrap_server_def unwrap_def)

text \<open>The HTTPS connector never falls back to plain text: it makes a plain stream only for
  the scheme \<open>http\<close>, a TLS stream only for \<open>https\<close>, and for any other scheme it fails
  without touching the network.\<close>

lemma connector_scheme:
  "(https_connector_connect M wait resolve self host port scheme w = Some (Inr (Http s), v) \<longrightarrow>
      scheme = ''http'') \<and>
   (https_connector_connect M wait resolve self host port scheme w = Some (Inr (Https t), v) \<longrightarrow>
      scheme = ''https'' \<and> (\<exists>s w1. tcp_connect M wait (resolve host port) w = (Inr s, w1) \<and>
        wrap_client (hc_ssl self) (HttpStream s) host w1 = Some (Inr t, v))) \<and>
   (scheme \<noteq> ''http'' \<and> scheme \<noteq> ''https'' \<longrightarrow>
      https_connector_connect M wait resolve self host port scheme w =
        Some (Inl (Hyper_Io (Io_Error InvalidInput ''Invalid scheme for Http'')), w))"
  by (auto simp: https_connector_connect_def http_connector_connect_def Let_def map_sum_eq_Inr
      split: prod.splits sum.splits option.splits if_splits)

lemma connector_scheme_witness:
  "https_connector_connect demo_mio demo_wait (\<lambda>h p w. (Inr [V4 1 80], w))
     (https_connector_new (openssl_ssl demo_ssl demo_openssl)) ''h'' 80 ''ftp'' 0 =
   Some (Inl (Hyper_Io (Io_Error InvalidInput ''Invalid scheme for Http'')), 0)"
  using connector_scheme [of demo_mio demo_wait "\<lambda>h p w. (Inr [V4 1 80], w)"
      "https_connector_new (openssl_ssl demo_ssl demo_openssl)" "''h''" 80 "''ftp''" 0] by simp

section \<open>Responses in order\<close>

text \<open>
  \<open>incoming\<close> is what there is still to read from a connection: requests with their bodies;
  \<open>body\<close> is what there is to read of the body of the request just taken. \<open>replies req d v hs r\<close> says
  that \<open>r\<close> is a reply the handler may write to \<open>req\<close> with the body \<open>d\<close> when it is given the version \<open>v\<close>
  and the response headers \<open>hs\<close>; there may be several, as when it writes the date.

  \<open>answering\<close>: reading a request takes the next one and leaves its body; a handler that returns
  has read the body and written one of its replies to the writer; and nothing else is read or
  written, neither by them nor by the check of an expectation, whatever its status. Writing does
  not change what there is to read.
\<close>

definition answering ::
  "('w, 's, 'rd, 'm, 'u, 'h, 'v, 'st) hyper \<Rightarrow>
   ('w, 'rd, byte list, 'm, 'u, 'h, 'v, 'st) handler \<Rightarrow> 'w writing \<Rightarrow> ('w \<Rightarrow> byte list) \<Rightarrow>
   ('rd \<Rightarrow> 'w \<Rightarrow> (('m, 'u, 'h, 'v) request \<times> byte list) list) \<Rightarrow> ('rd \<Rightarrow> 'w \<Rightarrow> byte list) \<Rightarrow>
   (('m, 'u, 'h, 'v) request \<Rightarrow> byte list \<Rightarrow> 'v \<Rightarrow> 'h \<Rightarrow> byte list \<Rightarrow> bool) \<Rightarrow> bool" where
  "answering Y H wr out incoming body replies \<longleftrightarrow>
    (\<forall>addr rd w req rd' w'. request_new Y addr (rd, w) = Some (Inr req, rd', w') \<longrightarrow>
      incoming rd w = (req, body rd' w') # incoming rd' w' \<and> out w' = out w) \<and>
    (\<forall>addr rd w e rd' w'. request_new Y addr (rd, w) = Some (Inl e, rd', w') \<longrightarrow> out w' = out w) \<and>
    (\<forall>x w r w'. check_continue H x w = Some (r, w') \<longrightarrow> out w' = out w \<and>
      (\<forall>rd. incoming rd w' = incoming rd w \<and> body rd w' = body rd w)) \<and>
    (\<forall>req v hs rd b w hs' rd' b' w'.
      handle H req v hs (rd, b, w) = Some (Returned hs', rd', b', w') \<longrightarrow>
      incoming rd' w' = incoming rd w \<and>
      (\<exists>r. replies req (body rd w) v hs r \<and> out w' @ b' = out w @ b @ r)) \<and>
    (\<forall>rd is d. preserves (\<lambda>w. incoming rd w = is \<and> body rd w = d) wr)"

text \<open>
  What a request gets: the line \<open>100 Continue\<close> if it expects one, and a reply for its version
  and the response headers the server made for it.
\<close>

definition expecting ::
  "('w, 's, 'rd, 'm, 'u, 'h, 'v, 'st) hyper \<Rightarrow> ('m, 'u, 'h, 'v) request \<Rightarrow> bool" where
  "expecting Y req \<longleftrightarrow> rq_version req = http11 Y \<and> expects_continue Y (rq_headers req)"

definition answer ::
  "('w, 's, 'rd, 'm, 'u, 'h, 'v, 'st) hyper \<Rightarrow>
   (('m, 'u, 'h, 'v) request \<Rightarrow> byte list \<Rightarrow> 'v \<Rightarrow> 'h \<Rightarrow> byte list \<Rightarrow> bool) \<Rightarrow>
   ('m, 'u, 'h, 'v) request \<times> byte list \<Rightarrow> byte list \<Rightarrow> bool" where
  "answer Y replies x a \<longleftrightarrow> (case x of (req, d) \<Rightarrow>
    (\<exists>r. replies req d (rq_version req)
        (if should_keep_alive Y (rq_version req) (rq_headers req) then headers_new Y
         else set_connection_close Y (headers_new Y)) r \<and>
      a = (if expecting Y req then concat (continue_line Y (status_continue Y)) else []) @ r))"

text \<open>
  What a connection may send after its last reply: the status line that refuses the expectation
  of the next request, or that could not be written completely.
\<close>

definition last_line ::
  "('w, 's, 'rd, 'm, 'u, 'h, 'v, 'st) hyper \<Rightarrow> (('m, 'u, 'h, 'v) request \<times> byte list) list \<Rightarrow>
   byte list \<Rightarrow> bool" where
  "last_line Y is l \<longleftrightarrow> l = [] \<or>
    (\<exists>req d rest st. is = (req, d) # rest \<and> expecting Y req \<and> l = concat (continue_line Y st))"

lemma answeringD:
  assumes "answering Y H wr out incoming body replies"
  shows "request_new Y addr (rd, w) = Some (Inr req, rd', w') \<Longrightarrow>
      incoming rd w = (req, body rd' w') # incoming rd' w' \<and> out w' = out w"
    and "request_new Y addr (rd, w) = Some (Inl e, rd', w') \<Longrightarrow> out w' = out w"
    and "check_continue H x w = Some (r, w') \<Longrightarrow> out w' = out w \<and>
      incoming rd w' = incoming rd w \<and> body rd w' = body rd w"
    and "handle H req v hs (rd, b, w) = Some (Returned hs', rd', b', w') \<Longrightarrow>
      incoming rd' w' = incoming rd w \<and> (\<exists>r. replies req (body rd w) v hs r \<and> out w' @ b' = out w @ b @ r)"
    and "preserves (\<lambda>w. incoming rd w = is \<and> body rd w = d) wr"
proof -
  note a = assms [unfolded answering_def]
  show "request_new Y addr (rd, w) = Some (Inr req, rd', w') \<Longrightarrow>
      incoming rd w = (req, body rd' w') # incoming rd' w' \<and> out w' = out w"
    using a [THEN conjunct1] by blast
  show "request_new Y addr (rd, w) = Some (Inl e, rd', w') \<Longrightarrow> out w' = out w"
    using a [THEN conjunct2, THEN conjunct1] by blast
  show "check_continue H x w = Some (r, w') \<Longrightarrow> out w' = out w \<and>
      incoming rd w' = incoming rd w \<and> body rd w' = body rd w"
    using a [THEN conjunct2, THEN conjunct2, THEN conjunct1] by blast
  show "handle H req v hs (rd, b, w) = Some (Returned hs', rd', b', w') \<Longrightarrow>
      incoming rd' w' = incoming rd w \<and> (\<exists>r. replies req (body rd w) v hs r \<and> out w' @ b' = out w @ b @ r)"
    using a [THEN conjunct2, THEN conjunct2, THEN conjunct2, THEN conjunct1] by blast
  show "preserves (\<lambda>w. incoming rd w = is \<and> body rd w = d) wr"
    using a by blast
qed

lemma answering_expect:
  assumes "answering Y H wr out incoming body replies" and "delivers out wr" and "cap < 2 ^ 64"
    and "handle_expect Y H (write_all (buf_write cap wr)) req (b, w) = Some (r, b', w')"
  shows "incoming rd w' = incoming rd w \<and> body rd w' = body rd w \<and>
    (r = Returned True \<longrightarrow> out w' @ b' = out w @ b @
      (if expecting Y req then concat (continue_line Y (status_continue Y)) else [])) \<and>
    (r = Returned False \<longrightarrow> expecting Y req \<and>
      (\<exists>st q. out w @ b @ concat (continue_line Y st) = out w' @ b' @ q))"
proof (cases "expecting Y req")
  case False
  then have "r = Returned True" "b' = b" "w' = w"
    using assms(4) unfolding handle_expect_def expecting_def if_not_P [OF False [unfolded expecting_def]]
    by simp_all
  then show ?thesis using False by simp
next
  case True
  note e = True [unfolded expecting_def]
  obtain x w1 where check: "check_continue H (rq_method req, rq_uri req, rq_headers req) w =
      Some (x, w1)"
    using assms(4) e by (auto simp: handle_expect_def split: option.splits)
  then have w1: "out w1 = out w" "incoming rd w1 = incoming rd w \<and> body rd w1 = body rd w"
    using answeringD(3) [OF assms(1) check] by simp_all
  show ?thesis
  proof (cases x)
    case (Panicked p)
    then show ?thesis using assms(4) e check w1 by (auto simp: handle_expect_def)
  next
    case (Returned st)
    let ?ps = "continue_line Y st"
    obtain r1 where wrote: "write_pieces (write_all (buf_write cap wr)) ?ps (b, w1) =
        Some (r1, b', w')" and r: "r = Returned (r1 = Inr () \<and> st = status_continue Y)"
      using assms(4) e check Returned
      by (auto simp: handle_expect_def split: option.splits sum.splits if_splits)
    have "preserves (\<lambda>w. incoming rd w = incoming rd w1 \<and> body rd w = body rd w1) wr"
      by (rule answeringD(5) [OF assms(1)])
    from write_pieces_preserves [OF buf_write_preserves [OF this] wrote]
    have "incoming rd w' = incoming rd w" "body rd w' = body rd w" using w1 by simp_all
    moreover obtain q where "out w1 @ b @ concat ?ps = out w' @ b' @ q" "r1 = Inr () \<longrightarrow> q = []"
      using write_pieces_delivers [OF buf_write_delivers [OF assms(2,3)] wrote]
      by (auto simp: buffered_out_def)
    ultimately show ?thesis using True w1 r by auto
  qed
qed

lemma answering_round:
  assumes ans: "answering Y H wr out incoming body replies" and wr: "delivers out wr" "cap < 2 ^ 64"
    and round: "keep_alive_round Y H (write_all (buf_write cap wr)) addr (rd, b, w) =
      Some (r, rd', b', w')"
  shows "(\<forall>ka. r = Returned (Some ka) \<longrightarrow> (\<exists>x a. incoming rd w = x # incoming rd' w' \<and>
      answer Y replies x a \<and> out w' @ b' = out w @ b @ a)) \<and>
    (r = Returned None \<longrightarrow> (\<exists>l q. last_line Y (incoming rd w) l \<and> out w @ b @ l = out w' @ b' @ q))"
proof -
  obtain x rd1 w1 where req: "request_new Y addr (rd, w) = Some (x, rd1, w1)"
    using round by (auto simp: keep_alive_round_def split: option.splits)
  show ?thesis
  proof (cases x)
    case (Inl e)
    then have "out w1 = out w" using answeringD(2) [OF ans] req by blast
    then have "r = Returned None" "last_line Y (incoming rd w) []" "out w @ b @ [] = out w' @ b' @ []"
      using round req Inl by (simp_all add: keep_alive_round_def last_line_def)
    then show ?thesis by blast
  next
    case (Inr rq)
    then have got: "incoming rd w = (rq, body rd1 w1) # incoming rd1 w1" "out w1 = out w"
      using answeringD(1) [OF ans] req by blast+
    obtain y b2 w2 where ex: "handle_expect Y H (write_all (buf_write cap wr)) rq (b, w1) =
        Some (y, b2, w2)"
      using round req Inr by (auto simp: keep_alive_round_def split: option.splits)
    note expect = answering_expect [OF ans wr ex, of rd1]
    consider p where "y = Panicked p" | "y = Returned False" | "y = Returned True"
      by (cases y) auto
    then show ?thesis
    proof cases
      case 1
      then show ?thesis using round req Inr ex by (auto simp: keep_alive_round_def)
    next
      case 2
      then have "r = Returned None" "rd' = rd1" "b' = b2" "w' = w2"
        using round req Inr ex by (auto simp: keep_alive_round_def)
      moreover obtain st q where "out w @ b @ concat (continue_line Y st) = out w2 @ b2 @ q"
        using expect 2 got by auto
      ultimately show ?thesis using expect 2 got unfolding last_line_def by blast
    next
      case 3
      let ?hs = "if \<not> should_keep_alive Y (rq_version rq) (rq_headers rq)
        then set_connection_close Y (headers_new Y) else headers_new Y"
      obtain hs' where h: "handle H rq (rq_version rq) ?hs (rd1, b2, w2) = Some (hs', rd', b', w')"
        and r: "r \<noteq> Returned None" "\<forall>ka. r = Returned (Some ka) \<longrightarrow> (\<exists>hs. hs' = Returned hs)"
      proof -
        let ?ka = "should_keep_alive Y (rq_version rq) (rq_headers rq)"
        have "(case handle H rq (rq_version rq) ?hs (rd1, b2, w2) of
            None \<Rightarrow> None
          | Some (Panicked p, s3) \<Rightarrow> Some (Panicked p, s3)
          | Some (Returned hs, s3) \<Rightarrow>
              Some (Returned (Some (if ?ka then should_keep_alive Y (rq_version rq) hs else ?ka)), s3)) =
          Some (r, rd', b', w')"
          using round req Inr ex 3 by (simp add: keep_alive_round_def Let_def del: if_not_P split del: if_split)
        then show ?thesis
          using that by (auto split: option.splits outcome.splits prod.splits split del: if_split)
      qed
      have "\<exists>x a. incoming rd w = x # incoming rd' w' \<and> answer Y replies x a \<and> out w' @ b' = out w @ b @ a"
        if "hs' = Returned hs2" for hs2
      proof -
        have in': "incoming rd' w' = incoming rd1 w2"
          and "\<exists>a. replies rq (body rd1 w2) (rq_version rq) ?hs a \<and> out w' @ b' = out w2 @ b2 @ a"
          using answeringD(4) [OF ans] h that by blast+
        then obtain a where a: "replies rq (body rd1 w2) (rq_version rq) ?hs a"
          "out w' @ b' = out w2 @ b2 @ a" by blast
        let ?a = "(if expecting Y rq then concat (continue_line Y (status_continue Y)) else []) @ a"
        have "answer Y replies (rq, body rd1 w1) ?a" using a(1) expect by (auto simp: answer_def)
        moreover have "out w' @ b' = out w @ b @ ?a"
          using a(2) expect 3 got(2) by (metis append_assoc)
        ultimately show ?thesis using got(1) in' expect by auto
      qed
      then show ?thesis using r by auto
    qed
  qed
qed

lemma answering_iterate:
  assumes ans: "answering Y H wr out incoming body replies" and wr: "delivers out wr" "cap < 2 ^ 64"
    and "iterate (keep_alive_body Y H (write_all (buf_write cap wr)) addr) n (rd, b, w) =
      Some (rd', b', w')"
  shows "n \<le> length (incoming rd w) \<and> incoming rd' w' = drop n (incoming rd w) \<and>
    (\<exists>as. list_all2 (answer Y replies) (take n (incoming rd w)) as \<and> out w' @ b' = out w @ b @ concat as)"
  using assms(4)
proof (induction n arbitrary: rd b w)
  case (Suc n)
  obtain rd1 b1 w1 where one: "keep_alive_body Y H (write_all (buf_write cap wr)) addr (rd, b, w) =
      Some (Inl (rd1, b1, w1))"
    and rest: "iterate (keep_alive_body Y H (write_all (buf_write cap wr)) addr) n (rd1, b1, w1) =
      Some (rd', b', w')"
    using Suc.prems by (auto split: option.splits sum.splits)
  then obtain ka where round: "keep_alive_round Y H (write_all (buf_write cap wr)) addr
      (rd, b, w) = Some (Returned (Some ka), rd1, b1, w1)"
    by (auto simp: keep_alive_body_def split: option.splits outcome.splits if_splits)
  obtain x a where req: "incoming rd w = x # incoming rd1 w1" "answer Y replies x a"
    "out w1 @ b1 = out w @ b @ a"
    using answering_round [OF ans wr round] by blast
  obtain as where "list_all2 (answer Y replies) (take n (incoming rd1 w1)) as"
    "out w' @ b' = (out w1 @ b1) @ concat as"
    using Suc.IH [OF rest] by auto
  then have "list_all2 (answer Y replies) (take (Suc n) (incoming rd w)) (a # as) \<and>
      out w' @ b' = out w @ b @ concat (a # as)"
    using req by simp
  then show ?case using Suc.IH [OF rest] req(1) by auto
qed simp

text \<open>C38. Responses leave in the order of the requests. After \<open>n\<close> rounds exactly \<open>n\<close> requests have
  been taken, and what has been sent or waits in the buffer are \<open>n\<close> answers, one to each request
  in order, each a reply the handler may write for that request with its body, its version and
  the response headers made for it. What a connection has sent when it ends, whatever failed, is
  a prefix of such answers to its first \<open>n\<close> requests, followed by nothing or by the status line
  for the expectation of the next one: no answer is repeated, skipped or mixed with another.\<close>

theorem responses_in_order:
  assumes ans: "answering Y H (ns_write N stream) out incoming body replies"
    and wr: "delivers out (ns_write N stream)" "cap < 2 ^ 64"
    and start: "ns_peer_addr N stream w = (Inr addr, w1)" "clone stream w1 = (Returned c, w2)"
    and inc: "incoming (reader_new Y c) w2 = is"
  shows "(iterate (keep_alive_body Y H (write_all (buf_write cap (ns_write N stream))) addr) n
        (reader_new Y c, [], w2) = Some (rd', b', w') \<longrightarrow>
      n \<le> length is \<and> incoming rd' w' = drop n is \<and>
      (\<exists>as. list_all2 (answer Y replies) (take n is) as \<and> out w' @ b' = out w2 @ concat as)) \<and>
    (handle_connection Y H N clone cap stream w = Some (Returned (), w3) \<longrightarrow>
      (\<exists>n\<le>length is. \<exists>as l. list_all2 (answer Y replies) (take n is) as \<and> last_line Y (drop n is) l \<and>
        prefix (out w3) (out w2 @ concat as @ l)))"
proof (rule conjI; rule impI)
  let ?wa = "write_all (buf_write cap (ns_write N stream))"
  assume "iterate (keep_alive_body Y H ?wa addr) n (reader_new Y c, [], w2) = Some (rd', b', w')"
  then show "n \<le> length is \<and> incoming rd' w' = drop n is \<and>
      (\<exists>as. list_all2 (answer Y replies) (take n is) as \<and> out w' @ b' = out w2 @ concat as)"
    using answering_iterate [OF ans wr] inc by fastforce
next
  let ?wa = "write_all (buf_write cap (ns_write N stream))"
  assume "handle_connection Y H N clone cap stream w = Some (Returned (), w3)"
  then obtain rd b v where loop: "keep_alive_loop Y H ?wa addr True (reader_new Y c, [], w2) =
      Some (Returned (), rd, b, v)" and drop: "bufwriter_drop (ns_write N stream) (b, v) = Some w3"
    using start by (auto simp: handle_connection_def split: option.splits)
  then obtain n rd1 b1 v1 where it: "iterate (keep_alive_body Y H ?wa addr) n
      (reader_new Y c, [], w2) = Some (rd1, b1, v1)"
    and last: "keep_alive_body Y H ?wa addr (rd1, b1, v1) = Some (Inr (Returned (), rd, b, v))"
    by (auto simp: kl.loop_iterate)
  obtain as where n: "n \<le> length is" "incoming rd1 v1 = List.drop n is"
    and as: "list_all2 (answer Y replies) (take n is) as" "out v1 @ b1 = out w2 @ concat as"
    using answering_iterate [OF ans wr it] inc by auto
  obtain r where round: "keep_alive_round Y H ?wa addr (rd1, b1, v1) = Some (Returned r, rd, b, v)"
    using last by (auto simp: keep_alive_body_def split: option.splits outcome.splits if_splits)
  obtain fr b' where "flush_buf (ns_write N stream) (b, v) = Some (fr, b', w3)"
    using drop by (auto simp: bufwriter_drop_def split: option.splits)
  from flush_buf_delivers [OF wr(1) this] have fl: "out v @ b = out w3 @ b'" by simp
  show "\<exists>n\<le>length is. \<exists>as l. list_all2 (answer Y replies) (take n is) as \<and> last_line Y (List.drop n is) l \<and>
        prefix (out w3) (out w2 @ concat as @ l)"
  proof (cases r)
    case None
    then obtain l q where "last_line Y (List.drop n is) l" "out v1 @ b1 @ l = out v @ b @ q"
      using answering_round [OF ans wr round] n(2) by auto
    then have "out w2 @ concat as @ l = out w3 @ b' @ q" using as(2) fl by (metis append_assoc)
    then show ?thesis using n(1) as(1) \<open>last_line Y _ l\<close> by (metis prefixI)
  next
    case (Some ka)
    then obtain x a where x: "List.drop n is = x # incoming rd v" "answer Y replies x a"
      and o: "out v @ b = out v1 @ b1 @ a"
      using answering_round [OF ans wr round] n(2) by auto
    have len: "Suc n \<le> length is" using x(1) by (metis Suc_leI drop_eq_Nil2 linorder_not_le list.distinct(1))
    then have "take (Suc n) is = take n is @ [x]"
      using x(1) by (metis Suc_le_eq nth_via_drop take_Suc_conv_app_nth)
    then have "list_all2 (answer Y replies) (take (Suc n) is) (as @ [a])"
      using as(1) x(2) by (simp add: list_all2_appendI)
    moreover have "out w2 @ concat (as @ [a]) @ [] = out w3 @ b'"
      using as(2) fl o by (metis append_assoc append_Nil2 concat_append concat.simps)
    moreover have "last_line Y (List.drop (Suc n) is) []" by (simp add: last_line_def)
    ultimately show ?thesis using len by (metis prefixI)
  qed
qed

lemma demo_write_delivers: "delivers snd demo_write"
proof -
  have "unat (of_nat (min (length p) 8) :: usize) = min (length p) 8" for p :: "byte list"
  proof -
    have "min (length p) 8 < 2 ^ 64" by (rule le_less_trans [of _ 8]) simp_all
    then show ?thesis by (simp add: unat_of_nat take_bit_nat_eq_self)
  qed
  moreover have "take 8 p = take (min (length p) 8) p" for p :: "byte list"
    by (simp add: min_def)
  ultimately show ?thesis by (auto simp: delivers_def demo_write_def)
qed

definition demo_stream :: "(demo_world, nat) network_stream" where
  "demo_stream = \<lparr>ns_read = (\<lambda>s bw. None), ns_write = (\<lambda>s. demo_write),
     ns_flush = (\<lambda>s w. Some (Inr (), w)), ns_peer_addr = (\<lambda>s w. (Inr (V4 0 0), w)),
     ns_close = (\<lambda>s how w. (Inr (), w))\<rparr>"

text \<open>
  A handler that writes its response headers, here whether they close the connection, and that
  refuses the expectation of the URI 9.
\<close>

definition header_handler ::
  "(demo_world, unit, byte list, unit, nat, bool \<times> bool, bool, nat) handler" where
  "header_handler = \<lparr>
     check_continue = (\<lambda>(m, u, h) w. Some (Returned (if u = 9 then 17 else 100), w)),
     handle = (\<lambda>req v h (rd, b, w).
       Some (Returned h, rd, b @ [of_nat (rq_uri req), of_bool (snd h)], w))\<rparr>"

definition header_replies ::
  "demo_req \<Rightarrow> byte list \<Rightarrow> bool \<Rightarrow> bool \<times> bool \<Rightarrow> byte list \<Rightarrow> bool" where
  "header_replies req d v h r \<longleftrightarrow> r = [of_nat (rq_uri req), of_bool (snd h)]"

abbreviation bodiless :: "unit \<Rightarrow> demo_world \<Rightarrow> (demo_req \<times> byte list) list" where
  "bodiless rd w \<equiv> map (\<lambda>r. (r, [])) (fst w)"

lemma header_answering:
  "answering demo_hyper header_handler demo_write snd bodiless (\<lambda>rd w. []) header_replies"
  by (auto simp: answering_def demo_http_defs header_handler_def header_replies_def preserves_def
      demo_write_def split: list.splits)

text \<open>
  The answer of 5, with its continuation line, that of 6, whose headers close the connection,
  and nothing of 7; and the answer of 5 with the line that refuses 9.
\<close>

lemma header_connection:
  "handle_connection demo_hyper header_handler demo_stream (\<lambda>s w. (Returned s, w)) 100 1
     ([demo_request 5 True False, demo_request 6 False True, demo_request 7 False False], []) =
   Some (Returned (), [demo_request 7 False False],
     [0x31, 0x20, 100, 0x0D, 0x0A, 0x0D, 0x0A, 5, 0, 6, 1])"
  "handle_connection demo_hyper header_handler demo_stream (\<lambda>s w. (Returned s, w)) 100 1
     ([demo_request 5 False False, demo_request 9 True False], []) =
   Some (Returned (), [], [5, 0, 0x31, 0x20, 17, 0x0D, 0x0A, 0x0D, 0x0A])"
proof -
  have drop_all:
    "flush_buf demo_write ([0x31, 0x20, 100, 0x0D, 0x0A, 0x0D, 0x0A, 5, 0, 6, 1], rs, []) =
      Some (Inr (), [], rs, [0x31, 0x20, 100, 0x0D, 0x0A, 0x0D, 0x0A, 5, 0, 6, 1])"
    "flush_buf demo_write ([5, 0, 0x31, 0x20, 17, 0x0D, 0x0A, 0x0D, 0x0A], rs, []) =
      Some (Inr (), [], rs, [5, 0, 0x31, 0x20, 17, 0x0D, 0x0A, 0x0D, 0x0A])" for rs
    by (simp_all add: flush_buf.simps demo_write_def)
  show
    "handle_connection demo_hyper header_handler demo_stream (\<lambda>s w. (Returned s, w)) 100 1
       ([demo_request 5 True False, demo_request 6 False True, demo_request 7 False False], []) =
     Some (Returned (), [demo_request 7 False False],
       [0x31, 0x20, 100, 0x0D, 0x0A, 0x0D, 0x0A, 5, 0, 6, 1])"
    "handle_connection demo_hyper header_handler demo_stream (\<lambda>s w. (Returned s, w)) 100 1
       ([demo_request 5 False False, demo_request 9 True False], []) =
     Some (Returned (), [], [5, 0, 0x31, 0x20, 17, 0x0D, 0x0A, 0x0D, 0x0A])"
    by (simp_all add: handle_connection_def demo_stream_def keep_alive_loop_body keep_alive_body_def
        keep_alive_round_def handle_expect_def buf_write_all_room continue_line_def str_bytes_def
        demo_http_defs header_handler_def Let_def bufwriter_drop_def drop_all)
qed

theorem responses_in_order_witness:
  "\<exists>n as l. list_all2 (answer demo_hyper header_replies) (take n (map (\<lambda>r. (r, []))
       [demo_request 5 True False, demo_request 6 False True, demo_request 7 False False])) as \<and>
     prefix [0x31, 0x20, 100, 0x0D, 0x0A, 0x0D, 0x0A, 5, 0, 6, 1] (concat as @ l)"
proof -
  let ?rs = "[demo_request 5 True False, demo_request 6 False True, demo_request 7 False False]"
  have "ns_peer_addr demo_stream 1 (?rs, []) = (Inr (V4 0 0), ?rs, [])"
    and w: "ns_write demo_stream 1 = demo_write" by (simp_all add: demo_stream_def)
  moreover have "bodiless (reader_new demo_hyper 1) (?rs, []) = map (\<lambda>r. (r, [])) ?rs" by simp
  moreover have "(100 :: nat) < 2 ^ 64" by simp
  ultimately have "\<exists>n\<le>length (map (\<lambda>r. (r, [] :: byte list)) ?rs). \<exists>as l.
      list_all2 (answer demo_hyper header_replies) (take n (map (\<lambda>r. (r, [])) ?rs)) as \<and>
      last_line demo_hyper (drop n (map (\<lambda>r. (r, [])) ?rs)) l \<and>
      prefix (snd ([demo_request 7 False False], [0x31, 0x20, 100, 0x0D, 0x0A, 0x0D, 0x0A, 5, 0, 6, 1]))
        (snd (?rs, []) @ concat as @ l)"
    using responses_in_order [of demo_hyper header_handler demo_stream 1 snd bodiless "\<lambda>rd w. []"
        header_replies 100 "(?rs, [])" "V4 0 0" "(?rs, [])" "\<lambda>s w. (Returned s, w)" 1 "(?rs, [])"
        "map (\<lambda>r. (r, [])) ?rs"] header_answering demo_write_delivers header_connection(1)
    unfolding w by blast
  then show ?thesis by (simp only: snd_conv append_Nil) blast
qed

end
