(* ===== verification/Http_Echo_Properties.thy ===== *)
theory Http_Echo_Properties
  imports Http_Echo Http_Properties
begin

text \<open>
  The HTTP echo server answers a POST with the body it was sent: from what the reader of the
  request and the writer of the response promise, through \<open>io::copy\<close> and the handler.
\<close>

section \<open>The copy under its contract\<close>

definition io_copy_body ::
  "'s reading \<Rightarrow> 's writing \<Rightarrow> byte list \<times> 64 word \<times> 's \<Rightarrow>
   ((byte list \<times> 64 word \<times> 's) + ((panic, 64 word io_result) outcome \<times> 's)) option" where
  "io_copy_body rd wr s =
    (case rd (fst s, snd (snd s)) of
       None \<Rightarrow> None
     | Some (Inl e, b1, s1) \<Rightarrow>
         if kind e = Interrupted then Some (Inl (b1, fst (snd s), s1))
         else Some (Inr (Returned (Inl e), s1))
     | Some (Inr len, b1, s1) \<Rightarrow>
         if len = 0 then Some (Inr (Returned (Inr (fst (snd s))), s1))
         else if length b1 < unat len then Some (Inr (Panicked (User_Panic ''slice''), s1))
         else (case write_all wr (take (unat len) b1) s1 of
                 None \<Rightarrow> None
               | Some (Inl e, s2) \<Rightarrow> Some (Inr (Returned (Inl e), s2))
               | Some (Inr _, s2) \<Rightarrow> Some (Inl (b1, fst (snd s) + len, s2))))"

lemma io_copy_loop_body:
  "io_copy_loop rd wr s =
    (case io_copy_body rd wr s of
       None \<Rightarrow> None | Some (Inl s') \<Rightarrow> io_copy_loop rd wr s' | Some (Inr r) \<Rightarrow> Some r)"
  by (subst io_copy_loop.simps)
    (auto simp: io_copy_body_def split: option.splits sum.splits prod.splits)

lemma io_copy_loop_runs:
  assumes "io_copy_loop rd wr s = Some r"
  shows "runs (io_copy_body rd wr) s r"
  by (rule io_copy_loop.raw_induct [OF _ assms, of "\<lambda>rd wr s r. runs (io_copy_body rd wr) s r"])
    (auto simp: io_copy_body_def intro: runs.intros
      split: if_splits option.splits sum.splits prod.splits)

interpretation cp: looping "io_copy_loop rd wr" "io_copy_body rd wr" for rd wr
  by unfold_locales (simp_all add: io_copy_loop_body io_copy_loop_runs)

text \<open>
  \<open>supplies rest out rd\<close>: a read takes what it returns from the front of what is left to read,
  \<open>rest\<close>, and returns nothing only at its end; it writes nothing.
\<close>

definition supplies :: "('s \<Rightarrow> byte list) \<Rightarrow> ('s \<Rightarrow> byte list) \<Rightarrow> 's reading \<Rightarrow> bool" where
  "supplies rest out rd \<longleftrightarrow>
    (\<forall>b s r b' s'. rd (b, s) = Some (r, b', s') \<longrightarrow>
      length b' = length b \<and> out s' = out s \<and>
      (case r of
         Inr n \<Rightarrow> unat n \<le> length b \<and> rest s = take (unat n) b' @ rest s' \<and>
           (n = 0 \<and> b \<noteq> [] \<longrightarrow> rest s = [])
       | Inl _ \<Rightarrow> rest s' = rest s))"

lemma suppliesD:
  "supplies rest out rd \<Longrightarrow> rd (b, s) = Some (r, b', s') \<Longrightarrow>
   length b' = length b \<and> out s' = out s \<and>
   (case r of
      Inr n \<Rightarrow> unat n \<le> length b \<and> rest s = take (unat n) b' @ rest s' \<and>
        (n = 0 \<and> b \<noteq> [] \<longrightarrow> rest s = [])
    | Inl _ \<Rightarrow> rest s' = rest s)"
  unfolding supplies_def by blast

text \<open>One round: what it has moved, when it goes on and when it is the last.\<close>

lemma io_copy_round:
  assumes rd: "supplies rest out rd" and wr: "delivers out wr" "\<And>x. preserves (\<lambda>s. rest s = x) wr"
    and b: "b \<noteq> []" and round: "io_copy_body rd wr (b, n, s) = Some y"
  shows "case y of
      Inl (b', n', s') \<Rightarrow> length b' = length b \<and>
        (\<exists>d. rest s = d @ rest s' \<and> out s' = out s @ d \<and> n' = n + of_nat (length d))
    | Inr (r, s') \<Rightarrow> (\<exists>d q. rest s = d @ q @ rest s' \<and> out s' = out s @ d \<and>
        ((\<exists>e. r = Returned (Inl e)) \<or> r = Returned (Inr n) \<and> rest s = []))"
proof -
  obtain r1 b1 s1 where read: "rd (b, s) = Some (r1, b1, s1)"
    using round by (auto simp: io_copy_body_def split: option.splits)
  note r = suppliesD [OF rd read]
  show ?thesis
  proof (cases "\<exists>len. r1 = Inr len \<and> len \<noteq> 0")
    case False
    then show ?thesis
      using round read r b by (auto simp: io_copy_body_def split: sum.splits if_splits)
  next
    case True
    then obtain len where len: "r1 = Inr len" "len \<noteq> 0" by blast
    then have got: "unat len \<le> length b1" "rest s = take (unat len) b1 @ rest s1"
      "out s1 = out s" "length b1 = length b" using r by auto
    then obtain r2 s2 where wrote: "write_all wr (take (unat len) b1) s1 = Some (r2, s2)"
      using round read len by (auto simp: io_copy_body_def split: option.splits)
    obtain q where q: "out s1 @ take (unat len) b1 = out s2 @ q" "r2 = Inr () \<longrightarrow> q = []"
      using write_all_delivers [OF wr(1) wrote] by blast
    obtain d where d: "out s2 = out s1 @ d"
      using write_all_extends [OF wr(1) wrote] by (auto simp: prefix_def)
    have rest: "rest s2 = rest s1" using write_all_preserves [OF wr(2) wrote] by simp
    have dq: "take (unat len) b1 = d @ q" using q(1) d by simp
    show ?thesis
    proof (cases r2)
      case (Inl e)
      then have "y = Inr (Returned (Inl e), s2)"
        using round read len got wrote by (auto simp: io_copy_body_def)
      then show ?thesis using got d dq rest by auto
    next
      case (Inr u)
      then have "y = Inl (b1, n + len, s2)"
        using round read len got wrote by (auto simp: io_copy_body_def)
      moreover have "length d = unat len" using dq q(2) Inr got by (metis append_Nil2 length_take min.absorb2 old.unit.exhaust)
      ultimately show ?thesis using got d dq q(2) Inr rest by auto
    qed
  qed
qed

text \<open>
  A copy that returns has moved a prefix of what there was to read, less what the writer
  refused; all of it when it returns a number, which is how much.
\<close>

lemma io_copy_moves:
  assumes rd: "supplies rest out rd" and wr: "delivers out wr" "\<And>x. preserves (\<lambda>s. rest s = x) wr"
    and bufsz: "bufsz > 0" and copy: "io_copy bufsz rd wr s = Some (r, s')"
  shows "\<exists>d q. rest s = d @ q @ rest s' \<and> out s' = out s @ d \<and>
    ((\<exists>e. r = Returned (Inl e)) \<or>
     r = Returned (Inr (of_nat (length (rest s)))) \<and> d = rest s)"
proof -
  let ?I = "\<lambda>(b, n, t). b \<noteq> [] \<and>
    (\<exists>d. rest s = d @ rest t \<and> out t = out s @ d \<and> n = of_nat (length d))"
  let ?Q = "\<lambda>(r, t). \<exists>d q. rest s = d @ q @ rest t \<and> out t = out s @ d \<and>
    ((\<exists>e. r = Returned (Inl e)) \<or> r = Returned (Inr (of_nat (length (rest s)))) \<and> d = rest s)"
  have "?Q (r, s')"
  proof (rule cp.loop_invariant [OF copy [unfolded io_copy_def], of ?I])
    show "?I (replicate bufsz 0, 0, s)" using bufsz by simp
  next
    fix x x' assume I: "?I x" and go: "io_copy_body rd wr x = Some (Inl x')"
    obtain b n t where x: "x = (b, n, t)" by (cases x)
    obtain b' n' t' where x': "x' = (b', n', t')" by (cases x')
    have "b \<noteq> []" using I x by simp
    from io_copy_round [OF rd wr this go [unfolded x]] obtain d' where
      step: "length b' = length b" "rest t = d' @ rest t'" "out t' = out t @ d'"
        "n' = n + of_nat (length d')" unfolding x' by auto
    obtain d where "rest s = d @ rest t" "out t = out s @ d" "n = of_nat (length d)"
      using I x by auto
    then have "rest s = (d @ d') @ rest t'" "out t' = out s @ (d @ d')"
      "n' = of_nat (length (d @ d'))" using step by simp_all
    moreover have "b' \<noteq> []" using I x step(1) by auto
    ultimately show "?I x'" using x' by blast
  next
    fix x y assume I: "?I x" and last: "io_copy_body rd wr x = Some (Inr y)"
    obtain b n t where x: "x = (b, n, t)" by (cases x)
    obtain r t' where y: "y = (r, t')" by (cases y)
    have "b \<noteq> []" using I x by simp
    from io_copy_round [OF rd wr this last [unfolded x]] obtain d' q where
      step: "rest t = d' @ q @ rest t'" "out t' = out t @ d'"
        "(\<exists>e. r = Returned (Inl e)) \<or> r = Returned (Inr n) \<and> rest t = []" unfolding y by auto
    obtain d where d: "rest s = d @ rest t" "out t = out s @ d" "n = of_nat (length d)"
      using I x by auto
    then have "rest s = (d @ d') @ q @ rest t'" "out t' = out s @ (d @ d')" using step by simp_all
    moreover have "d @ d' = rest s \<and> r = Returned (Inr (of_nat (length (rest s))))"
      if "\<nexists>e. r = Returned (Inl e)" using that step(1,3) d by auto
    ultimately show "?Q y" using y by blast
  qed
  then show ?thesis by simp
qed

text \<open>It returns when its reads and writes do, the input is finite and no read is interrupted.\<close>

lemma io_copy_returns:
  assumes rd: "supplies rest out rd" and wr: "delivers out wr" "\<And>x. preserves (\<lambda>s. rest s = x) wr"
    and bufsz: "bufsz > 0"
    and reads: "\<And>b s. rd (b, s) \<noteq> None"
      "\<And>b s e x. rd (b, s) = Some (Inl e, x) \<Longrightarrow> kind e \<noteq> Interrupted"
    and writes: "\<And>p s. write_all wr p s \<noteq> None"
  shows "\<exists>r s'. io_copy bufsz rd wr s = Some (r, s')"
proof -
  have "\<exists>y. io_copy_loop rd wr (replicate bufsz 0, 0, s) = Some y"
  proof (rule cp.loop_terminates [of "\<lambda>(b, n, s). b \<noteq> []" _ _ _ "\<lambda>(b, n, s). length (rest s)"])
    show "io_copy_body rd wr x \<noteq> None" for x
      by (auto simp: io_copy_body_def reads(1) writes split: option.splits sum.splits)
  next
    fix x x' :: "byte list \<times> 64 word \<times> 'a"
    assume I: "case x of (b, n, s) \<Rightarrow> b \<noteq> []" and go: "io_copy_body rd wr x = Some (Inl x')"
    obtain b n t where x: "x = (b, n, t)" by (cases x)
    obtain b' n' t' where x': "x' = (b', n', t')" by (cases x')
    have b: "b \<noteq> []" using I x by simp
    from io_copy_round [OF rd wr this go [unfolded x]] obtain d where
      d: "length b' = length b" "rest t = d @ rest t'" "out t' = out t @ d" unfolding x' by auto
    obtain len b1 t1 where read: "rd (b, t) = Some (Inr len, b1, t1)" "len \<noteq> 0"
      and wrote: "write_all wr (take (unat len) b1) t1 = Some (Inr (), t')"
      using go reads(2) unfolding x x'
      by (auto simp: io_copy_body_def split: option.splits sum.splits if_splits)
    have "rest t = take (unat len) b1 @ rest t1" "unat len \<le> length b1"
      using suppliesD [OF rd read(1)] by auto
    moreover have "rest t' = rest t1" using write_all_preserves [OF wr(2) wrote] by simp
    moreover have "unat len \<noteq> 0" using read(2) by (simp add: unat_eq_zero)
    ultimately have "length (rest t') < length (rest t)" by auto
    then show "(case x' of (b, n, s) \<Rightarrow> b \<noteq> []) \<and>
      (case x' of (b, n, s) \<Rightarrow> length (rest s)) < (case x of (b, n, s) \<Rightarrow> length (rest s))"
      using x x' b d(1) by auto
  qed (use bufsz in auto)
  then show ?thesis unfolding io_copy_def by auto
qed

lemma write_all_returns:
  assumes "delivers out wr" and "\<And>p s. wr p s \<noteq> None"
    and "\<And>p s e x. wr p s = Some (Inl e, x) \<Longrightarrow> kind e \<noteq> Interrupted"
  shows "write_all wr p s \<noteq> None"
proof -
  have "\<exists>r. (\<lambda>(p, s). write_all wr p s) (p, s) = Some r"
  proof (rule wa.loop_terminates [of "\<lambda>x. True" _ _ "\<lambda>(p, s). length p"])
    show "write_all_body wr x \<noteq> None" for x
      by (auto simp: write_all_body_def assms(2) split: option.splits sum.splits)
  next
    fix x x' assume go: "write_all_body wr x = Some (Inl x')"
    then obtain n where "wr (fst x) (snd x) = Some (Inr n, snd x')" "n \<noteq> 0"
      "fst x' = drop (unat n) (fst x)" "fst x \<noteq> []"
      using assms(3) by (auto simp: write_all_body_def split: if_splits option.splits sum.splits)
    moreover have "unat n \<noteq> 0" using \<open>n \<noteq> 0\<close> by (simp add: unat_eq_zero)
    ultimately show "True \<and> (case x' of (p, s) \<Rightarrow> length p) < (case x of (p, s) \<Rightarrow> length p)"
      by (simp add: split_beta)
  qed simp
  then show ?thesis by simp
qed

section \<open>The echo server\<close>

text \<open>
  What \<open>hyper\<close> promises of the body of a request and of a response that has been started, with
  ghost observations: \<open>rest\<close> is what is left of the request's body, \<open>streamed\<close> what the
  response's body has been given. Neither touches the other.
\<close>

definition exchanges ::
  "('w, 'rd, 'wr, 'm, 'u, 'h, 'v, 'st, 'f, 'g) hyper_io \<Rightarrow> ('m, 'u, 'h, 'v) request \<Rightarrow>
   ('rd \<Rightarrow> 'w \<Rightarrow> byte list) \<Rightarrow> ('g \<Rightarrow> 'w \<Rightarrow> byte list) \<Rightarrow> bool" where
  "exchanges X req rest streamed \<longleftrightarrow>
    (\<forall>g. supplies (\<lambda>(rd, w). rest rd w) (\<lambda>(rd, w). streamed g w) (req_read X req)) \<and>
    delivers (\<lambda>(g, w). streamed g w) (res_write X) \<and>
    (\<forall>rd x. preserves (\<lambda>(g, w). rest rd w = x) (res_write X))"

lemma exchanges_copy:
  assumes "exchanges X req rest streamed"
  shows "supplies (\<lambda>(rd, g, w). rest rd w) (\<lambda>(rd, g, w). streamed g w) (copy_read X req)"
    and "delivers (\<lambda>(rd, g, w). streamed g w) (copy_write X)"
    and "preserves (\<lambda>s. (case s of (rd, g, w) \<Rightarrow> rest rd w) = x) (copy_write X)"
proof -
  have "supplies (\<lambda>(rd, w). rest rd w) (\<lambda>(rd, w). streamed g w) (req_read X req)" for g
    using assms unfolding exchanges_def by blast
  from suppliesD [OF this]
  show "supplies (\<lambda>(rd, g, w). rest rd w) (\<lambda>(rd, g, w). streamed g w) (copy_read X req)"
    unfolding supplies_def copy_read_def by (fastforce split: option.splits)
  have "delivers (\<lambda>(g, w). streamed g w) (res_write X)"
    using assms unfolding exchanges_def by blast
  from delivers_ok [OF this] delivers_err [OF this]
  show "delivers (\<lambda>(rd, g, w). streamed g w) (copy_write X)"
    unfolding delivers_def copy_write_def by (fastforce split: option.splits)
  have "preserves (\<lambda>(g, w). rest rd w = x) (res_write X)" for rd
    using assms unfolding exchanges_def by blast
  from preservesD [OF this]
  show "preserves (\<lambda>s. (case s of (rd, g, w) \<Rightarrow> rest rd w) = x) (copy_write X)"
    unfolding preserves_def copy_write_def by (fastforce split: option.splits)
qed

text \<open>Operations that return, and are not interrupted.\<close>

definition prompt ::
  "('w, 'rd, 'wr, 'm, 'u, 'h, 'v, 'st, 'f, 'g) hyper_io \<Rightarrow> ('m, 'u, 'h, 'v) request \<Rightarrow> bool" where
  "prompt X req \<longleftrightarrow>
    (\<forall>s. req_read X req s \<noteq> None \<and>
      (\<forall>e x. req_read X req s = Some (Inl e, x) \<longrightarrow> kind e \<noteq> Interrupted)) \<and>
    (\<forall>p s. res_write X p s \<noteq> None \<and>
      (\<forall>e x. res_write X p s = Some (Inl e, x) \<longrightarrow> kind e \<noteq> Interrupted)) \<and>
    (\<forall>s. req_drop X req s \<noteq> None) \<and> (\<forall>s. res_drop X s \<noteq> None)"

lemma promptD:
  assumes "prompt X req"
  shows "req_read X req s \<noteq> None" and "req_read X req s = Some (Inl e, x) \<Longrightarrow> kind e \<noteq> Interrupted"
    and "res_write X p t \<noteq> None" and "res_write X p t = Some (Inl e, y) \<Longrightarrow> kind e \<noteq> Interrupted"
    and "req_drop X req u \<noteq> None" and "res_drop X t \<noteq> None"
  using assms unfolding prompt_def by blast+

lemma prompt_copy:
  assumes "exchanges X req rest streamed" and "prompt X req" and "bufsz > 0"
  shows "\<exists>r s'. io_copy bufsz (copy_read X req) (copy_write X) s = Some (r, s')"
proof (rule io_copy_returns [OF exchanges_copy [OF assms(1)] assms(3)])
  note ok = promptD [OF assms(2)]
  show "copy_read X req (b, s) \<noteq> None" for b s
    by (auto simp: copy_read_def ok(1) split: option.splits prod.splits)
  show "kind e \<noteq> Interrupted" if "copy_read X req (b, s) = Some (Inl e, x)" for b s e x
    using that by (auto simp: copy_read_def split: option.splits prod.splits dest: ok(2))
  show "write_all (copy_write X) p s \<noteq> None" for p s
  proof (rule write_all_returns [OF exchanges_copy(2) [OF assms(1)]])
    show "copy_write X p s \<noteq> None" for p s
      by (auto simp: copy_write_def ok(3) split: option.splits prod.splits)
    show "kind e \<noteq> Interrupted" if "copy_write X p s = Some (Inl e, x)" for p s e x
      using that by (auto simp: copy_write_def split: option.splits prod.splits dest: ok(4))
  qed
qed

lemma echo_post:
  assumes "rq_method req = method_post X" and "method_post X \<noteq> method_get X"
    and "absolute_path X (rq_uri req) = Some ''/echo''"
  shows "echo X bufsz req v h (rd, wr, w) = echo_body X bufsz req (res_new X v h wr) (rd, w)"
  using assms by (simp add: echo_def)

lemma echo_exit_returns:
  "prompt X req \<Longrightarrow> \<exists>y. echo_exit X req r rd (res_drop X s) = Some y"
  by (auto simp: echo_exit_def promptD(5,6) split: option.split)

text \<open>C37. A POST to \<open>/echo\<close> is answered with the body of the request: when the handler returns,
  the response that it started has been given the whole body, in order, and is dropped; or an
  error was printed, and it has been given a prefix of the body. The handler neither panics
  nor reads past the body, and returns when the reads and writes of the two bodies do.\<close>

theorem http_echo_correct:
  assumes "exchanges X req rest streamed" and "bufsz > 0"
    and "rq_method req = method_post X" and "method_post X \<noteq> method_get X"
    and "absolute_path X (rq_uri req) = Some ''/echo''"
    and "res_start X (res_new X v h wr, w) = Some (Inr g, w1)"
  shows "(echo X bufsz req v h (rd, wr, w) = Some y \<longrightarrow>
      (\<exists>d q rd2 g2 w2 w3.
        Some y = echo_exit X req (Returned ()) rd2 (res_drop X (g2, w3)) \<and>
        rest rd w1 = d @ q @ rest rd2 w2 \<and> streamed g2 w2 = streamed g w1 @ d \<and>
        (w3 = w2 \<and> d = rest rd w1 \<or> (\<exists>e. w3 = print_error X e w2)))) \<and>
    (prompt X req \<longrightarrow> (\<exists>y. echo X bufsz req v h (rd, wr, w) = Some y))"
proof (cases "io_copy bufsz (copy_read X req) (copy_write X) (rd, g, w1)")
  case None
  then show ?thesis
    using prompt_copy [OF assms(1) _ assms(2), of "(rd, g, w1)"]
    by (auto simp: echo_post [OF assms(3-5)] echo_body_def assms(6))
next
  case (Some x)
  obtain r rd2 g2 w2 where x: "x = (r, rd2, g2, w2)" by (cases x)
  from io_copy_moves [OF exchanges_copy [OF assms(1)] assms(2) Some [unfolded x]]
  obtain d q where moved: "rest rd w1 = d @ q @ rest rd2 w2" "streamed g2 w2 = streamed g w1 @ d"
    and r: "(\<exists>e. r = Returned (Inl e)) \<or>
      r = Returned (Inr (of_nat (length (rest rd w1)))) \<and> d = rest rd w1"
    by auto
  from r have "\<exists>w3. echo X bufsz req v h (rd, wr, w) =
      echo_exit X req (Returned ()) rd2 (res_drop X (g2, w3)) \<and>
      (w3 = w2 \<and> d = rest rd w1 \<or> (\<exists>e. w3 = print_error X e w2))"
    by (auto simp: echo_post [OF assms(3-5)] echo_body_def assms(6) Some x try_return_def)
  then obtain w3 where "echo X bufsz req v h (rd, wr, w) =
      echo_exit X req (Returned ()) rd2 (res_drop X (g2, w3))"
    "w3 = w2 \<and> d = rest rd w1 \<or> (\<exists>e. w3 = print_error X e w2)" by blast
  then show ?thesis using moved echo_exit_returns [of X req] by (metis (no_types))
qed

text \<open>
  A concrete exchange: the reader is the body to come, read four bytes at a time; the writer is
  what it has been given, three bytes at a time; a status is one byte before the body.
\<close>

definition demo_io ::
  "(nat, byte list, byte list, bool, string option, unit, unit, nat, nat \<times> byte list, byte list)
    hyper_io" where
  "demo_io = \<lparr>method_get = False, method_post = True, absolute_path = id,
     status_not_found = 44, status_of_continue = 100,
     req_read = (\<lambda>req (b, rd, w). let k = min (min (length rd) (length b)) 4 in
       Some (Inr (of_nat k), take k rd @ drop k b, drop k rd, w)),
     req_drop = (\<lambda>req. Some),
     res_new = (\<lambda>v h wr. (20, wr)), res_set_status = (\<lambda>st (_, wr). (st, wr)),
     res_send = (\<lambda>p ((st, wr), w). Some (Inr (), (), wr @ of_nat st # p, w)),
     res_start = (\<lambda>((st, wr), w). Some (Inr (wr @ [of_nat st]), w)),
     res_write = (\<lambda>p (g, w). let k = min (length p) 3 in Some (Inr (of_nat k), g @ take k p, w)),
     res_drop_fresh = (\<lambda>((st, wr), w). Some ((), wr @ [of_nat st], w)),
     res_drop = (\<lambda>(g, w). Some ((), g, w)), print_error = (\<lambda>e w. w + 1)\<rparr>"

definition demo_post :: "(bool, string option, unit, unit) request" where
  "demo_post = \<lparr>rq_method = True, rq_uri = Some ''/echo'', rq_headers = (), rq_version = ()\<rparr>"

lemma demo_exchanges: "exchanges demo_io demo_post (\<lambda>rd w. rd) (\<lambda>g w. g)"
  by (auto simp: exchanges_def supplies_def delivers_def preserves_def demo_io_def Let_def
      unat_small of_nat_small min_def)

theorem http_echo_correct_witness:
  "\<exists>y. echo demo_io 64 demo_post () () ([1, 2, 3, 4, 5], [], 0) = Some y \<and>
    y = (Returned (), [], [20, 1, 2, 3, 4, 5], 0)"
proof -
  have "prompt demo_io demo_post"
    by (auto simp: prompt_def demo_io_def Let_def split: prod.splits)
  moreover have "echo demo_io 64 demo_post () () ([1, 2, 3, 4, 5], [], 0) =
      Some (Returned (), [], [20, 1, 2, 3, 4, 5], 0)"
    by (simp add: echo_def demo_post_def echo_body_def io_copy_def io_copy_loop.simps copy_read_def
        copy_write_def demo_io_def write_all.simps echo_exit_def try_return_def Let_def)
  ultimately show ?thesis
    using http_echo_correct [OF demo_exchanges, of 64 "()" "()" "[]" 0 "[20]" 0 "[1, 2, 3, 4, 5]"]
    by (simp add: demo_io_def demo_post_def)
qed

section \<open>The client\<close>

text \<open>
  After the head the client prints the body of the response, all of it unless it panics; it
  panics only on an error.
\<close>

lemma http_echo_client_prints:
  assumes "new_client w = (Returned c, w1)"
    and "get_close (client_deref c) addr w1 = Some (Inr res, w2)"
    and reads: "supplies (\<lambda>(res, w). rest res w) (\<lambda>(res, w). out w) resp_read"
    and writes: "delivers out stdout" "\<And>res x. preserves (\<lambda>w. rest res w = x) stdout"
    and "bufsz > 0"
    and call: "http_echo_client new_client get_close print_head resp_read stdout bufsz addr w =
      Some (r, w')"
  shows "\<exists>d. out w' = out (print_head res w2) @ d \<and> prefix d (rest res (print_head res w2)) \<and>
    (r = Returned () \<and> d = rest res (print_head res w2) \<or> (\<exists>e. r = Panicked (Copy_Failed e)))"
proof -
  let ?wr = "\<lambda>p (res, w). map_option (\<lambda>(r, w'). (r, res, w')) (stdout p w)"
  obtain r1 res1 where copy: "io_copy bufsz resp_read ?wr (res, print_head res w2) =
      Some (r1, res1, w')"
    using call assms(1,2)
    by (auto simp: http_echo_client_def split: option.splits outcome.splits sum.splits)
  have del: "delivers (\<lambda>(res, w). out w) ?wr"
    using writes(1) unfolding delivers_def by fastforce
  have pre: "preserves (\<lambda>s. (case s of (res, w) \<Rightarrow> rest res w) = x) ?wr" for x
    using writes(2) unfolding preserves_def by fastforce
  from io_copy_moves [OF reads del pre assms(6) copy] obtain d q where
    "rest res (print_head res w2) = d @ q @ rest res1 w'" "out w' = out (print_head res w2) @ d"
    "(\<exists>e. r1 = Returned (Inl e)) \<or> (\<exists>n. r1 = Returned (Inr n)) \<and> d = rest res (print_head res w2)"
    by auto
  then show ?thesis
    using call assms(1,2) copy by (auto simp: http_echo_client_def)
qed

end
