(* ===== verification/Atomicity.thy ===== *)
theory Atomicity
  imports Runtime_Refinement
begin

text \<open>
  The two operations of the scheduler that work on the counter and on a box, taken apart:
  another thread can run between the two. Everything reached this way is, with the private
  work in progress done, reached by the steps of \<open>Processor_Model\<close>.
\<close>

section \<open>One access at a time\<close>

text \<open>
  What a thread has still to do of an operation whose access to shared memory is done: drop the
  box \<open>h\<close>, after \<open>fetch_sub\<close> in \<open>finished\<close>; or make the box \<open>d\<close> for \<open>f\<close> and go on at \<open>p'\<close>, after
  \<open>fetch_add\<close> in \<open>spawn_opts\<close>. The name \<open>d\<close> of the box is chosen beforehand.
\<close>

datatype 'p pending =
    Done
  | Freeing ptr
  | Allocating ptr 'p options 'p

type_synonym ('q, 'sl, 'ev, 'pl, 'stk, 'p, 'u) fine =
  "('q, 'sl, 'ev, 'pl, 'stk, 'p, 'u) world \<times> (tid \<Rightarrow> 'p pending)"

fun settle ::
  "('q, 'sl, 'ev, 'pl, 'stk, 'p, 'u) env \<Rightarrow> tid \<Rightarrow> 'p pending \<Rightarrow>
   ('q, 'sl, 'ev, 'pl, 'stk, 'p, 'u) world \<Rightarrow> ('q, 'sl, 'ev, 'pl, 'stk, 'p, 'u) world" where
  "settle E t Done w = w"
| "settle E t (Freeing h) w = finished_drop E t h Spawn_Check w"
| "settle E t (Allocating d f os p') w =
    (proc_spawn_opts E t f os (Body p') (w\<lparr>next_ptr := d\<rparr>))\<lparr>next_ptr := next_ptr w\<rparr>"

text \<open>The results with which \<open>run_task\<close> calls \<open>finished\<close>.\<close>

definition ends_task :: "co_result \<Rightarrow> bool" where
  "ends_task r \<longleftrightarrow> r \<noteq> Inr Suspended \<and> r \<noteq> Inr Blocked"

fun fine_step ::
  "('q, 'sl, 'ev, 'pl, 'stk, 'p, 'u) env \<Rightarrow> tid \<Rightarrow>
   ('q, 'sl, 'ev, 'pl, 'stk, 'p, 'u) fine \<Rightarrow> ('q, 'sl, 'ev, 'pl, 'stk, 'p, 'u) fine" where
  "fine_step E t (w, part) =
    (case part t of
       Done \<Rightarrow>
         (case loc (threads w t) of
            After_Resume h \<Rightarrow>
              if ends_task (resume_result (threads w t))
              then (finished_count (upd t (\<lambda>th. th\<lparr>last_result := None\<rparr>) w), part(t := Freeing h))
              else (step E t w, part)
          | Body p \<Rightarrow>
              (case run E p (user w) of
                 (Call_Spawn f os p', u) \<Rightarrow>
                   (w\<lparr>user := u, work_counts := work_counts w + 1, next_ptr := Suc (next_ptr w)\<rparr>,
                    part(t := Allocating (next_ptr w) f os p'))
               | _ \<Rightarrow> (step E t w, part))
          | _ \<Rightarrow> (step E t w, part))
     | todo \<Rightarrow> (settle E t todo w, part(t := Done)))"

inductive fine_sys_step ::
  "('q, 'sl, 'ev, 'pl, 'stk, 'p, 'u) env \<Rightarrow> nat \<Rightarrow>
   ('q, 'sl, 'ev, 'pl, 'stk, 'p, 'u) fine \<Rightarrow> ('q, 'sl, 'ev, 'pl, 'stk, 'p, 'u) fine \<Rightarrow> bool"
  for E n where
  "t < n \<Longrightarrow> fine_sys_step E n s (fine_step E t s)"

definition fine_started ::
  "('q, 'sl, 'ev, 'pl, 'stk, 'p, 'u) env \<Rightarrow> ('q, 'sl, 'ev, 'pl, 'stk, 'p, 'u) fine \<Rightarrow> bool" where
  "fine_started E s \<longleftrightarrow> started E (fst s) \<and> snd s = (\<lambda>_. Done)"

abbreviation fine_reachable ::
  "('q, 'sl, 'ev, 'pl, 'stk, 'p, 'u) env \<Rightarrow> nat \<Rightarrow>
   ('q, 'sl, 'ev, 'pl, 'stk, 'p, 'u) fine \<Rightarrow> bool" where
  "fine_reachable E n \<equiv> reach (fine_started E) (fine_sys_step E (run_threads n))"

section \<open>Steps do not see what other threads do in private\<close>

text \<open>
  \<open>overlay T th S m w\<close> is \<open>w\<close> with the threads in \<open>T\<close> and the boxes in \<open>S\<close> replaced. A step of a
  thread that is not in \<open>T\<close> and does not touch a box in \<open>S\<close> does not see the difference.
\<close>

definition overlay ::
  "tid set \<Rightarrow> (tid \<Rightarrow> ('sl, 'ev, 'pl, 'stk, 'p) thread) \<Rightarrow> ptr set \<Rightarrow> (ptr \<rightharpoonup> ('p, 'stk) coroutine) \<Rightarrow>
   ('q, 'sl, 'ev, 'pl, 'stk, 'p, 'u) world \<Rightarrow> ('q, 'sl, 'ev, 'pl, 'stk, 'p, 'u) world" where
  "overlay T th S m w =
    w\<lparr>threads := override_on (threads w) th T, heap := override_on (heap w) m S\<rparr>"

lemma overlay_simps [simp]:
  "global_queue (overlay T th S m w) = global_queue w" "work_counts (overlay T th S m w) = work_counts w"
  "next_ptr (overlay T th S m w) = next_ptr w" "user (overlay T th S m w) = user w"
  "threads (overlay T th S m w) i = (if i \<in> T then th i else threads w i)"
  "heap (overlay T th S m w) = override_on (heap w) m S"
  by (simp_all add: overlay_def override_on_def)

lemma override_outside [simp]: "x \<notin> S \<Longrightarrow> override_on h m S x = h x"
  by (simp add: override_on_def)

named_theorems overlays \<open>operations that do not see what other threads do\<close>

lemma overlay_update [overlays]:
  "(overlay T th S m w)\<lparr>global_queue := q\<rparr> = overlay T th S m (w\<lparr>global_queue := q\<rparr>)"
  "(overlay T th S m w)\<lparr>work_counts := n\<rparr> = overlay T th S m (w\<lparr>work_counts := n\<rparr>)"
  "(overlay T th S m w)\<lparr>next_ptr := c\<rparr> = overlay T th S m (w\<lparr>next_ptr := c\<rparr>)"
  "(overlay T th S m w)\<lparr>user := u\<rparr> = overlay T th S m (w\<lparr>user := u\<rparr>)"
  by (simp_all add: overlay_def)

lemma overlay_heap [overlays]:
  "x \<notin> S \<Longrightarrow> (overlay T th S m w)\<lparr>heap := (override_on h m S)(x := y)\<rparr> =
    overlay T th S m (w\<lparr>heap := h(x := y)\<rparr>)"
  by (auto simp: overlay_def override_on_def fun_eq_iff)

lemma overlay_upd [overlays]:
  "t \<notin> T \<Longrightarrow> upd t f (overlay T th S m w) = overlay T th S m (upd t f w)"
  by (auto simp: overlay_def upd_def override_on_def fun_eq_iff)

lemma overlay_goto [overlays]:
  "t \<notin> T \<Longrightarrow> goto t l (overlay T th S m w) = overlay T th S m (goto t l w)"
  "t \<notin> T \<Longrightarrow> enter t c (overlay T th S m w) = overlay T th S m (enter t c w)"
  by (simp_all add: enter_def goto_def overlay_upd)

lemma overlay_ready [overlays]:
  "t \<notin> T \<Longrightarrow> ready E t h k (overlay T th S m w) = overlay T th S m (ready E t h k w)"
  by (simp add: ready_def overlays split: prod.split sum.split)

lemma overlay_finished [overlays]:
  "t \<notin> T \<Longrightarrow> h \<notin> S \<Longrightarrow>
   finished_drop E t h k (overlay T th S m w) = overlay T th S m (finished_drop E t h k w)"
  "t \<notin> T \<Longrightarrow> h \<notin> S \<Longrightarrow>
   finished E t h k (overlay T th S m w) = overlay T th S m (finished E t h k w)"
  by (simp_all add: finished_defs co_drop_def overlays split: option.split)

lemma overlay_yield [overlays]:
  "t \<notin> T \<Longrightarrow> set_option (cur_running (threads w t)) \<inter> S = {} \<Longrightarrow>
   yield_with r t k (overlay T th S m w) = overlay T th S m (yield_with r t k w)"
  by (cases "cur_running (threads w t)")
    (auto simp: yield_with_def yield_to_main_def yield_to_def set_last_result_def split_beta
      overlays split: option.split)

lemma overlay_resume [overlays]:
  "t \<notin> T \<Longrightarrow> h \<notin> S \<Longrightarrow> resume t h (overlay T th S m w) = overlay T th S m (resume t h w)"
  by (simp add: resume_def split_beta overlays split: option.split)

text \<open>The boxes a step may touch.\<close>

definition touched ::
  "('q, 'sl, 'ev, 'pl, 'stk, 'p, 'u) env \<Rightarrow> tid \<Rightarrow>
   ('q, 'sl, 'ev, 'pl, 'stk, 'p, 'u) world \<Rightarrow> ptr set" where
  "touched E t w = (let th = threads w t in
     set_option (cur_running th) \<union> set_option (new_spawned th) \<union>
     set_mset (loc_refs (last_result th) (loc th)) \<union>
     set_option (fst (bq_pop E (global_queue w))) \<union> {next_ptr w})"

lemma overlay_body:
  assumes "t \<notin> T" and "set_option (cur_running (threads w t)) \<inter> S = {}" and "next_ptr w \<notin> S"
  shows "body_step E t p (overlay T th S m w) = overlay T th S m (body_step E t p w)"
  using assms
  by (auto simp: body_step_def coroutine_initialize_def scheduler_spawn_opts_def proc_spawn_opts_def
      co_spawn_opts_def scheduler_sched_def scheduler_block_def sched_is_yield_with
      block_is_yield_with wait_event_def running_def split_beta Let_def overlays
      split: call.split option.split sum.split prod.split)

lemma step_overlay:
  assumes t: "t \<notin> T" and S: "touched E t w \<inter> S = {}"
  shows "step E t (overlay T th S m w) = overlay T th S m (step E t w)"
proof -
  have s: "set_option (cur_running (threads w t)) \<inter> S = {}" "next_ptr w \<notin> S"
    "\<And>h. new_spawned (threads w t) = Some h \<Longrightarrow> h \<notin> S"
    "\<And>h q. bq_pop E (global_queue w) = (Some h, q) \<Longrightarrow> h \<notin> S"
    "\<And>h. h \<in># loc_refs (last_result (threads w t)) (loc (threads w t)) \<Longrightarrow> h \<notin> S"
    using S by (auto simp: touched_def Let_def)
  show ?thesis
  proof (cases "loc (threads w t)")
    case (Body p)
    then show ?thesis using overlay_body [OF t s(1,2)] t by (simp add: step_def)
  next
    case (After_Resume h)
    then show ?thesis
      using t s(5) by (auto simp: step_def run_task_end_def resume_result_def Let_def overlays
          split: option.split sum.split co_state.split if_splits)
  next
    case Loop_Top
    then show ?thesis
      using t s(4) by (simp add: step_def schedule_pop_def overlays split: prod.split option.split)
  next
    case (Dispatch evs)
    then show ?thesis
      using t by (cases evs; cases "hd evs") (auto simp: step_def handler_ready_def overlays
          split: prod.split option.split sum.split)
  next
    case Spawn_Check
    then show ?thesis
      using t s(3) by (simp add: step_def schedule_spawned_def overlays split: option.split)
  qed (use t s(1) in \<open>simp_all add: step_def coroutine_epilogue_def schedule_idle_def work_count_def
      overlays split: prod.split sum.split\<close>)
qed

section \<open>Private work\<close>

text \<open>The boxes the private work of a thread touches.\<close>

fun locs :: "('sl, 'ev, 'pl, 'stk, 'p) thread \<Rightarrow> 'p pending \<Rightarrow> ptr set" where
  "locs th Done = {}"
| "locs th (Freeing h) = {h}"
| "locs th (Allocating d f os p') = insert d (set_option (cur_running th))"

lemmas settle_defs = finished_drop_def co_drop_def proc_spawn_opts_def co_spawn_opts_def sched_def
  yield_to_main_def yield_to_def set_last_result_def split_beta Let_def

lemma settle_frame:
  "i \<noteq> t \<Longrightarrow> threads (settle E t x w) i = threads w i"
  "b \<notin> locs (threads w t) x \<Longrightarrow> heap (settle E t x w) b = heap w b"
  "global_queue (settle E t x w) = global_queue w" "work_counts (settle E t x w) = work_counts w"
  "next_ptr (settle E t x w) = next_ptr w" "user (settle E t x w) = user w"
  by (cases x; auto simp: settle_defs upd_def goto_def enter_def split: option.split)+

text \<open>It depends on the thread and on those boxes only.\<close>

lemma settle_local:
  assumes "threads w' t = threads w t" and "\<And>b. b \<in> locs (threads w t) x \<Longrightarrow> heap w' b = heap w b"
  shows "threads (settle E t x w') t = threads (settle E t x w) t"
    "b \<in> locs (threads w t) x \<Longrightarrow> heap (settle E t x w') b = heap (settle E t x w) b"
  using assms
  by (cases x; auto simp: settle_defs upd_def goto_def enter_def split: option.split)+

text \<open>The first part of a step that is taken apart.\<close>

definition parts :: "('q, 'sl, 'ev, 'pl, 'stk, 'p, 'u) env \<Rightarrow> tid \<Rightarrow>
    ('q, 'sl, 'ev, 'pl, 'stk, 'p, 'u) world \<Rightarrow> 'p pending \<Rightarrow>
    ('q, 'sl, 'ev, 'pl, 'stk, 'p, 'u) world \<Rightarrow> bool" where
  "parts E t w x v \<longleftrightarrow> x \<noteq> Done \<and> step E t w = settle E t x v \<and> heap v = heap w \<and>
     (\<forall>i. i \<noteq> t \<longrightarrow> threads v i = threads w i) \<and> next_ptr w \<le> next_ptr v \<and>
     locs (threads v t) x \<subseteq> touched E t w"

text \<open>Where a thread is when it has private work to do.\<close>

definition lags :: "('q, 'sl, 'ev, 'pl, 'stk, 'p, 'u) world \<Rightarrow> tid \<Rightarrow> 'p pending \<Rightarrow> bool" where
  "lags v t x \<longleftrightarrow> (case x of
       Done \<Rightarrow> True
     | Freeing h \<Rightarrow> loc (threads v t) = After_Resume h \<and> heap v h \<noteq> None \<and> h < next_ptr v
     | Allocating d f os p' \<Rightarrow> heap v d = None \<and> d < next_ptr v \<and>
         (\<exists>p c. loc (threads v t) = Body p \<and> cur_running (threads v t) = Some c \<and>
            ctx (main_coro (threads v t)) = Some (After_Resume c) \<and> heap v c \<noteq> None))"

definition sane :: "('q, 'sl, 'ev, 'pl, 'stk, 'p, 'u) world \<Rightarrow> tid \<Rightarrow> bool" where
  "sane v t \<longleftrightarrow> heap v (next_ptr v) = None \<and>
     (\<forall>h. loc (threads v t) = After_Resume h \<longrightarrow> ends_task (resume_result (threads v t)) \<longrightarrow>
        heap v h \<noteq> None \<and> h < next_ptr v) \<and>
     (\<forall>p. loc (threads v t) = Body p \<longrightarrow> (\<exists>c. cur_running (threads v t) = Some c \<and>
        ctx (main_coro (threads v t)) = Some (After_Resume c) \<and> heap v c \<noteq> None))"

lemma fine_step_Done:
  assumes d: "part t = Done" and s: "sane w t"
  shows "fine_step E t (w, part) = (step E t w, part) \<or>
    (\<exists>x v. fine_step E t (w, part) = (v, part(t := x)) \<and> parts E t w x v \<and> lags v t x)"
proof (cases "loc (threads w t)")
  case (After_Resume h)
  show ?thesis
  proof (cases "ends_task (resume_result (threads w t))")
    case True
    let ?v = "finished_count (upd t (\<lambda>th. th\<lparr>last_result := None\<rparr>) w)"
    have "parts E t w (Freeing h) ?v"
      using True After_Resume
      by (auto simp: parts_def step_def run_task_end_def finished_defs ends_task_def touched_def
          resume_result_def Let_def split: sum.split co_state.split option.splits)
    moreover have "lags ?v t (Freeing h)"
      using s True After_Resume by (simp add: lags_def sane_def finished_count_def)
    ultimately show ?thesis using d True After_Resume by auto
  qed (use d After_Resume in simp)
next
  case (Body p)
  obtain q u where r: "run E p (user w) = (q, u)" by fastforce
  show ?thesis
  proof (cases q)
    case (Call_Spawn f os p')
    let ?v = "w\<lparr>user := u, work_counts := work_counts w + 1, next_ptr := Suc (next_ptr w)\<rparr>"
    have "parts E t w (Allocating (next_ptr w) f os p') ?v"
      using r Call_Spawn Body
      by (auto simp: parts_def step_def body_step_def scheduler_spawn_opts_def settle_defs touched_def
          upd_def goto_def enter_def split: option.split)
    moreover have "lags ?v t (Allocating (next_ptr w) f os p')"
      using s Body by (simp add: lags_def sane_def)
    ultimately show ?thesis using d r Call_Spawn Body by auto
  qed (use d r Body in simp_all)
qed (use d in simp_all)

section \<open>The reduction\<close>

text \<open>
  \<open>w\<close> is \<open>v\<close> with the private work of every thread done, whatever the order; the work of
  different threads touches different boxes.
\<close>

definition tracks :: "('q, 'sl, 'ev, 'pl, 'stk, 'p, 'u) env \<Rightarrow> nat \<Rightarrow>
    ('q, 'sl, 'ev, 'pl, 'stk, 'p, 'u) world \<Rightarrow> (tid \<Rightarrow> 'p pending) \<Rightarrow>
    ('q, 'sl, 'ev, 'pl, 'stk, 'p, 'u) world \<Rightarrow> bool" where
  "tracks E n v part w \<longleftrightarrow>
     global_queue v = global_queue w \<and> work_counts v = work_counts w \<and> next_ptr v = next_ptr w \<and>
     user v = user w \<and> (\<forall>i. n \<le> i \<longrightarrow> part i = Done) \<and>
     (\<forall>b. (\<forall>i. b \<notin> locs (threads v i) (part i)) \<longrightarrow> heap v b = heap w b) \<and>
     (\<forall>i. lags v i (part i) \<and> threads (settle E i (part i) v) i = threads w i \<and>
        (\<forall>b\<in>locs (threads v i) (part i). heap (settle E i (part i) v) b = heap w b)) \<and>
     (\<forall>i j. i \<noteq> j \<longrightarrow> locs (threads v i) (part i) \<inter> locs (threads v j) (part j) = {})"

lemma tracksD:
  assumes "tracks E n v part w"
  shows "global_queue v = global_queue w" "work_counts v = work_counts w" "next_ptr v = next_ptr w"
    "user v = user w" "n \<le> i \<Longrightarrow> part i = Done"
    "(\<And>i. b \<notin> locs (threads v i) (part i)) \<Longrightarrow> heap v b = heap w b"
    "lags v i (part i)" "threads (settle E i (part i) v) i = threads w i"
    "b \<in> locs (threads v i) (part i) \<Longrightarrow> heap (settle E i (part i) v) b = heap w b"
    "i \<noteq> j \<Longrightarrow> locs (threads v i) (part i) \<inter> locs (threads v j) (part j) = {}"
    "part i = Done \<Longrightarrow> threads v i = threads w i"
proof -
  note t = assms [unfolded tracks_def]
  show "global_queue v = global_queue w" "work_counts v = work_counts w" "next_ptr v = next_ptr w"
    "user v = user w" "n \<le> i \<Longrightarrow> part i = Done"
    using t by blast+
  show "(\<And>i. b \<notin> locs (threads v i) (part i)) \<Longrightarrow> heap v b = heap w b" using t by blast
  show "lags v i (part i)" and th: "threads (settle E i (part i) v) i = threads w i" using t by blast+
  show "b \<in> locs (threads v i) (part i) \<Longrightarrow> heap (settle E i (part i) v) b = heap w b" using t by blast
  show "i \<noteq> j \<Longrightarrow> locs (threads v i) (part i) \<inter> locs (threads v j) (part j) = {}" using t by blast
  show "part i = Done \<Longrightarrow> threads v i = threads w i" using th by simp
qed

lemma tracks_refl: "tracks E n w (\<lambda>_. Done) w"
  by (simp add: tracks_def lags_def)

text \<open>What a thread has in hand once its work is done.\<close>

lemma lags_settled:
  assumes l: "lags v t x" and th: "threads (settle E t x v) t = threads w t"
    and h: "\<And>b. b \<in> locs (threads v t) x \<Longrightarrow> heap (settle E t x v) b = heap w b"
    and b: "b \<in> locs (threads v t) x"
  shows "b < next_ptr v \<or> heap v b \<noteq> None"
    and "case x of Freeing h \<Rightarrow> heap w b = None
      | _ \<Rightarrow> heap w b \<noteq> None \<and> b \<in># thread_refs E (threads w t)"
proof -
  show "b < next_ptr v \<or> heap v b \<noteq> None"
    using l b by (cases x) (auto simp: lags_def)
  show "case x of Freeing h \<Rightarrow> heap w b = None
      | _ \<Rightarrow> heap w b \<noteq> None \<and> b \<in># thread_refs E (threads w t)"
  proof (cases x)
    case (Freeing h)
    then show ?thesis
      using l b h [OF b] by (auto simp: lags_def settle_defs goto_def upd_def split: option.splits)
  next
    case (Allocating d f os p')
    obtain p c co where c: "loc (threads v t) = Body p" "cur_running (threads v t) = Some c"
      "ctx (main_coro (threads v t)) = Some (After_Resume c)" "heap v c = Some co" "c \<noteq> d"
      using l Allocating by (force simp: lags_def)
    have "new_spawned (threads w t) = Some d" "loc (threads w t) = After_Resume c"
      "last_result (threads w t) = Some (Inr Suspended)"
      using th [symmetric] c Allocating by (auto simp: settle_defs enter_def goto_def upd_def)
    moreover have "b = d \<or> b = c" using b Allocating c by simp
    moreover have "heap w b \<noteq> None"
      using h [OF b, symmetric] c Allocating calculation(4)
      by (auto simp: settle_defs enter_def goto_def upd_def)
    ultimately show ?thesis using Allocating by (auto simp: thread_refs_def)
  qed (use b in simp)
qed

lemma touched_refs:
  assumes laws: "env_laws E" and b: "b \<in> touched E t w" "b \<noteq> next_ptr w"
  shows "b \<in># mset (bq_view E (global_queue w)) + thread_refs E (threads w t)"
proof -
  have "b \<in> set (bq_view E (global_queue w))" if "fst (bq_pop E (global_queue w)) = Some b"
    using bq_pop_Some [OF laws, of "global_queue w" b "snd (bq_pop E (global_queue w))"] that
    by (metis list.set_intros(1) prod.collapse)
  then show ?thesis using b by (auto simp: touched_def thread_refs_def Let_def)
qed

text \<open>The steps of a thread that has no private work stay clear of the private work of others.\<close>

lemma untouched:
  assumes laws: "env_laws E" and tr: "tracks E n v part w" and inv: "inv E n {#} w"
    and t: "t < n" "part t = Done" and ij: "j \<noteq> t"
  shows "touched E t v \<inter> locs (threads v j) (part j) = {}"
proof (rule ccontr)
  assume "touched E t v \<inter> locs (threads v j) (part j) \<noteq> {}"
  then obtain b where b: "b \<in> touched E t v" "b \<in> locs (threads v j) (part j)" by blast
  have j: "j < n" using b(2) tracksD(5) [OF tr, of j] by (cases "j < n") auto
  have same: "touched E t v = touched E t w"
    using tracksD(1,3,11) [OF tr] t(2) by (simp add: touched_def)
  note l = lags_settled [OF tracksD(7,8,9) [OF tr] b(2)]
  have dom: "dom (heap w) \<subseteq> {..<next_ptr w}" using inv by (simp add: inv_def heap_ok_def)
  have "b \<noteq> next_ptr w"
  proof (cases "part j")
    case (Freeing h)
    then show ?thesis using tracksD(7) [OF tr, of j] tracksD(3) [OF tr] b(2) by (auto simp: lags_def)
  qed (use l(2) dom b(2) in auto)
  then have r: "b \<in># mset (bq_view E (global_queue w)) + thread_refs E (threads w t)"
    using touched_refs [OF laws] b(1) same by blast
  then have "b \<in># refs E n w" by (auto simp: refs_split [OF t(1)])
  then have alloc: "heap w b \<noteq> None" using inv by (auto simp: inv_def)
  then have "b \<in># thread_refs E (threads w j)" using l(2) b(2) by (auto split: pending.splits)
  from inv_one_holder [OF inv j this] r show False
    using t(1) ij by (auto simp: others_def sum_mset_member)
qed

lemma tracks_overlay:
  assumes "tracks E n v part w"
  shows "w = overlay {i. part i \<noteq> Done} (threads w) (\<Union>i. locs (threads v i) (part i)) (heap w) v"
proof -
  have "threads w = override_on (threads v) (threads w) {i. part i \<noteq> Done}"
    using tracksD(11) [OF assms] by (auto simp: override_on_def fun_eq_iff)
  moreover have "heap w = override_on (heap v) (heap w) (\<Union>i. locs (threads v i) (part i))"
    using tracksD(6) [OF assms] by (auto simp: override_on_def fun_eq_iff)
  ultimately show ?thesis
    using tracksD(1-4) [OF assms] by (intro world.equality) (simp_all add: overlay_def)
qed

lemma step_untouched:
  assumes "b \<notin> touched E t w" shows "heap (step E t w) b = heap w b"
proof -
  have "overlay {} (threads w) {b} (heap w) w = w"
    by (intro world.equality) (auto simp: overlay_def override_on_def fun_eq_iff)
  then have "step E t w = overlay {} (threads w) {b} (heap w) (step E t w)"
    using step_overlay [of t "{}" E w "{b}" "threads w" "heap w"] assms by auto
  then have "heap (step E t w) b = heap (overlay {} (threads w) {b} (heap w) (step E t w)) b" by simp
  then show ?thesis by (simp add: override_on_def)
qed

text \<open>A step of a thread without private work, up to its first part if it is taken apart.\<close>

lemma tracks_begin:
  assumes laws: "env_laws E" and tr: "tracks E n v part w" and inv: "inv E n {#} w"
    and t: "t < n" "part t = Done"
    and st: "step E t v = settle E t x v1" and th: "\<And>i. i \<noteq> t \<Longrightarrow> threads v1 i = threads v i"
    and hp: "\<And>b. b \<notin> touched E t v \<Longrightarrow> heap v1 b = heap v b"
    and np: "next_ptr v \<le> next_ptr v1" and lo: "locs (threads v1 t) x \<subseteq> touched E t v"
    and lag: "lags v1 t x"
  shows "tracks E n v1 (part(t := x)) (step E t w)"
proof -
  let ?L = "\<lambda>i. locs (threads v i) (part i)" and ?w = "step E t w"
  let ?T = "{i. part i \<noteq> Done}" and ?S = "\<Union>i. locs (threads v i) (part i)"
  have dis: "touched E t v \<inter> ?L j = {}" if "j \<noteq> t" for j
    by (rule untouched [OF laws tr inv t that])
  have tS: "touched E t v \<inter> ?S = {}"
  proof -
    have "touched E t v \<inter> ?L j = {}" for j using dis [of j] t(2) by (cases "j = t") auto
    then show ?thesis by blast
  qed
  have "?w = overlay ?T (threads w) ?S (heap w) (step E t v)"
    using step_overlay [of t ?T E v ?S "threads w" "heap w"] tS t(2) tracks_overlay [OF tr] by auto
  then have w: "?w = overlay ?T (threads w) ?S (heap w) (settle E t x v1)" by (simp only: st)
  have L: "locs (threads v1 i) ((part(t := x)) i) = ?L i" if "i \<noteq> t" for i
    using that th by simp
  have keep: "heap v1 b = heap v b" if "b \<in> ?S" for b
    by (rule hp) (use that tS in blast)
  show ?thesis
    unfolding tracks_def
  proof (intro conjI allI impI ballI)
    show "global_queue v1 = global_queue ?w" "work_counts v1 = work_counts ?w"
      "next_ptr v1 = next_ptr ?w" "user v1 = user ?w"
      by (simp_all add: w settle_frame)
  next
    fix i assume "n \<le> i"
    then show "(part(t := x)) i = Done" using t(1) tracksD(5) [OF tr] by auto
  next
    fix b assume b: "\<forall>i. b \<notin> locs (threads v1 i) ((part(t := x)) i)"
    have "b \<notin> ?L i" for i using b [rule_format, of i] L [of i] t(2) by (cases "i = t") auto
    moreover have "b \<notin> locs (threads v1 t) x" using b [rule_format, of t] by simp
    ultimately show "heap v1 b = heap ?w b" by (simp add: w override_on_def settle_frame(2))
  next
    fix i
    show "lags v1 i ((part(t := x)) i)"
    proof (cases "i = t")
      case False
      have "heap v1 b = heap v b" if "b \<in> ?L i" for b by (rule keep) (use that in blast)
      then show ?thesis
        using False tracksD(7) [OF tr, of i] th [OF False] np
        by (cases "part i") (auto simp: lags_def)
    qed (use lag in simp)
  next
    fix i
    show "threads (settle E i ((part(t := x)) i) v1) i = threads ?w i"
    proof (cases "i = t")
      case False
      have "threads (settle E i (part i) v1) i = threads (settle E i (part i) v) i"
        by (rule settle_local(1) [OF th [OF False]]) (use keep in blast)
      then show ?thesis
        using False tracksD(8,11) [OF tr, of i] th [OF False]
        by (auto simp: w settle_frame)
    qed (use t(2) in \<open>simp add: w\<close>)
  next
    fix i b assume b: "b \<in> locs (threads v1 i) ((part(t := x)) i)"
    show "heap (settle E i ((part(t := x)) i) v1) b = heap ?w b"
    proof (cases "i = t")
      case True
      then have "b \<notin> ?S" using b lo tS by auto
      then show ?thesis using True by (simp add: w override_on_def)
    next
      case False
      then have bi: "b \<in> ?L i" using b L by simp
      have "heap (settle E i (part i) v1) b = heap (settle E i (part i) v) b"
        by (rule settle_local(2) [OF th [OF False]]) (use keep bi in blast)+
      then show ?thesis
        using False tracksD(9) [OF tr bi] bi by (auto simp: w override_on_def)
    qed
  next
    fix i j :: nat assume ij: "i \<noteq> j"
    have new: "locs (threads v1 t) x \<inter> ?L k = {}" "?L k \<inter> locs (threads v1 t) x = {}" if "k \<noteq> t" for k
      using lo dis [OF that] by blast+
    then show "locs (threads v1 i) ((part(t := x)) i) \<inter> locs (threads v1 j) ((part(t := x)) j) = {}"
      using ij L [of i] L [of j] tracksD(10) [OF tr ij] new [of i] new [of j]
      by (cases "i = t"; cases "j = t") simp_all
  qed
qed

lemma tracks_finish:
  assumes tr: "tracks E n v part w"
  shows "tracks E n (settle E t (part t) v) (part(t := Done)) w"
proof -
  let ?v = "settle E t (part t) v" and ?L = "\<lambda>i. locs (threads v i) (part i)"
  have th: "threads ?v i = threads v i" if "i \<noteq> t" for i by (rule settle_frame(1) [OF that])
  have hp: "heap ?v b = heap v b" if "b \<notin> ?L t" for b by (rule settle_frame(2) [OF that])
  have keep: "heap ?v b = heap v b" if "i \<noteq> t" "b \<in> ?L i" for i b
    using hp tracksD(10) [OF tr that(1)] that(2) by blast
  have L: "locs (threads ?v i) ((part(t := Done)) i) = (if i = t then {} else ?L i)" for i
    using th by simp
  show ?thesis
    unfolding tracks_def
  proof (intro conjI allI impI ballI)
    show "global_queue ?v = global_queue w" "work_counts ?v = work_counts w"
      "next_ptr ?v = next_ptr w" "user ?v = user w"
      using tracksD(1-4) [OF tr] by (simp_all add: settle_frame)
  next
    fix i assume "n \<le> i"
    then show "(part(t := Done)) i = Done" using tracksD(5) [OF tr] by simp
  next
    fix b assume b: "\<forall>i. b \<notin> locs (threads ?v i) ((part(t := Done)) i)"
    show "heap ?v b = heap w b"
    proof (cases "b \<in> ?L t")
      case False
      then have "b \<notin> ?L i" for i using b [rule_format, of i] L [of i] by (cases "i = t") auto
      then show ?thesis using tracksD(6) [OF tr] hp [OF False] by simp
    qed (use tracksD(9) [OF tr] in simp)
  next
    fix i
    show "lags ?v i ((part(t := Done)) i)"
    proof (cases "i = t")
      case False
      then show ?thesis
        using tracksD(7) [OF tr, of i] th [OF False] keep [OF False]
        by (cases "part i") (auto simp: lags_def settle_frame)
    qed (simp add: lags_def)
  next
    fix i
    show "threads (settle E i ((part(t := Done)) i) ?v) i = threads w i"
    proof (cases "i = t")
      case False
      have "threads (settle E i (part i) ?v) i = threads (settle E i (part i) v) i"
        by (rule settle_local(1) [OF th [OF False] keep [OF False]])
      then show ?thesis using False tracksD(8) [OF tr] by simp
    qed (use tracksD(8) [OF tr] in simp)
  next
    fix i b assume "b \<in> locs (threads ?v i) ((part(t := Done)) i)"
    then have i: "i \<noteq> t" and b: "b \<in> ?L i" using L [of i] by (auto split: if_splits)
    have "heap (settle E i (part i) ?v) b = heap (settle E i (part i) v) b"
      by (rule settle_local(2) [OF th [OF i] keep [OF i] b])
    then show "heap (settle E i ((part(t := Done)) i) ?v) b = heap w b"
      using i tracksD(9) [OF tr b] by simp
  next
    fix i j :: nat assume ij: "i \<noteq> j"
    show "locs (threads ?v i) ((part(t := Done)) i) \<inter> locs (threads ?v j) ((part(t := Done)) j) = {}"
      using tracksD(10) [OF tr ij] unfolding L by auto
  qed
qed

lemma tracks_sane:
  assumes laws: "env_laws E" and tr: "tracks E n v part w" and inv: "inv E n {#} w"
    and t: "t < n" "part t = Done"
  shows "sane v t"
proof -
  have th: "threads v t = threads w t" and np: "next_ptr v = next_ptr w"
    using tracksD(3,11) [OF tr] t(2) by simp_all
  have same: "heap v b = heap w b" if "b \<in> touched E t v" for b
  proof (rule tracksD(6) [OF tr])
    fix i show "b \<notin> locs (threads v i) (part i)"
      using untouched [OF laws tr inv t, of i] that t(2) by (cases "i = t") auto
  qed
  have dom: "dom (heap w) \<subseteq> {..<next_ptr w}" using inv by (simp add: inv_def heap_ok_def)
  have alloc: "heap v b \<noteq> None \<and> b < next_ptr v"
    if "b \<in># thread_refs E (threads w t)" "b \<in> touched E t v" for b
  proof -
    have "b \<in># refs E n w" using that(1) by (auto simp: refs_split [OF t(1)])
    then have "b \<in> dom (heap w)" using inv by (auto simp: inv_def)
    then show ?thesis using same [OF that(2)] dom np by auto
  qed
  have fresh: "heap v (next_ptr v) = None"
    using same [of "next_ptr v"] dom np by (auto simp: touched_def Let_def)
  have task: "heap v h \<noteq> None \<and> h < next_ptr v"
    if "loc (threads v t) = After_Resume h" "ends_task (resume_result (threads v t))" for h
    by (rule alloc) (use that th in \<open>auto simp: ends_task_def resume_result_def thread_refs_def
        touched_def Let_def split: option.splits\<close>)
  have body: "\<exists>c. cur_running (threads v t) = Some c \<and>
      ctx (main_coro (threads v t)) = Some (After_Resume c) \<and> heap v c \<noteq> None"
    if l: "loc (threads v t) = Body p" for p
  proof -
    have "thread_ok E (threads w t)" using inv t(1) by (simp add: inv_def)
    then obtain c where c: "cur_running (threads w t) = Some c"
      "ctx (main_coro (threads w t)) = Some (After_Resume c)"
      using l th by (auto simp: thread_ok_def)
    have "heap v c \<noteq> None"
      using alloc [of c] c(1) th by (simp add: thread_refs_def touched_def Let_def)
    then show ?thesis using c th by simp
  qed
  show ?thesis using fresh task body by (simp add: sane_def)
qed

lemma tracks_fine_step:
  assumes laws: "env_laws E" and tr: "tracks E n v part w" and inv: "inv E n {#} w" and t: "t < n"
    and s: "fine_step E t (v, part) = (v', part')"
  shows "tracks E n v' part' (step E t w) \<or> tracks E n v' part' w"
proof (cases "part t = Done")
  case True
  consider "v' = step E t v" "part' = part"
    | x v1 where "v' = v1" "part' = part(t := x)" "parts E t v x v1" "lags v1 t x"
    using fine_step_Done [of part t v E, OF True tracks_sane [OF laws tr inv t True]] s by auto
  then show ?thesis
  proof cases
    case 1
    have "tracks E n (step E t v) (part(t := Done)) (step E t w)"
      by (rule tracks_begin [OF laws tr inv t True]) (simp_all add: step_other step_untouched step_next_ptr lags_def)
    then show ?thesis using 1 True by (simp add: fun_upd_idem)
  next
    case (2 x v1)
    have "tracks E n v1 (part(t := x)) (step E t w)"
      by (rule tracks_begin [OF laws tr inv t True]) (use 2 in \<open>auto simp: parts_def\<close>)
    then show ?thesis using 2 by simp
  qed
next
  case False
  then have "v' = settle E t (part t) v" "part' = part(t := Done)"
    using s by (auto split: pending.splits)
  then show ?thesis using tracks_finish [OF tr] by simp
qed

text \<open>
  Everything reached one access at a time is tracked by a state reached by whole steps: the
  operations \<open>finished\<close> and \<open>spawn_opts\<close> take effect at their access to the counter.
\<close>

lemma fine_tracks:
  assumes laws: "env_laws E" and r: "fine_reachable E n s"
  shows "\<exists>w. reachable E n w \<and> tracks E (run_threads n) (fst s) (snd s) w"
  using r
proof (induction rule: reach.induct)
  case (reach_init s)
  then show ?case
    using tracks_refl by (auto simp: fine_started_def intro: reach.reach_init)
next
  case (reach_step s s')
  then obtain w where w: "reachable E n w" and tr: "tracks E (run_threads n) (fst s) (snd s) w"
    by blast
  obtain t where t: "t < run_threads n" and s': "s' = fine_step E t s"
    using reach_step.hyps(2) by (auto elim: fine_sys_step.cases)
  have "fine_step E t (fst s, snd s) = (fst s', snd s')" using s' by simp
  from tracks_fine_step [OF laws tr reachable_inv [OF laws w] t this]
  show ?case using w reach.reach_step [OF w sys_step.intros [OF t]] by blast
qed

lemma tracks_fold:
  assumes "tracks E n v part w" and "distinct ts"
  shows "tracks E n (fold (\<lambda>t. settle E t (part t)) ts v) (\<lambda>i. if i \<in> set ts then Done else part i) w"
  using assms(2)
proof (induction ts rule: rev_induct)
  case Nil
  then show ?case using assms(1) by simp
next
  case (snoc t ts)
  let ?p = "\<lambda>i. if i \<in> set ts then Done else part i"
  have p: "?p t = part t" using snoc.prems by simp
  have "?p(t := Done) = (\<lambda>i. if i \<in> set (ts @ [t]) then Done else part i)" by auto
  then show ?case using tracks_finish [OF snoc.IH, of t] snoc.prems p by simp
qed

text \<open>The reduction: doing the private work in progress gives a state that whole steps reach.\<close>

lemma fine_reduction:
  assumes "env_laws E" and "fine_reachable E n (v, part)"
  shows "reachable E n (fold (\<lambda>t. settle E t (part t)) [0..<run_threads n] v)"
proof -
  let ?v = "fold (\<lambda>t. settle E t (part t)) [0..<run_threads n] v"
  let ?p = "\<lambda>i. if i \<in> set [0..<run_threads n] then Done else part i"
  obtain w where w: "reachable E n w" and tr: "tracks E (run_threads n) v part w"
    using fine_tracks [OF assms] by auto
  have t: "tracks E (run_threads n) ?v ?p w" by (rule tracks_fold [OF tr]) simp
  have "?p i = Done" for i using tracksD(5) [OF tr, of i] by auto
  then have p: "?p = (\<lambda>i. Done)" by (rule ext)
  have "?v = w"
    using tracks_overlay [OF t [unfolded p]]
    by (simp add: overlay_def override_on_def)
  then show ?thesis using w by simp
qed

text \<open>No coroutine is used after it is dropped or before it is made, either.\<close>

lemma fine_no_crash:
  assumes "env_laws E" and "fine_reachable E n (w, part)" and "t < run_threads n"
  shows "loc (threads w t) \<noteq> Crash"
proof -
  obtain v where v: "reachable E n v" and tr: "tracks E (run_threads n) w part v"
    using fine_tracks [OF assms(1,2)] by auto
  have "thread_ok E (threads v t)" using reachable_inv [OF assms(1) v] assms(3) by (simp add: inv_def)
  then show ?thesis
    using tracksD(7,11) [OF tr, of t] by (cases "part t") (auto simp: lags_def thread_ok_def)
qed

section \<open>The counter and the boxes\<close>

text \<open>The boxes that are counted no more but not dropped yet, and those counted before they are made.\<close>

definition freed :: "(tid \<Rightarrow> 'p pending) \<Rightarrow> ptr set" where
  "freed part = {h. \<exists>t. part t = Freeing h}"

definition made :: "(tid \<Rightarrow> 'p pending) \<Rightarrow> ptr set" where
  "made part = {d. \<exists>t f os p'. part t = Allocating d f os p'}"

lemma fine_boxes:
  assumes tr: "tracks E n v part w"
  shows "dom (heap w) = dom (heap v) - freed part \<union> made part"
    "freed part \<subseteq> dom (heap v)" "made part \<inter> dom (heap v) = {}"
proof -
  show "freed part \<subseteq> dom (heap v)"
  proof
    fix h assume "h \<in> freed part"
    then obtain t where "part t = Freeing h" by (auto simp: freed_def)
    then show "h \<in> dom (heap v)" using tracksD(7) [OF tr, of t] by (auto simp: lags_def)
  qed
  show "made part \<inter> dom (heap v) = {}"
  proof -
    have "heap v d = None" if "part t = Allocating d f os p'" for t d f os p'
      using tracksD(7) [OF tr, of t] that by (simp add: lags_def)
    then show ?thesis by (fastforce simp: made_def)
  qed
  have one: "i = j" if "b \<in> locs (threads v i) (part i)" "b \<in> locs (threads v j) (part j)" for b i j
    using tracksD(10) [OF tr, of i j] that by blast
  show "dom (heap w) = dom (heap v) - freed part \<union> made part"
  proof (rule set_eqI)
    fix b
    show "b \<in> dom (heap w) \<longleftrightarrow> b \<in> dom (heap v) - freed part \<union> made part"
    proof (cases "\<exists>i. b \<in> locs (threads v i) (part i)")
      case False
      then have "part t \<noteq> Freeing b" "part t \<noteq> Allocating b f os p'" for t f os p'
        by (metis insertI1 locs.simps(2,3))+
      then have "b \<notin> freed part" "b \<notin> made part" by (simp_all add: freed_def made_def)
      moreover have "heap v b = heap w b" using tracksD(6) [OF tr, of b] False by blast
      ultimately show ?thesis by (simp add: domIff)
    next
      case True
      then obtain i where i: "b \<in> locs (threads v i) (part i)" by blast
      note l = lags_settled [OF tracksD(7,8,9) [OF tr] i]
      show ?thesis
      proof (cases "part i")
        case (Freeing h)
        then have "b \<in> freed part" using i by (auto simp: freed_def)
        moreover have "b \<notin> made part"
        proof
          assume "b \<in> made part"
          then obtain j d f os p' where "part j = Allocating d f os p'" "b = d" by (auto simp: made_def)
          then show False using one [OF i, of j] Freeing by simp
        qed
        ultimately show ?thesis using l(2) Freeing by (auto simp: domIff)
      next
        case (Allocating d f os p')
        have nf: "b \<notin> freed part"
        proof
          assume "b \<in> freed part"
          then obtain j where "part j = Freeing b" by (auto simp: freed_def)
          then show False using one [OF i, of j] Allocating by simp
        qed
        show ?thesis
        proof (cases "b = d")
          case True
          then have "b \<in> made part" using Allocating by (auto simp: made_def)
          then show ?thesis using l(2) Allocating by (auto simp: domIff)
        next
          case False
          then have "heap v b \<noteq> None"
            using i Allocating tracksD(7) [OF tr, of i] by (auto simp: lags_def)
          then show ?thesis using l(2) nf Allocating by (auto simp: domIff)
        qed
      qed (use i in simp)
    qed
  qed
qed

text \<open>C6. \<open>work_counts\<close>, whenever a thread may read it, is as a machine word the number of coroutines
  that are allocated, less those some thread has counted down and not dropped yet, plus those some
  thread has counted and not allocated yet: so it is exactly the number of allocated coroutines
  when no thread is between the two halves of \<open>finished\<close> or \<open>spawn_opts\<close>.\<close>

theorem work_counts_boxes:
  assumes "env_laws E" and "fine_reachable E n (w, part)"
  shows "work_count w = of_nat (card (dom (heap w) - freed part \<union> made part)) \<and>
    freed part \<subseteq> dom (heap w) \<and> made part \<inter> dom (heap w) = {}"
proof -
  obtain v where v: "reachable E n v" and tr: "tracks E (run_threads n) w part v"
    using fine_tracks [OF assms] by auto
  have "work_counts v = of_nat (card (dom (heap v)))"
    using reachable_inv [OF assms(1) v] by (simp add: inv_def heap_ok_def)
  then show ?thesis
    using fine_boxes [OF tr] tracksD(2) [OF tr] by (simp add: work_count_def)
qed

text \<open>Runs of the demo, one access at a time.\<close>

lemma fine_fold:
  assumes "fine_reachable E n s" and "list_all (\<lambda>t. t < run_threads n) ts"
  shows "fine_reachable E n (fold (fine_step E) ts s)"
  using assms
proof (induction ts arbitrary: s)
  case (Cons t ts)
  then have "fine_reachable E n (fine_step E t s)"
    by (auto intro: reach.reach_step [OF Cons.prems(1)] fine_sys_step.intros simp del: fine_step.simps)
  then show ?case using Cons by simp
qed simp

lemma fine_demo:
  assumes "list_all (\<lambda>t. t < run_threads n) ts"
  shows "fine_reachable demo n (fold (fine_step demo) ts (demo_main ps, \<lambda>_. Done))"
  by (rule fine_fold [OF reach.reach_init assms]) (simp add: fine_started_def demo_started)

lemma demo_spawning:
  "\<exists>w. fold (fine_step demo) [0, 0, 0, 0] (demo_main [[D_Spawn []]], \<lambda>_. Done) =
     (w, (\<lambda>_. Done)(0 := Allocating 1 [] (options_new 64) [])) \<and> work_count w = 2 \<and> dom (heap w) = {0}"
  by (simp add: demo_eval ends_task_def work_count_def)

theorem work_counts_boxes_witness:
  "\<exists>w part. fold (fine_step demo) [0, 0, 0, 0] (demo_main [[D_Spawn []]], \<lambda>_. Done) = (w, part) \<and>
     work_count w = 2 \<and> work_count w = of_nat (card (dom (heap w) - freed part \<union> made part)) \<and>
     dom (heap w) = {0} \<and> made part = {1}"
proof -
  obtain w where w: "fold (fine_step demo) [0, 0, 0, 0] (demo_main [[D_Spawn []]], \<lambda>_. Done) =
      (w, (\<lambda>_. Done)(0 := Allocating 1 [] (options_new 64) []))" "work_count w = 2" "dom (heap w) = {0}"
    using demo_spawning by blast
  have "fine_reachable demo 2 (w, (\<lambda>_. Done)(0 := Allocating 1 [] (options_new 64) []))"
    using fine_demo [of 2 "[0, 0, 0, 0]" "[[D_Spawn []]]"] w(1) by (simp add: run_threads_def del: fine_step.simps)
  moreover have "made ((\<lambda>_. Done)(0 := Allocating 1 [] (options_new 64) [])) = {1}"
    by (auto simp: made_def split: if_splits)
  ultimately show ?thesis using work_counts_boxes [OF demo_laws] w by blast
qed

lemma demo_dropping:
  "\<exists>w. fold (fine_step demo) [0, 0, 0, 0, 0, 1, 1] (demo_main [[]], \<lambda>_. Done) =
     (w, (\<lambda>_. Done)(0 := Freeing 0)) \<and> loc (threads w 1) = Stopped (Inr ()) \<and> next_ptr w = 1"
  by (simp add: demo_eval ends_task_def work_count_def)

section \<open>A normal stop leaves no work\<close>

lemma empty_heap_nothing:
  assumes inv: "inv E n {#} w" and empty: "heap w = Map.empty" and t: "t < n"
  shows "bq_view E (global_queue w) = []" "cur_running (threads w t) = None"
    "new_spawned (threads w t) = None"
proof -
  have "refs E n w = {#}"
  proof (rule ccontr)
    assume "refs E n w \<noteq> {#}"
    then obtain b where "b \<in># refs E n w" by blast
    then show False using inv empty by (auto simp: inv_def)
  qed
  then have r: "mset (bq_view E (global_queue w)) = {#}" "thread_refs E (threads w t) = {#}"
    by (simp_all add: refs_split [OF t])
  show "bq_view E (global_queue w) = []" using r(1) by simp
  show "cur_running (threads w t) = None" "new_spawned (threads w t) = None"
    using r(2) by (auto simp: thread_refs_def opt_mset_def split: option.splits)
qed

text \<open>C5. When \<open>schedule\<close> has returned \<open>Ok(())\<close> on some thread, whatever the others are in the middle
  of, the counter is zero, nothing is queued, running or newly spawned on any thread, and no
  coroutine is being spawned; every coroutine that is still allocated is one another thread has
  counted down and is about to drop, and that thread's next step drops it. When every thread's
  \<open>schedule\<close> has returned, so that \<open>run\<close> returns, no coroutine is allocated. (The bound keeps the
  machine word \<open>work_counts\<close> from wrapping to zero.)\<close>

theorem stop_leaves_no_work:
  assumes "env_laws E" and "fine_reachable E n (w, part)" and "next_ptr w < 2 ^ 64"
    and "t < run_threads n" and "loc (threads w t) = Stopped (Inr ())"
  shows "work_count w = 0 \<and> bq_view E (global_queue w) = [] \<and>
    (\<forall>i<run_threads n. cur_running (threads w i) = None \<and> new_spawned (threads w i) = None) \<and>
    made part = {} \<and> dom (heap w) = freed part \<and>
    (\<forall>i h. part i = Freeing h \<longrightarrow> heap (fst (fine_step E i (w, part))) h = None) \<and>
    (run_returned n w \<longrightarrow> heap w = Map.empty)"
proof -
  let ?n = "run_threads n"
  obtain v where v: "reachable E n v" and tr: "tracks E ?n w part v"
    using fine_tracks [OF assms(1,2)] by auto
  have inv: "inv E ?n {#} v" by (rule reachable_inv [OF assms(1) v])
  have pending: "part i = Done \<or> loc (threads w i) \<noteq> Stopped r" for i r
    using tracksD(7) [OF tr, of i] by (cases "part i") (auto simp: lags_def)
  have "threads w t = threads v t" using pending [of t] assms(5) tracksD(11) [OF tr] by blast
  then have "stopped_ok ?n v" using assms(4,5) by (auto simp: stopped_ok_def)
  then have empty: "heap v = Map.empty"
    using stopped_heap_empty [OF assms(1) v] assms(3) tracksD(3) [OF tr] by simp
  note none = empty_heap_nothing [OF inv empty]
  have boxes: "made part = {}" "dom (heap w) = freed part"
    using fine_boxes [OF tr] empty by auto
  have count: "work_count w = 0"
    using inv empty tracksD(2) [OF tr] by (simp add: inv_def heap_ok_def work_count_def)
  have idle: "cur_running (threads w i) = None \<and> new_spawned (threads w i) = None" if "i < ?n" for i
  proof (cases "part i")
    case (Freeing h)
    have "threads v i = threads (settle E i (Freeing h) w) i"
      using tracksD(8) [OF tr, of i] Freeing by simp
    then show ?thesis
      using none(2,3) [OF that] by (auto simp: settle_defs goto_def upd_def split: option.splits)
  next
    case (Allocating d f os p')
    then show ?thesis using boxes(1) by (auto simp: made_def)
  qed (use none(2,3) [OF that] tracksD(11) [OF tr] in simp)
  have drop: "heap (fst (fine_step E i (w, part))) h = None" if "part i = Freeing h" for i h
    using that by (simp add: settle_defs split: option.split)
  have "heap w = Map.empty" if r: "run_returned n w"
  proof -
    have "part i = Done" for i
    proof (cases "i < ?n")
      case True
      then have "case loc (threads w i) of Stopped _ \<Rightarrow> True | _ \<Rightarrow> False"
        using r by (simp add: run_returned_def list_all_iff)
      then obtain r where "loc (threads w i) = Stopped r" by (cases "loc (threads w i)") simp_all
      then show ?thesis using pending [of i r] by simp
    qed (use tracksD(5) [OF tr] in simp)
    then show ?thesis using boxes(2) by (simp add: freed_def)
  qed
  moreover have "bq_view E (global_queue w) = []" using none(1) [OF assms(4)] tracksD(1) [OF tr] by simp
  ultimately show ?thesis using count boxes idle drop by blast
qed

theorem stop_leaves_no_work_witness:
  "\<exists>w part. fold (fine_step demo) [0, 0, 0, 0, 0, 1, 1] (demo_main [[]], \<lambda>_. Done) = (w, part) \<and>
     loc (threads w 1) = Stopped (Inr ()) \<and> work_count w = 0 \<and> dom (heap w) = {0} \<and>
     heap (fst (fine_step demo 0 (w, part))) 0 = None"
proof -
  let ?part = "(\<lambda>_. Done)(0 := Freeing 0) :: tid \<Rightarrow> demo_call list pending"
  obtain w where w: "fold (fine_step demo) [0, 0, 0, 0, 0, 1, 1] (demo_main [[]], \<lambda>_. Done) = (w, ?part)"
    and l: "loc (threads w 1) = Stopped (Inr ())" and b: "next_ptr w = 1"
    using demo_dropping by blast
  have "fine_reachable demo 2 (w, ?part)"
    using fine_demo [of 2 "[0, 0, 0, 0, 0, 1, 1]" "[[]]"] w
    by (simp add: run_threads_def del: fine_step.simps)
  moreover have "next_ptr w < 2 ^ 64" "1 < run_threads 2" using b by (simp_all add: run_threads_def)
  ultimately have "work_count w = 0" "dom (heap w) = freed ?part"
    "\<forall>i h. ?part i = Freeing h \<longrightarrow> heap (fst (fine_step demo i (w, ?part))) h = None"
    using stop_leaves_no_work [OF demo_laws _ _ _ l] by blast+
  moreover have "freed ?part = {0}" by (auto simp: freed_def split: if_splits)
  ultimately show ?thesis using w l by (metis fun_upd_same)
qed

end
