(* ===== verification/Spec2Isabelle.thy ===== *)
theory Spec2Isabelle
  imports Lock_Starvation Simple_Example Mutex_Test_Race Echo_Server Kqueue_Refinement Mutex_Properties
    Http_Echo_Properties Atomicity
begin

text \<open>
  A model of simplesched, a coroutine scheduler with asynchronous I/O for Rust, and what makes it
  correct.

  \<^bold>\<open>The program.\<close> User code calls \<open>spawn\<close>, \<open>sched\<close> and the blocking operations of \<open>net\<close> and
  \<open>sync\<close>; \<open>Scheduler::run(n)\<close> schedules its coroutines on \<open>n\<close> threads. The \<open>Scheduler\<close>
  (\<open>src/scheduler.rs\<close>) is global: a bounded queue of coroutine pointers and an atomic count of
  the coroutines that live. Each thread has a \<open>Processor\<close> (\<open>src/processor.rs\<close>): it pops a
  coroutine, swaps to its context (\<open>src/coroutine.rs\<close>), and when the coroutine swaps back it
  queues, frees or forgets it, as the result says that was left in \<open>last_result\<close>. A coroutine
  that waits for I/O is remembered in the slab of its thread's event loop until the event's
  handler queues it. \<open>src/net\<close> turns \<open>mio\<close>'s non-blocking sockets into blocking ones by waiting
  in this way; \<open>src/net/http\<close> puts \<open>hyper\<close> on them; \<open>src/sync/mutex.rs\<close> is a spin lock that
  calls \<open>sched\<close> between attempts.

  \<^bold>\<open>Theories.\<close> In the order of their imports:
  \<^item> \<open>Sched_Prelude\<close>: words, \<open>io::Error\<close>, reachability of a step relation, shared lemmas and the
    collections \<open>sched_defs\<close> and \<open>frame\<close>. \<open>Looping\<close>: the locale \<open>looping\<close>, the contract between a
    loop that may not end and its body (rounds, invariants, termination).
  \<^item> \<open>Options_Model\<close>: \<open>src/options.rs\<close> and the \<open>Builder\<close> of \<open>src/lib.rs\<close>.
  \<^item> \<open>Runtime_State\<close>: the state. \<open>world\<close> is the process: the scheduler's fields, the coroutines by
    address, and the threads, each a \<open>processor\<close> record with its stack pool and its location.
    A \<open>loc\<close> is a point of the code at which a thread can be interrupted; a saved context is the
    location at which it goes on. \<open>env\<close> is the record of what the crate calls in other packages
    (queue, slab, event loop, stacks) and of the user's code, which is one call at a time.
  \<^item> \<open>Coroutine_Model\<close>, \<open>Scheduler_Model\<close>, \<open>Processor_Model\<close>: one definition per function of the
    three files, \<open>step\<close> for one step of a thread, \<open>sys_step\<close> for their interleaving, \<open>run\<close>'s
    start and end. An operation that gives control away takes the location its caller goes on at.
    The locale \<open>yielding\<close> is what \<open>sched\<close>, \<open>block\<close> and \<open>yield_with\<close> have in common.
    \<open>Kqueue_Model\<close>: the variants of \<open>wait_event\<close> and \<open>Handler::ready\<close> for macOS and the BSDs.
  \<^item> \<open>Runtime_Invariant\<close>, \<open>Ownership\<close>: the laws of the packages (\<open>env_laws\<close>) and the invariant
    \<open>inv\<close>: every coroutine pointer in the queue, the slabs, the processors and local variables
    is held once and is allocated. \<open>Demo_Env\<close> is the concrete instance the witnesses run on.
  \<^item> \<open>Step_Frame\<close>, \<open>Step_Effects\<close>: what a step leaves alone, and the steps as an operational
    semantics \<open>effect\<close>, by whose cases the invariants are proved.
  \<^item> \<open>Mutex_Model\<close>: \<open>src/sync/mutex.rs\<close>. \<open>Net_Model\<close>: \<open>src/net/mod.rs\<close>, \<open>tcp.rs\<close> and \<open>udp.rs\<close>
    over a record of \<open>mio\<close>'s sockets; \<open>Net_Blocking\<close>: the locale \<open>blocking\<close>, an attempt and a
    wait made one blocking operation, and its interpretation on the five retry loops.
    \<open>Std_Write\<close>: \<open>write_all\<close> and \<open>BufWriter\<close> of the standard library. \<open>Http_Conn\<close>:
    \<open>src/net/http/conn.rs\<close>; \<open>Http_Server\<close>: \<open>server.rs\<close> and \<open>client.rs\<close>, over a record of
    \<open>hyper\<close>'s requests and handler.
  \<^item> Programs that use the crate, once as functions over blocking operations (\<open>Echo_Model\<close>: the TCP
    and UDP echo servers of \<open>examples\<close>; \<open>Http_Echo\<close>: \<open>http-echo-server\<close>, \<open>http-echo-client\<close> and
    \<open>std::io::copy\<close>), once as user code of the runtime, one call or one access to shared data at
    a time (\<open>Simple_Example\<close>: \<open>simple\<close>; \<open>Mutex_Test\<close>: the unit test of \<open>sync/mutex.rs\<close>;
    \<open>Echo_Code\<close>: the TCP echo server).

  \<^bold>\<open>What is proved.\<close>
  \<^item> Safety of the runtime on any number of threads and under every interleaving (\<open>Safety\<close>): no
    dangling pointer is followed, no coroutine runs twice at once, the queue holds each ready
    coroutine once. \<open>Schedule_End\<close>, \<open>Schedule_Stuck\<close>, \<open>Spawn_Safety\<close>, \<open>Runtime_Bounds\<close>: what a normal end
    of \<open>schedule\<close> means, what keeps it from ending, that spawning inside a coroutine loses none
    while spawning before \<open>run\<close> does, the bound of the queue, stacks given back.
  \<^item> The grain of the steps (\<open>Atomicity\<close>). A step is one access to shared memory together with
    the thread's own work around it. For two functions this hides something: \<open>finished\<close> counts a
    coroutine down before it drops its box, \<open>spawn_opts\<close> counts it before it makes the box, and
    another thread can read the counter in between. \<open>fine_step\<close> takes the two apart. By
    \<open>fine_reduction\<close> a state reached in this way becomes, once the private work in progress is
    done, one that whole steps reach, and by \<open>fine_no_crash\<close> no dangling pointer is followed on
    the way. What the counter says of the boxes, and what is left when \<open>schedule\<close> returns, is
    proved at this grain (\<open>work_counts_boxes\<close>, \<open>stop_leaves_no_work\<close>).
  \<^item> Refinement (\<open>Coroutine_Spec\<close>, \<open>Runtime_Refinement\<close>, \<open>Coroutine_Contract\<close>): the runtime
    implements coroutines that are ready, waiting or parked, without queue, slab and contexts;
    what an event, a panic and \<open>block\<close> do follows.
  \<^item> Termination (\<open>Fairness\<close>, \<open>Run_Work\<close>, \<open>Run_Terminates\<close>): \<open>run(n)\<close> returns under every fair
    schedule of its threads when the code it runs makes finitely many calls. \<open>Fairness\<close> has the
    locale \<open>progress\<close>, an amount of work that helpful steps of a fair schedule use up; \<open>Run_Work\<close>
    is that amount for the runtime. A coroutine that waits for an event that never comes keeps
    \<open>run\<close> from returning, so the events that are waited for have to come: \<open>events_come\<close>, which
    bounds how many polls may pass without one. \<open>Kqueue_Refinement\<close>: the other platforms' variants behave as
    the Linux ones.
  \<^item> Who gets to run: by the same locale, \<open>Starvation\<close> shows that no ready coroutine starves, for
    code that may run for ever; the amount is the number of coroutines ahead in the queue, the
    distance how far a thread is from its next pop. No event has to come for this; polls may
    time out. \<open>Io_Starvation\<close> shows that waiting
    coroutines can: a thread polls its event loop only when it finds the queue empty.
    \<open>Lock_Starvation\<close>: so can the holder of a mutex that waits for I/O while others try to lock it.
  \<^item> Programs on the runtime: \<open>Cooperative\<close> and \<open>Interleaved\<close> are the rules by which an invariant of
    user code holds with one thread, at the calls where control is given away, and with any
    number of threads, at every access. By them \<open>simple\<close> prints its ten lines, the test of the
    mutex (\<open>Mutex_Test_Runs\<close>, \<open>Mutex_Test_Race\<close>) always returns, passes with one thread and can
    fail with ten, and every connection of the TCP echo server (\<open>Echo_Server\<close>) is echoed in order
    whatever the others do. \<open>Echo_Code\<close> shows that its pieces between two waits make the same
    program as the blocking functions.
  \<^item> \<open>Mutex_Properties\<close>: mutual exclusion with one worker, and the two ways it is lost.
    \<open>Net_Properties\<close>, \<open>Http_Properties\<close>, \<open>Echo_Properties\<close>, \<open>Http_Echo_Properties\<close>: retry
    loops against their big-step semantics, the order in which addresses are tried and what
    \<open>connect\<close> and \<open>send_to\<close> do on each of them, the keep-alive loop, responses in order
    of requests, what one bad TLS client does to a server, echoed bytes and bodies, and datagrams,
    of which the first 1024 bytes come back.

  \<^bold>\<open>Bounds.\<close> The queue holds \<open>GLOBAL_QUEUE_SIZE\<close> (4096) pointers, the slab \<open>MAX_TOKEN_NUM\<close>
  entries; a full slab is an error branch of \<open>wait_event\<close>, a full queue a retry. \<open>work_counts\<close> is
  a 64-bit word and wraps. \<open>lock\<close> tries \<open>POISON_RETRY_COUNT\<close> (102400) times, by recursion on the
  attempts left. Loops without a bound are \<open>partial_function (option)\<close> where they belong to one
  coroutine (\<open>None\<close>: they never end) and locations of the step relation in the runtime. The
  acceptors of a server, which never return, are run for any number of rounds.

  \<^bold>\<open>Assumptions.\<close> \<open>env_laws\<close> and \<open>capacity_laws\<close> state what \<open>mio\<close> and \<open>context\<close>
  promise: a first-in first-out queue with a capacity, a slab that gives out free tokens,
  one-shot registrations delivered once. \<open>responsive\<close> adds what a run needs that is to go on:
  that the registrations it makes succeed, and that a poll with something registered does not
  fail; it may report nothing, as \<open>run_once\<close> does after its time-out. \<open>events_come\<close> is used for
  the return of \<open>run\<close> only. The contracts of a socket are hypotheses of the theorems on the
  examples: \<open>udp_contract\<close> (a receive puts into the buffer as much of the next datagram as it
  holds and discards the rest), \<open>answering\<close> (a handler of \<open>hyper\<close> reads the body of its request
  and writes a reply that depends on request, body, version and response
  headers). An address is not given out twice, so that a stale pointer shows. Threads interleave at single accesses to shared memory (see \<open>Atomicity\<close>),
  sequentially consistent, as the crate's atomics are. \<open>Mutex_Model\<close>'s \<open>lock\<close> and \<open>drop\<close> take what
  other threads do between two accesses as a function of the store; the theorems on exclusion
  and on the test of the mutex interleave arbitrary steps instead. In \<open>Net_Model\<close> and
  above, \<open>wait_event\<close> is a function that returns once for its coroutine; \<open>Coroutine_Contract\<close> shows that the runtime resumes a
  waiting coroutine after its wait. \<open>fair\<close> says of a schedule that every thread steps again and
  again; it is a hypothesis where a run has to end or a coroutine to be run, never of a safety
  property. \<open>ends\<close> and \<open>yields\<close> say of user code that it makes finitely many calls, altogether or
  between two points at which it gives control back; \<open>spins\<close> and \<open>locking\<close> that it never does
  anything else than \<open>sched\<close>, or is in the loop of \<open>lock\<close>.

  \<^bold>\<open>Not modelled.\<close> \<open>mio\<close>, \<open>context\<close>, \<open>bytes\<close>, \<open>hyper\<close> and \<open>openssl\<close> themselves, and how a
  context switch saves registers; log messages, except where their arguments can panic; the time
  \<open>schedule\<close> sleeps; that a slab entry owns its descriptor and closes it when dropped; the memory
  behind \<open>Guard\<close>'s reference, beyond the store of mutexes; the command lines of the examples.
\<close>

end
